theory Spec2Isabelle
  imports Complex_Main
begin

section \<open>The copy-on-write string (\<open>json::cow_string\<close>)\<close>

text \<open>
  A \<open>cow_string\<close> is a triple of a shared pointer to a character block, an offset and a
  length. The blocks live in a heap, a list of blocks whose index is the address;
  \<open>std::make_shared\<close> appends a block, so a new address is never one that is in use.
  \<open>size_t\<close> is taken to be 64 bits wide; the one place where the source adds two arbitrary
  \<open>size_t\<close> values (\<open>substr\<close>, and the index of \<open>operator[]\<close>) wraps around explicitly.
  An access outside a block is undefined behaviour in C++; the model returns \<open>None\<close> there
  (or the error \<open>Undefined_behaviour\<close> in the reader and the writer).
\<close>

type_synonym heap = "char list list"

record cow_string =
  storage :: nat
  offset :: nat
  length' :: nat

definition size_t :: "nat \<Rightarrow> nat" where
  "size_t n = n mod 2 ^ 64"

definition npos :: nat where
  "npos = 2 ^ 64 - 1"

definition NUL :: char where
  "NUL = CHR 0x00"

definition block_of :: "heap \<Rightarrow> cow_string \<Rightarrow> char list" where
  "block_of h s = (if storage s < length h then h ! storage s else [])"

text \<open>\<open>storage[offset + index]\<close>, the read of both \<open>operator[]\<close> and \<open>char_proxy\<close>.\<close>

definition char_at :: "heap \<Rightarrow> cow_string \<Rightarrow> nat \<Rightarrow> char option" where
  "char_at h s index =
     (let j = size_t (offset s + index); b = block_of h s
      in if j < length b then Some (b ! j) else None)"

text \<open>The \<open>n\<close> bytes from \<open>data()\<close> on; \<open>None\<close> when they do not all lie in the block.\<close>

definition window :: "heap \<Rightarrow> cow_string \<Rightarrow> nat \<Rightarrow> char list option" where
  "window h s n =
     (let b = block_of h s
      in if offset s + n \<le> length b then Some (take n (drop (offset s) b)) else None)"

text \<open>\<open>operator std::string_view\<close>: the bytes a slice shows.\<close>

definition string_view :: "heap \<Rightarrow> cow_string \<Rightarrow> char list option" where
  "string_view h s = window h s (length' s)"

text \<open>The constructor \<open>cow_string(std::string_view)\<close>: a new block of \<open>size + 1\<close> bytes.\<close>

definition cow_string_new :: "heap \<Rightarrow> char list \<Rightarrow> heap \<times> cow_string" where
  "cow_string_new h v =
     (h @ [v @ [NUL]], \<lparr>storage = length h, offset = 0, length' = length v\<rparr>)"

text \<open>\<open>substr\<close>: a copy of the slice with \<open>offset += offset\<close> and \<open>length = count\<close>; nothing is checked.\<close>

definition substr :: "cow_string \<Rightarrow> nat \<Rightarrow> nat \<Rightarrow> cow_string" where
  "substr s off count = s\<lparr>offset := size_t (offset s + off), length' := count\<rparr>"

text \<open>The private \<open>copy()\<close>: the window moves to a block of its own.\<close>

definition copy :: "heap \<Rightarrow> cow_string \<Rightarrow> (heap \<times> cow_string) option" where
  "copy h s =
     (case string_view h s of
        None \<Rightarrow> None
      | Some w \<Rightarrow> Some (h @ [w @ [NUL]], s\<lparr>storage := length h, offset := 0\<rparr>))"

text \<open>\<open>find(c, pos)\<close>: the first index from \<open>pos\<close> on that holds \<open>c\<close>, or \<open>npos\<close>.\<close>

function find_from :: "heap \<Rightarrow> cow_string \<Rightarrow> char \<Rightarrow> nat \<Rightarrow> nat option" where
  "find_from h s c i =
     (if i < length' s then
        (case char_at h s i of
           None \<Rightarrow> None
         | Some b \<Rightarrow> if b = c then Some i else find_from h s c (Suc i))
      else Some npos)"
  by pat_completeness auto
termination
  by (relation "measure (\<lambda>(h, s, c, i). length' s - i)") auto

declare find_from.simps [simp del]

definition cow_find :: "heap \<Rightarrow> cow_string \<Rightarrow> char \<Rightarrow> nat \<Rightarrow> nat option" where
  "cow_find h s c pos = find_from h s c pos"

text \<open>\<open>operator==(const char*)\<close>: equal lengths, then \<open>std::equal\<close> over the window.\<close>

definition cow_eq :: "heap \<Rightarrow> cow_string \<Rightarrow> char list \<Rightarrow> bool option" where
  "cow_eq h s other =
     (if length' s \<noteq> length other then Some False
      else case window h s (length' s) of
             None \<Rightarrow> None
           | Some w \<Rightarrow> Some (w = other))"

text \<open>\<open>std::char_traits<char>::compare\<close> on two windows of one length: bytes compare unsigned.\<close>

fun traits_compare :: "char list \<Rightarrow> char list \<Rightarrow> int" where
  "traits_compare (x # xs) (y # ys) =
     (if (of_char x :: nat) < of_char y then - 1
      else if (of_char y :: nat) < of_char x then 1
      else traits_compare xs ys)"
| "traits_compare _ _ = 0"

text \<open>\<open>operator<\<close>.\<close>

definition cow_less :: "heap \<Rightarrow> cow_string \<Rightarrow> cow_string \<Rightarrow> bool option" where
  "cow_less h a b =
     (let n = min (length' a) (length' b)
      in case (window h a n, window h b n) of
           (Some pa, Some pb) \<Rightarrow>
             (let cmp = traits_compare pa pb
              in if cmp < 0 then Some True
                 else if cmp > 0 then Some False
                 else Some (length' a < length' b))
         | _ \<Rightarrow> None)"

text \<open>
  \<open>c_str()\<close>: the block itself when the slice starts at 0 and a terminator follows it,
  a private copy otherwise. The result is the slice after the call and the C string the
  returned pointer shows, which ends at the first NUL.
\<close>

definition c_str :: "heap \<Rightarrow> cow_string \<Rightarrow> (heap \<times> cow_string \<times> char list) option" where
  "c_str h s =
     (if offset s = 0 then
        (case char_at h s (length' s) of
           None \<Rightarrow> None
         | Some t \<Rightarrow>
             if t = NUL then Some (h, s, takeWhile (\<lambda>c. c \<noteq> NUL) (block_of h s))
             else (case copy h s of
                     None \<Rightarrow> None
                   | Some (h', s') \<Rightarrow> Some (h', s', takeWhile (\<lambda>c. c \<noteq> NUL) (block_of h' s'))))
      else (case copy h s of
              None \<Rightarrow> None
            | Some (h', s') \<Rightarrow> Some (h', s', takeWhile (\<lambda>c. c \<noteq> NUL) (block_of h' s'))))"

subsection \<open>Live strings and the reference count\<close>

text \<open>
  A program state holds the heap and the \<open>cow_string\<close> objects that are alive, each known by
  its index. The \<open>use_count()\<close> of a block is the number of live objects whose shared pointer
  owns it, which is what \<open>std::shared_ptr\<close> counts.
\<close>

record cow_state =
  blocks :: heap
  objs :: "cow_string list"

definition use_count :: "cow_state \<Rightarrow> nat \<Rightarrow> nat" where
  "use_count st a = length (filter (\<lambda>s. storage s = a) (objs st))"

definition construct :: "cow_state \<Rightarrow> char list \<Rightarrow> cow_state" where
  "construct st v =
     (let (h, s) = cow_string_new (blocks st) v
      in \<lparr>blocks = h, objs = objs st @ [s]\<rparr>)"

text \<open>The defaulted copy constructor: the new object (the last one) shares the block.\<close>

definition copy_construct :: "cow_state \<Rightarrow> nat \<Rightarrow> cow_state" where
  "copy_construct st i = st\<lparr>objs := objs st @ [objs st ! i]\<rparr>"

definition substr_obj :: "cow_state \<Rightarrow> nat \<Rightarrow> nat \<Rightarrow> nat \<Rightarrow> cow_state" where
  "substr_obj st i off count = st\<lparr>objs := objs st @ [substr (objs st ! i) off count]\<rparr>"

definition copy_obj :: "cow_state \<Rightarrow> nat \<Rightarrow> cow_state option" where
  "copy_obj st i =
     (case copy (blocks st) (objs st ! i) of
        None \<Rightarrow> None
      | Some (h, s) \<Rightarrow> Some \<lparr>blocks = h, objs = (objs st)[i := s]\<rparr>)"

text \<open>\<open>char_proxy::operator=\<close> on object \<open>i\<close>: \<open>str[index] = c\<close>.\<close>

definition char_proxy_assign :: "cow_state \<Rightarrow> nat \<Rightarrow> nat \<Rightarrow> char \<Rightarrow> cow_state option" where
  "char_proxy_assign st i index c =
     (case (if use_count st (storage (objs st ! i)) > 1 then copy_obj st i else Some st) of
        None \<Rightarrow> None
      | Some st1 \<Rightarrow>
          (let s = objs st1 ! i; j = size_t (offset s + index); b = block_of (blocks st1) s
           in if j < length b
              then Some (st1\<lparr>blocks := (blocks st1)[storage s := b[j := c]]\<rparr>)
              else None))"

text \<open>What object \<open>i\<close> shows: the indexed read and the whole view.\<close>

definition read_obj :: "cow_state \<Rightarrow> nat \<Rightarrow> nat \<Rightarrow> char option" where
  "read_obj st i index = char_at (blocks st) (objs st ! i) index"

definition view_obj :: "cow_state \<Rightarrow> nat \<Rightarrow> char list option" where
  "view_obj st i = string_view (blocks st) (objs st ! i)"

text \<open>The invariant of the specification: the window lies inside the block.\<close>

definition slice_inv :: "heap \<Rightarrow> cow_string \<Rightarrow> bool" where
  "slice_inv h s \<longleftrightarrow> storage s < length h \<and> offset s + length' s \<le> length (h ! storage s)"


section \<open>The value model\<close>

text \<open>
  \<open>Value\<close> is the variant of the source; a \<open>node\<close> is a struct around one \<open>Value\<close> and is
  not told apart from it. \<open>Integer\<close> holds a 64-bit signed number as an \<open>int\<close> (the reader
  checks the range when it converts). \<open>Float\<close> holds the exact decimal value whose nearest
  \<open>double\<close> the program stores; the rounding itself is not modelled. \<open>Object\<close> is a
  \<open>std::map\<close>: the model keeps the entries as the list that iterating the map shows.
\<close>

datatype Value =
    Null
  | Bool bool
  | Integer int
  | Float rat
  | String cow_string
  | Array "Value list"
  | Object "(cow_string \<times> Value) list"

text \<open>
  \<open>obj[key] = value\<close> on the map: the key goes to its place in the order of \<open>operator<\<close>;
  when an equivalent key is there already (neither is less than the other) only the mapped
  value is replaced. The map of the source searches a tree and the model scans the list;
  both find the same place.
\<close>

fun obj_assign ::
  "heap \<Rightarrow> cow_string \<Rightarrow> Value \<Rightarrow> (cow_string \<times> Value) list \<Rightarrow> (cow_string \<times> Value) list option"
where
  "obj_assign h k v [] = Some [(k, v)]"
| "obj_assign h k v ((k', v') # m) =
     (case cow_less h k k' of
        None \<Rightarrow> None
      | Some True \<Rightarrow> Some ((k, v) # (k', v') # m)
      | Some False \<Rightarrow>
          (case cow_less h k' k of
             None \<Rightarrow> None
           | Some True \<Rightarrow> map_option (Cons (k', v')) (obj_assign h k v m)
           | Some False \<Rightarrow> Some ((k', v) # m)))"

section \<open>The reader (\<open>json::json_reader\<close>)\<close>

text \<open>
  Every \<open>json_exception\<close> the reader throws is one constructor, with the values its message
  is formatted from. \<open>Undefined_behaviour\<close> is no exception: it marks an access outside a
  block. \<open>Out_of_fuel\<close> belongs to the model only (see \<open>parse_value\<close>).
\<close>

datatype error =
    Illegal_token char nat
  | Expected_quote nat char
  | Key_must_be_string nat
  | Expected_colon nat char
  | Invalid_token char nat nat
  | Unexpected_end
  | Undefined_behaviour
  | Out_of_fuel

fun is_json_exception :: "error \<Rightarrow> bool" where
  "is_json_exception Undefined_behaviour = False"
| "is_json_exception Out_of_fuel = False"
| "is_json_exception _ = True"

text \<open>
  The cursor and the counters are \<open>size_t\<close> in the source. They are natural numbers here:
  the cursor never passes twice the length of the text, so it does not wrap around.
\<close>

record json_reader =
  src :: cow_string
  pos :: nat
  row :: nat
  column :: nat

definition json_reader_new :: "heap \<Rightarrow> char list \<Rightarrow> heap \<times> json_reader" where
  "json_reader_new h v =
     (let (h', s) = cow_string_new h v
      in (h', \<lparr>src = s, pos = 0, row = 1, column = 0\<rparr>))"

text \<open>\<open>std::isspace\<close> and \<open>std::isdigit\<close> in the C locale.\<close>

definition isspace :: "char \<Rightarrow> bool" where
  "isspace c \<longleftrightarrow> c \<in> set [CHR 0x20, CHR 0x09, CHR 0x0A, CHR 0x0B, CHR 0x0C, CHR 0x0D]"

definition isdigit :: "char \<Rightarrow> bool" where
  "isdigit c \<longleftrightarrow> c \<in> set ''0123456789''"

text \<open>\<open>pos < src.size() && P(src[pos])\<close>.\<close>

definition at_pos :: "heap \<Rightarrow> json_reader \<Rightarrow> (char \<Rightarrow> bool) \<Rightarrow> bool option" where
  "at_pos h rd P =
     (if pos rd < length' (src rd) then map_option P (char_at h (src rd) (pos rd))
      else Some False)"

function skip_whitespace :: "heap \<Rightarrow> json_reader \<Rightarrow> error + json_reader" where
  "skip_whitespace h rd =
     (case at_pos h rd isspace of
        None \<Rightarrow> Inl Undefined_behaviour
      | Some False \<Rightarrow> Inr rd
      | Some True \<Rightarrow>
          (case at_pos h rd (\<lambda>c. c = CHR 0x0A) of
             None \<Rightarrow> Inl Undefined_behaviour
           | Some nl \<Rightarrow>
               skip_whitespace h
                 (rd\<lparr>row := (if nl then row rd + 1 else row rd),
                     column := (if nl then 0 else column rd) + 1,
                     pos := pos rd + 1\<rparr>)))"
  by pat_completeness auto
termination
  by (relation "measure (\<lambda>(h, rd). length' (src rd) - pos rd)")
     (auto simp: at_pos_def split: if_splits)

declare skip_whitespace.simps [simp del]

text \<open>
  The slice the literal parsers compare: \<open>src.substr(pos, n)\<close>, whatever is left of the text.
\<close>

definition lookahead :: "json_reader \<Rightarrow> nat \<Rightarrow> cow_string" where
  "lookahead rd n = substr (src rd) (pos rd) n"

definition illegal_token :: "heap \<Rightarrow> json_reader \<Rightarrow> error" where
  "illegal_token h rd =
     (case char_at h (src rd) (pos rd) of
        None \<Rightarrow> Undefined_behaviour
      | Some c \<Rightarrow> Illegal_token c (pos rd))"

definition parse_null :: "heap \<Rightarrow> json_reader \<Rightarrow> error + Value \<times> json_reader" where
  "parse_null h rd =
     (case cow_eq h (lookahead rd 4) ''null'' of
        None \<Rightarrow> Inl Undefined_behaviour
      | Some True \<Rightarrow> Inr (Null, rd\<lparr>pos := pos rd + 4\<rparr>)
      | Some False \<Rightarrow> Inl (illegal_token h rd))"

definition parse_true :: "heap \<Rightarrow> json_reader \<Rightarrow> error + Value \<times> json_reader" where
  "parse_true h rd =
     (case cow_eq h (lookahead rd 4) ''true'' of
        None \<Rightarrow> Inl Undefined_behaviour
      | Some True \<Rightarrow> Inr (Bool True, rd\<lparr>pos := pos rd + 4\<rparr>)
      | Some False \<Rightarrow> Inl (illegal_token h rd))"

definition parse_false :: "heap \<Rightarrow> json_reader \<Rightarrow> error + Value \<times> json_reader" where
  "parse_false h rd =
     (case cow_eq h (lookahead rd 5) ''false'' of
        None \<Rightarrow> Inl Undefined_behaviour
      | Some True \<Rightarrow> Inr (Bool False, rd\<lparr>pos := pos rd + 5\<rparr>)
      | Some False \<Rightarrow> Inl (illegal_token h rd))"

definition parse_string :: "heap \<Rightarrow> json_reader \<Rightarrow> error + Value \<times> json_reader" where
  "parse_string h rd =
     (let p = pos rd + 1
      in case cow_find h (src rd) CHR 0x22 p of
           None \<Rightarrow> Inl Undefined_behaviour
         | Some e \<Rightarrow>
             if e = npos then
               (case char_at h (src rd) p of
                  None \<Rightarrow> Inl Undefined_behaviour
                | Some c \<Rightarrow> Inl (Expected_quote p c))
             else Inr (String (substr (src rd) p (e - p)), rd\<lparr>pos := e + 1\<rparr>))"


subsection \<open>Numbers\<close>

text \<open>The scanning loop of \<open>parse_number\<close>: the index after the run of digits, \<open>e\<close> and \<open>.\<close>\<close>

definition number_char :: "char \<Rightarrow> bool" where
  "number_char c \<longleftrightarrow> isdigit c \<or> c = CHR ''e'' \<or> c = CHR ''.''"

function scan_number :: "heap \<Rightarrow> cow_string \<Rightarrow> nat \<Rightarrow> nat option" where
  "scan_number h s e =
     (if e < length' s then
        (case char_at h s e of
           None \<Rightarrow> None
         | Some c \<Rightarrow> if number_char c then scan_number h s (Suc e) else Some e)
      else Some e)"
  by pat_completeness auto
termination
  by (relation "measure (\<lambda>(h, s, e). length' s - e)") auto

declare scan_number.simps [simp del]

text \<open>The lambda \<open>is_float\<close>.\<close>

definition is_float :: "heap \<Rightarrow> cow_string \<Rightarrow> bool option" where
  "is_float h number =
     (case cow_find h number CHR ''.'' 0 of
        None \<Rightarrow> None
      | Some i \<Rightarrow>
          if i \<noteq> npos then Some True
          else map_option (\<lambda>j. j \<noteq> npos) (cow_find h number CHR ''e'' 0))"

text \<open>
  \<open>std::from_chars\<close> is the standard library's. It converts the longest prefix of the token
  that has the shape of a number and fails (\<open>None\<close>) when there is no such prefix or the value
  is out of range; what follows the prefix is left alone. For an integer the shape is an
  optional minus sign and digits, and the range is that of 64 signed bits.
\<close>

definition digit_val :: "char \<Rightarrow> nat" where
  "digit_val c = of_char c - 48"

definition dec :: "char list \<Rightarrow> nat" where
  "dec ds = foldl (\<lambda>a c. 10 * a + digit_val c) 0 ds"

definition from_chars_int :: "char list \<Rightarrow> int option" where
  "from_chars_int cs =
     (let neg = (cs \<noteq> [] \<and> hd cs = CHR ''-'');
          ds = takeWhile isdigit (if neg then tl cs else cs);
          v = (if neg then - int (dec ds) else int (dec ds))
      in if ds = [] then None
         else if - (2 ^ 63) \<le> v \<and> v < 2 ^ 63 then Some v
         else None)"

text \<open>
  For a \<open>double\<close> the shape is digits with an optional point among them (at least one digit)
  and an optional exponent, which is read only when a digit follows the \<open>e\<close>. A token of the
  reader holds digits, \<open>.\<close> and \<open>e\<close> only, so signs, \<open>E\<close>, \<open>inf\<close> and \<open>nan\<close> are left out
  of the model. The value is out of range when it rounds to infinity or, not being zero, to
  zero.
\<close>

definition double_range :: "rat \<Rightarrow> bool" where
  "double_range q \<longleftrightarrow> q = 0 \<or> (1 / 2 ^ 1075 < q \<and> q < 2 ^ 1024 - 2 ^ 970)"

definition from_chars_double :: "char list \<Rightarrow> rat option" where
  "from_chars_double cs =
     (let ip = takeWhile isdigit cs;
          r1 = dropWhile isdigit cs;
          pt = (r1 \<noteq> [] \<and> hd r1 = CHR ''.'');
          fp = (if pt then takeWhile isdigit (tl r1) else []);
          r2 = (if pt then dropWhile isdigit (tl r1) else r1);
          ex = (if r2 \<noteq> [] \<and> hd r2 = CHR ''e'' then takeWhile isdigit (tl r2) else []);
          q = of_nat (dec (ip @ fp)) * 10 ^ dec ex / 10 ^ length fp
      in if ip = [] \<and> fp = [] then None
         else if double_range q then Some q
         else None)"

definition invalid_token :: "heap \<Rightarrow> json_reader \<Rightarrow> error" where
  "invalid_token h rd =
     (case char_at h (src rd) (pos rd) of
        None \<Rightarrow> Undefined_behaviour
      | Some c \<Rightarrow> Invalid_token c (row rd) (column rd))"

definition parse_number :: "heap \<Rightarrow> json_reader \<Rightarrow> error + Value \<times> json_reader" where
  "parse_number h rd =
     (case scan_number h (src rd) (pos rd) of
        None \<Rightarrow> Inl Undefined_behaviour
      | Some e \<Rightarrow>
          (let number = substr (src rd) (pos rd) (e - pos rd);
               rd' = rd\<lparr>pos := e\<rparr>
           in case (is_float h number, string_view h number) of
                (Some fl, Some tok) \<Rightarrow>
                  (case (if fl then map_option Float (from_chars_double tok)
                         else map_option Integer (from_chars_int tok)) of
                     Some v \<Rightarrow> Inr (v, rd')
                   | None \<Rightarrow> Inl (invalid_token h rd'))
              | _ \<Rightarrow> Inl Undefined_behaviour))"

subsection \<open>Values, arrays and objects\<close>

text \<open>
  \<open>parse_value\<close>, \<open>parse_array\<close> and \<open>parse_object\<close> call each other, and the two \<open>while\<close>
  loops are functions of their own. The first argument bounds the depth of the calls; it is
  there for the definition only: \<open>parse\<close> starts with enough of it for any text
  (\<open>parse_never_out_of_fuel\<close>).
\<close>

definition optional_comma :: "heap \<Rightarrow> json_reader \<Rightarrow> json_reader option" where
  "optional_comma h rd =
     (case at_pos h rd (\<lambda>c. c = CHR '','') of
        None \<Rightarrow> None
      | Some True \<Rightarrow> Some (rd\<lparr>pos := pos rd + 1\<rparr>)
      | Some False \<Rightarrow> Some rd)"

definition expected_colon :: "heap \<Rightarrow> json_reader \<Rightarrow> error" where
  "expected_colon h rd =
     (case char_at h (src rd) (pos rd) of
        None \<Rightarrow> Undefined_behaviour
      | Some c \<Rightarrow> Expected_colon (pos rd) c)"


function (sequential) parse_value :: "nat \<Rightarrow> heap \<Rightarrow> json_reader \<Rightarrow> error + Value \<times> json_reader"
  and parse_array :: "nat \<Rightarrow> heap \<Rightarrow> json_reader \<Rightarrow> error + Value \<times> json_reader"
  and parse_array_loop ::
    "nat \<Rightarrow> heap \<Rightarrow> json_reader \<Rightarrow> Value list \<Rightarrow> error + Value \<times> json_reader"
  and parse_object :: "nat \<Rightarrow> heap \<Rightarrow> json_reader \<Rightarrow> error + Value \<times> json_reader"
  and parse_object_loop ::
    "nat \<Rightarrow> heap \<Rightarrow> json_reader \<Rightarrow> (cow_string \<times> Value) list \<Rightarrow> error + Value \<times> json_reader"
where
  "parse_value 0 h rd = Inl Out_of_fuel"
| "parse_value (Suc n) h rd =
     (case skip_whitespace h rd of
        Inl e \<Rightarrow> Inl e
      | Inr rd1 \<Rightarrow>
          if pos rd1 \<ge> length' (src rd1) then Inl Unexpected_end
          else (case char_at h (src rd1) (pos rd1) of
                  None \<Rightarrow> Inl Undefined_behaviour
                | Some c \<Rightarrow>
                    if c = CHR ''n'' then parse_null h rd1
                    else if c = CHR ''t'' then parse_true h rd1
                    else if c = CHR ''f'' then parse_false h rd1
                    else if c = CHR 0x22 then parse_string h rd1
                    else if c = CHR ''['' then parse_array n h rd1
                    else if c = CHR ''{'' then parse_object n h rd1
                    else parse_number h rd1))"
| "parse_array n h rd =
     (case skip_whitespace h (rd\<lparr>pos := pos rd + 1\<rparr>) of
        Inl e \<Rightarrow> Inl e
      | Inr rd1 \<Rightarrow> parse_array_loop n h rd1 [])"
| "parse_array_loop 0 h rd arr = Inl Out_of_fuel"
| "parse_array_loop (Suc n) h rd arr =
     (case at_pos h rd (\<lambda>c. c \<noteq> CHR '']'') of
        None \<Rightarrow> Inl Undefined_behaviour
      | Some False \<Rightarrow> Inr (Array arr, rd\<lparr>pos := pos rd + 1\<rparr>)
      | Some True \<Rightarrow>
          (case parse_value n h rd of
             Inl e \<Rightarrow> Inl e
           | Inr (v, rd1) \<Rightarrow>
               (case optional_comma h rd1 of
                  None \<Rightarrow> Inl Undefined_behaviour
                | Some rd2 \<Rightarrow>
                    (case skip_whitespace h rd2 of
                       Inl e \<Rightarrow> Inl e
                     | Inr rd3 \<Rightarrow> parse_array_loop n h rd3 (arr @ [v])))))"
| "parse_object n h rd =
     (case skip_whitespace h (rd\<lparr>pos := pos rd + 1\<rparr>) of
        Inl e \<Rightarrow> Inl e
      | Inr rd1 \<Rightarrow> parse_object_loop n h rd1 [])"
| "parse_object_loop 0 h rd obj = Inl Out_of_fuel"
| "parse_object_loop (Suc n) h rd obj =
     (case at_pos h rd (\<lambda>c. c \<noteq> CHR ''}'') of
        None \<Rightarrow> Inl Undefined_behaviour
      | Some False \<Rightarrow> Inr (Object obj, rd\<lparr>pos := pos rd + 1\<rparr>)
      | Some True \<Rightarrow>
          (case parse_value n h rd of
             Inl e \<Rightarrow> Inl e
           | Inr (String key, rd1) \<Rightarrow>
               (case at_pos h rd1 (\<lambda>c. c = CHR '':'') of
                  None \<Rightarrow> Inl Undefined_behaviour
                | Some False \<Rightarrow> Inl (expected_colon h rd1)
                | Some True \<Rightarrow>
                    (case parse_value n h (rd1\<lparr>pos := pos rd1 + 1\<rparr>) of
                       Inl e \<Rightarrow> Inl e
                     | Inr (v, rd2) \<Rightarrow>
                         (case optional_comma h rd2 of
                            None \<Rightarrow> Inl Undefined_behaviour
                          | Some rd3 \<Rightarrow>
                              (case skip_whitespace h rd3 of
                                 Inl e \<Rightarrow> Inl e
                               | Inr rd4 \<Rightarrow>
                                   (case obj_assign h key v obj of
                                      None \<Rightarrow> Inl Undefined_behaviour
                                    | Some obj' \<Rightarrow> parse_object_loop n h rd4 obj')))))
           | Inr (_, rd1) \<Rightarrow> Inl (Key_must_be_string (pos rd1))))"
  by pat_completeness auto
termination
  by (relation "measure (\<lambda>x. case x of
          Inl (Inl (n, _)) \<Rightarrow> 2 * n
        | Inl (Inr (n, _)) \<Rightarrow> 2 * n + 1
        | Inr (Inl (n, _)) \<Rightarrow> 2 * n
        | Inr (Inr (Inl (n, _))) \<Rightarrow> 2 * n + 1
        | Inr (Inr (Inr (n, _))) \<Rightarrow> 2 * n)") simp_all

text \<open>
  \<open>parse()\<close>: the cursor and the counters start again and one value is read. The
  \<open>std::optional\<close> it returns always holds the node, so the result is the node or the error.
\<close>

definition parse :: "heap \<Rightarrow> json_reader \<Rightarrow> error + Value" where
  "parse h rd =
     map_sum id fst
       (parse_value (2 * length' (src rd) + 1) h (rd\<lparr>pos := 0, row := 1, column := 0\<rparr>))"

text \<open>A reader is made for the text (which puts the text into a block of its own) and run.\<close>

definition parse_text :: "char list \<Rightarrow> error + Value" where
  "parse_text v = (let (h, rd) = json_reader_new [] v in parse h rd)"

section \<open>The writer (\<open>json::json_writer\<close>)\<close>

text \<open>
  \<open>output << obj\<close> for an \<open>Integer\<close>: the decimal digits, after a minus sign for a negative
  number.
\<close>

definition digit_char :: "nat \<Rightarrow> char" where
  "digit_char d = ''0123456789'' ! d"

function digits :: "nat \<Rightarrow> char list" where
  "digits n = (if n < 10 then [digit_char n] else digits (n div 10) @ [digit_char (n mod 10)])"
  by pat_completeness auto
termination
  by (relation "measure id") auto

declare digits.simps [simp del]

definition show_int :: "int \<Rightarrow> char list" where
  "show_int i = (if i < 0 then CHR ''-'' # digits (nat (- i)) else digits (nat i))"

text \<open>
  \<open>write\<close> (here \<open>write_node\<close>) returns the text it sends to the output, or \<open>None\<close> when it reads outside a block.
  The node is passed by value, so the private copy that \<open>c_str()\<close> may make is gone when
  \<open>write\<close> returns, and the heap of the caller is as before. The text \<open>operator<<\<close> prints
  for a \<open>double\<close> is not modelled: it is the parameter \<open>fmt\<close>. The two \<open>for\<close> loops are
  \<open>write_array\<close> and \<open>write_object\<close>; a comma follows every element but the last.
\<close>

fun write_node :: "(rat \<Rightarrow> char list) \<Rightarrow> heap \<Rightarrow> Value \<Rightarrow> char list option"
  and write_array :: "(rat \<Rightarrow> char list) \<Rightarrow> heap \<Rightarrow> Value list \<Rightarrow> char list option"
  and write_object :: "(rat \<Rightarrow> char list) \<Rightarrow> heap \<Rightarrow> (cow_string \<times> Value) list \<Rightarrow> char list option"
where
  "write_node fmt h Null = Some ''null''"
| "write_node fmt h (Bool b) = Some (if b then ''true'' else ''false'')"
| "write_node fmt h (Integer i) = Some (show_int i)"
| "write_node fmt h (Float q) = Some (fmt q)"
| "write_node fmt h (String s) =
     (case c_str h s of
        None \<Rightarrow> None
      | Some (_, _, cs) \<Rightarrow> Some (CHR 0x22 # cs @ [CHR 0x22]))"
| "write_node fmt h (Array xs) =
     (case write_array fmt h xs of
        None \<Rightarrow> None
      | Some t \<Rightarrow> Some (CHR ''['' # t @ '']''))"
| "write_node fmt h (Object kvs) =
     (case write_object fmt h kvs of
        None \<Rightarrow> None
      | Some t \<Rightarrow> Some (CHR ''{'' # t @ ''}''))"
| "write_array fmt h [] = Some []"
| "write_array fmt h (x # xs) =
     (case (write_node fmt h x, write_array fmt h xs) of
        (Some t, Some ts) \<Rightarrow> Some (t @ (if xs = [] then [] else '','') @ ts)
      | _ \<Rightarrow> None)"
| "write_object fmt h [] = Some []"
| "write_object fmt h ((k, v) # kvs) =
     (case (string_view h k, write_node fmt h v, write_object fmt h kvs) of
        (Some kb, Some t, Some ts) \<Rightarrow>
          Some (CHR 0x22 # kb @ CHR 0x22 # CHR '':'' # t @ (if kvs = [] then [] else '','') @ ts)
      | _ \<Rightarrow> None)"

section \<open>Example states\<close>

text \<open>The state of \<open>test_cow_string\<close> in \<open>main.cpp\<close>: \<open>str1\<close> and its copy \<open>str2\<close>.\<close>

definition hello_shared :: cow_state where
  "hello_shared = copy_construct (construct \<lparr>blocks = [], objs = []\<rparr> ''Hello, World!'') 0"

text \<open>The sample documents of the specification.\<close>

definition sample1 :: "char list" where
  "sample1 = ''{\"a\":1,\"b\":[1,2,3],\"c\":{\"d\":true,\"e\":null},\"f\":2.5}''"

definition sample3 :: "char list" where
  "sample3 = ''{\"a\":}''"

definition sample5 :: "char list" where
  "sample5 = ''{\"a\":1,\"a\":2}''"

text \<open>
  Texts that end before a container is closed: after an element, after an entry, inside
  four containers, and after a colon.
\<close>

definition open_array :: "char list" where
  "open_array = ''[1, 2''"

definition open_object :: "char list" where
  "open_object = ''{\"a\":1''"

definition open_nested :: "char list" where
  "open_nested = ''[{\"a\":[1,{\"b\":2''"

definition open_entry :: "char list" where
  "open_entry = ''{\"a\":''"

text \<open>
  Texts that end with the closing quote of a key, the first key of an object and the second
  key of an object in an array, and the first with a space and the rest of a document after
  it. Two documents with a space after a value.
\<close>

definition bare_key :: "char list" where
  "bare_key = ''{\"a\"''"

definition second_key :: "char list" where
  "second_key = ''[{\"a\":1,\"b\"''"

definition spaced_key :: "char list" where
  "spaced_key = ''{\"a\" : 1}''"

definition spaced_array :: "char list" where
  "spaced_array = ''[1 ]''"

definition spaced_object :: "char list" where
  "spaced_object = ''{\"a\":1 }''"

text \<open>
  Three entries whose keys are slices of one block, not in the order of the keys and with
  the key \<open>b\<close> twice, and the text of an object with these entries.
\<close>

definition mixed_heap :: heap where
  "mixed_heap = [''bab'' @ [NUL]]"

definition mixed_entries :: "(cow_string \<times> Value) list" where
  "mixed_entries =
     [(\<lparr>storage = 0, offset = 0, length' = 1\<rparr>, Integer 1),
      (\<lparr>storage = 0, offset = 1, length' = 2\<rparr>, Integer 2),
      (\<lparr>storage = 0, offset = 2, length' = 1\<rparr>, Integer 3)]"

definition mixed_body :: "char list" where
  "mixed_body = ''\"b\":1,\"ab\":2,\"b\":3''"

definition mixed_text :: "char list" where
  "mixed_text = CHR ''{'' # mixed_body @ ''}''"

text \<open>An array with an object that has the key \<open>a\<close> twice.\<close>

definition nested_twice :: "char list" where
  "nested_twice = ''[{\"a\":1,\"a\":2}]''"

text \<open>The reader \<open>parse_text\<close> makes for a text (its heap is \<open>heap_of_text\<close>).\<close>

definition reader_of :: "char list \<Rightarrow> json_reader" where
  "reader_of v = snd (json_reader_new [] v)"

text \<open>A text that ends inside the literal \<open>null\<close>.\<close>

definition cut_literal :: "char list" where
  "cut_literal = ''n''"

text \<open>
  A heap with the block of the text \<open>ab\<close> and a tree over it: an object with the key \<open>a\<close>
  mapped to an array of an integer, the string \<open>b\<close>, null and true.
\<close>

definition small_heap :: heap where
  "small_heap = [''ab'' @ [NUL]]"

definition small_tree :: Value where
  "small_tree =
     Object [(\<lparr>storage = 0, offset = 0, length' = 1\<rparr>,
              Array [Integer 10, String \<lparr>storage = 0, offset = 1, length' = 1\<rparr>, Null, Bool True])]"

text \<open>A heap with the four bytes \<open>a"b\<close> and a terminator, and the string that shows them.\<close>

definition quote_heap :: heap where
  "quote_heap = [[CHR ''a'', CHR 0x22, CHR ''b'', NUL]]"

definition quote_string :: Value where
  "quote_string = String \<lparr>storage = 0, offset = 0, length' = 3\<rparr>"

section \<open>Notions the properties are stated with\<close>

text \<open>
  The slice \<open>s\<close> shows the whole text \<open>txt\<close> of a block made by the constructor: it starts
  at 0, and the block holds the text and the terminator. This is how \<open>json_reader\<close> holds
  its source. The text is shorter than \<open>npos\<close>, as every object in memory is.
\<close>

definition reads_text :: "heap \<Rightarrow> cow_string \<Rightarrow> char list \<Rightarrow> bool" where
  "reads_text h s txt \<longleftrightarrow>
     storage s < length h \<and> h ! storage s = txt @ [NUL] \<and> offset s = 0 \<and>
     length' s = length txt \<and> length txt < npos"

text \<open>The cursor has moved forward over the same source.\<close>

definition progress :: "json_reader \<Rightarrow> json_reader \<Rightarrow> bool" where
  "progress rd rd' \<longleftrightarrow> src rd' = src rd \<and> pos rd < pos rd'"

text \<open>What is left of the source after the cursor.\<close>

definition remaining :: "json_reader \<Rightarrow> nat" where
  "remaining rd = length' (src rd) - pos rd"


text \<open>
  What a tree shows to someone who reads every string through its view: the same tree with
  the bytes in the place of the slices. It is \<open>None\<close> when a slice lies outside its block.
\<close>

datatype json =
    JNull
  | JBool bool
  | JInteger int
  | JFloat rat
  | JString "char list"
  | JArray "json list"
  | JObject "(char list \<times> json) list"

fun shown :: "heap \<Rightarrow> Value \<Rightarrow> json option"
  and shown_list :: "heap \<Rightarrow> Value list \<Rightarrow> json list option"
  and shown_entries :: "heap \<Rightarrow> (cow_string \<times> Value) list \<Rightarrow> (char list \<times> json) list option"
where
  "shown h Null = Some JNull"
| "shown h (Bool b) = Some (JBool b)"
| "shown h (Integer i) = Some (JInteger i)"
| "shown h (Float q) = Some (JFloat q)"
| "shown h (String s) = map_option JString (string_view h s)"
| "shown h (Array xs) = map_option JArray (shown_list h xs)"
| "shown h (Object kvs) = map_option JObject (shown_entries h kvs)"
| "shown_list h [] = Some []"
| "shown_list h (x # xs) =
     (case (shown h x, shown_list h xs) of
        (Some y, Some ys) \<Rightarrow> Some (y # ys)
      | _ \<Rightarrow> None)"
| "shown_entries h [] = Some []"
| "shown_entries h ((k, v) # kvs) =
     (case (string_view h k, shown h v, shown_entries h kvs) of
        (Some a, Some y, Some ys) \<Rightarrow> Some ((a, y) # ys)
      | _ \<Rightarrow> None)"

text \<open>The heap \<open>parse_text\<close> reads from: the one block the reader makes for the text.\<close>

definition heap_of_text :: "char list \<Rightarrow> heap" where
  "heap_of_text v = fst (json_reader_new [] v)"

text \<open>
  The order of \<open>operator<\<close> on the bytes two slices show: the first differing byte decides,
  read as an unsigned number, and a proper prefix comes first.
\<close>

fun bytes_less :: "char list \<Rightarrow> char list \<Rightarrow> bool" where
  "bytes_less [] [] = False"
| "bytes_less [] (y # ys) = True"
| "bytes_less (x # xs) [] = False"
| "bytes_less (x # xs) (y # ys) =
     ((of_char x :: nat) < of_char y \<or> (x = y \<and> bytes_less xs ys))"

text \<open>The entries of an object with the bytes of each key in the place of its slice.\<close>

fun entry_views :: "heap \<Rightarrow> (cow_string \<times> 'v) list \<Rightarrow> (char list \<times> 'v) list option" where
  "entry_views h [] = Some []"
| "entry_views h ((k, v) # m) =
     (case (string_view h k, entry_views h m) of
        (Some a, Some es) \<Rightarrow> Some ((a, v) # es)
      | _ \<Rightarrow> None)"

text \<open>\<open>obj_assign\<close> on the bytes of the keys.\<close>

fun ins :: "char list \<Rightarrow> 'v \<Rightarrow> (char list \<times> 'v) list \<Rightarrow> (char list \<times> 'v) list" where
  "ins k v [] = [(k, v)]"
| "ins k v ((k', v') # m) =
     (if bytes_less k k' then (k, v) # (k', v') # m
      else if bytes_less k' k then (k', v') # ins k v m
      else (k', v) # m)"

text \<open>
  The entries the loop of \<open>parse_object\<close> reads, one after the other in the order of the
  text, and the reader after the closing brace: the loop with the map left out. It stops
  with the same errors as the loop does while it reads.
\<close>

fun entries_read ::
  "nat \<Rightarrow> heap \<Rightarrow> json_reader \<Rightarrow> error + (cow_string \<times> Value) list \<times> json_reader"
where
  "entries_read 0 h rd = Inl Out_of_fuel"
| "entries_read (Suc n) h rd =
     (case at_pos h rd (\<lambda>c. c \<noteq> CHR ''}'') of
        None \<Rightarrow> Inl Undefined_behaviour
      | Some False \<Rightarrow> Inr ([], rd\<lparr>pos := pos rd + 1\<rparr>)
      | Some True \<Rightarrow>
          (case parse_value n h rd of
             Inl e \<Rightarrow> Inl e
           | Inr (String key, rd1) \<Rightarrow>
               (case at_pos h rd1 (\<lambda>c. c = CHR '':'') of
                  None \<Rightarrow> Inl Undefined_behaviour
                | Some False \<Rightarrow> Inl (expected_colon h rd1)
                | Some True \<Rightarrow>
                    (case parse_value n h (rd1\<lparr>pos := pos rd1 + 1\<rparr>) of
                       Inl e \<Rightarrow> Inl e
                     | Inr (v, rd2) \<Rightarrow>
                         (case optional_comma h rd2 of
                            None \<Rightarrow> Inl Undefined_behaviour
                          | Some rd3 \<Rightarrow>
                              (case skip_whitespace h rd3 of
                                 Inl e \<Rightarrow> Inl e
                               | Inr rd4 \<Rightarrow>
                                   (case entries_read n h rd4 of
                                      Inl e \<Rightarrow> Inl e
                                    | Inr (es, rd') \<Rightarrow> Inr ((key, v) # es, rd'))))))
           | Inr (_, rd1) \<Rightarrow> Inl (Key_must_be_string (pos rd1))))"

text \<open>The assignments \<open>obj[key] = value\<close> for a sequence of entries, one after the other.\<close>

fun obj_assign_all ::
  "heap \<Rightarrow> (cow_string \<times> Value) list \<Rightarrow> (cow_string \<times> Value) list \<Rightarrow> (cow_string \<times> Value) list option"
where
  "obj_assign_all h [] m = Some m"
| "obj_assign_all h ((k, v) # es) m =
     (case obj_assign h k v m of
        None \<Rightarrow> None
      | Some m' \<Rightarrow> obj_assign_all h es m')"

text \<open>The slices in a tree: the \<open>String\<close> values and the keys of the objects.\<close>

fun strings_of :: "Value \<Rightarrow> cow_string list"
  and strings_of_list :: "Value list \<Rightarrow> cow_string list"
  and strings_of_entries :: "(cow_string \<times> Value) list \<Rightarrow> cow_string list"
where
  "strings_of (String s) = [s]"
| "strings_of (Array xs) = strings_of_list xs"
| "strings_of (Object kvs) = strings_of_entries kvs"
| "strings_of _ = []"
| "strings_of_list [] = []"
| "strings_of_list (x # xs) = strings_of x @ strings_of_list xs"
| "strings_of_entries [] = []"
| "strings_of_entries ((k, v) # kvs) = k # strings_of v @ strings_of_entries kvs"

text \<open>A slice cut out of \<open>s\<close> by \<open>substr\<close>, within the length of \<open>s\<close>.\<close>

definition cut_from :: "cow_string \<Rightarrow> cow_string \<Rightarrow> bool" where
  "cut_from s t \<longleftrightarrow> (\<exists>p n. p + n \<le> length' s \<and> t = substr s p n)"

definition all_cut :: "cow_string \<Rightarrow> cow_string list \<Rightarrow> bool" where
  "all_cut s ts \<longleftrightarrow> (\<forall>t\<in>set ts. cut_from s t)"

text \<open>Every live string of a state lies inside its block.\<close>

definition state_inv :: "cow_state \<Rightarrow> bool" where
  "state_inv st \<longleftrightarrow> (\<forall>s\<in>set (objs st). slice_inv (blocks st) s)"

text \<open>
  The trees that the writer and the reader agree on. An \<open>Integer\<close> is not negative (the
  reader knows no sign). The bytes of a \<open>String\<close> hold no quote (neither side escapes) and
  no NUL (\<open>c_str()\<close> ends there); its length is a \<open>size_t\<close>, and when the slice starts at 0
  the block has the byte after it, which \<open>c_str()\<close> reads. A key holds no quote. The keys of
  an object are in the strict order of the map. A \<open>Float\<close> is left out: its text is not
  modelled.
\<close>

definition plain_string :: "heap \<Rightarrow> cow_string \<Rightarrow> bool" where
  "plain_string h s \<longleftrightarrow>
     (case string_view h s of
        None \<Rightarrow> False
      | Some w \<Rightarrow> CHR 0x22 \<notin> set w \<and> NUL \<notin> set w \<and> length' s < 2 ^ 64
          \<and> (offset s = 0 \<longrightarrow> length' s < length (block_of h s)))"

definition plain_key :: "heap \<Rightarrow> cow_string \<Rightarrow> bool" where
  "plain_key h k \<longleftrightarrow>
     (case string_view h k of None \<Rightarrow> False | Some kb \<Rightarrow> CHR 0x22 \<notin> set kb)"

definition sorted_keys :: "heap \<Rightarrow> (cow_string \<times> Value) list \<Rightarrow> bool" where
  "sorted_keys h kvs \<longleftrightarrow>
     (case entry_views h kvs of
        None \<Rightarrow> False
      | Some es \<Rightarrow> sorted_wrt bytes_less (map fst es))"

fun plain :: "heap \<Rightarrow> Value \<Rightarrow> bool"
  and plain_list :: "heap \<Rightarrow> Value list \<Rightarrow> bool"
  and plain_entries :: "heap \<Rightarrow> (cow_string \<times> Value) list \<Rightarrow> bool"
where
  "plain h Null = True"
| "plain h (Bool b) = True"
| "plain h (Integer i) = (0 \<le> i \<and> i < 2 ^ 63)"
| "plain h (Float q) = False"
| "plain h (String s) = plain_string h s"
| "plain h (Array xs) = plain_list h xs"
| "plain h (Object kvs) = (plain_entries h kvs \<and> sorted_keys h kvs)"
| "plain_list h [] = True"
| "plain_list h (x # xs) = (plain h x \<and> plain_list h xs)"
| "plain_entries h [] = True"
| "plain_entries h ((k, v) # kvs) = (plain_key h k \<and> plain h v \<and> plain_entries h kvs)"

text \<open>The bytes a written value can start with.\<close>

definition starter :: "char \<Rightarrow> bool" where
  "starter c \<longleftrightarrow> isdigit c \<or> c \<in> set [CHR ''n'', CHR ''t'', CHR ''f'', CHR 0x22, CHR ''['', CHR ''{'']"

text \<open>
  The writer and the reader agree on \<open>v\<close>: if the tree is plain, the writer gives a text
  for it, and wherever that text stands in a source (not followed by a byte that would
  continue a number) the reader, started at its first byte, returns a tree that shows the
  same as \<open>v\<close> and stops right after the text.
\<close>

definition reads_back :: "(rat \<Rightarrow> char list) \<Rightarrow> heap \<Rightarrow> Value \<Rightarrow> bool" where
  "reads_back fmt h v \<longleftrightarrow>
     (plain h v \<longrightarrow>
       (\<exists>t. write_node fmt h v = Some t \<and> shown h v \<noteq> None \<and>
          (\<forall>h' rd txt pre post n.
             reads_text h' (src rd) txt \<and> txt = pre @ t @ post \<and> pos rd = length pre \<and>
             (post = [] \<or> \<not> number_char (hd post)) \<and> 2 * length t + 1 \<le> n \<longrightarrow>
             (\<exists>v'. parse_value n h' rd = Inr (v', rd\<lparr>pos := length pre + length t\<rparr>) \<and>
                   shown h' v' = shown h v))))"

section \<open>Properties of the copy-on-write string\<close>

lemma two_in_filter:
  assumes "i < length xs" "j < length xs" "i \<noteq> j" "P (xs ! i)" "P (xs ! j)"
  shows "1 < length (filter P xs)"
proof -
  have "{i, j} \<subseteq> {k. k < length xs \<and> P (xs ! k)}" using assms by auto
  then have "card {i, j} \<le> card {k. k < length xs \<and> P (xs ! k)}"
    by (intro card_mono) auto
  then show ?thesis using assms(3) by (simp add: length_filter_conv_card)
qed

lemma block_of_alloc:
  "storage s < length h \<Longrightarrow> block_of (h @ [b]) s = block_of h s"
  by (simp add: block_of_def nth_append)

lemma size_t_le: "size_t n \<le> n"
  by (simp add: size_t_def)

text \<open>
  C1 (copy-on-write isolation). Two live strings \<open>i\<close> and \<open>j\<close> share one block. An indexed
  write through \<open>i\<close> that is defined leaves \<open>j\<close> as it was: the same slice, the same
  view, the same byte at every index. A write inside the slice is defined.
\<close>

theorem cow_isolation:
  assumes "i < length (objs st)" and "j < length (objs st)" and "i \<noteq> j"
    and "storage (objs st ! i) = storage (objs st ! j)"
    and "storage (objs st ! j) < length (blocks st)"
  shows "(slice_inv (blocks st) (objs st ! i) \<and> index < length' (objs st ! i)
            \<longrightarrow> char_proxy_assign st i index c \<noteq> None)
       \<and> (\<forall>st'. char_proxy_assign st i index c = Some st'
            \<longrightarrow> objs st' ! j = objs st ! j
              \<and> view_obj st' j = view_obj st j
              \<and> (\<forall>k. read_obj st' j k = read_obj st j k))"
proof -
  let ?s = "objs st ! i"
  let ?h = "blocks st"
  have shared: "1 < use_count st (storage ?s)"
    unfolding use_count_def using assms by (intro two_in_filter[of i _ j]) auto
  have defined: "char_proxy_assign st i index c \<noteq> None"
    if inv: "slice_inv ?h ?s" and idx: "index < length' ?s"
  proof -
    from inv have "string_view ?h ?s
        = Some (take (length' ?s) (drop (offset ?s) (?h ! storage ?s)))"
      by (simp add: slice_inv_def string_view_def window_def block_of_def)
    moreover have "size_t index < Suc (length' ?s)"
      using idx size_t_le[of index] by simp
    ultimately show ?thesis
      using shared inv assms(1)
      by (auto simp: char_proxy_assign_def copy_obj_def copy_def block_of_def
          slice_inv_def Let_def min_def)
  qed
  have frame: "objs st' ! j = objs st ! j \<and> view_obj st' j = view_obj st j
      \<and> (\<forall>k. read_obj st' j k = read_obj st j k)"
    if "char_proxy_assign st i index c = Some st'" for st'
  proof -
    from that shared obtain w b where
      st': "st' = \<lparr>blocks = (?h @ [w @ [NUL]])[length ?h := b], objs = (objs st)[i := ?s\<lparr>storage := length ?h, offset := 0\<rparr>]\<rparr>"
      using assms(1)
      by (auto simp: char_proxy_assign_def copy_obj_def copy_def Let_def
          split: option.splits if_splits)
    have o: "objs st' ! j = objs st ! j" using assms(3) by (simp add: st')
    have b: "block_of (blocks st') (objs st ! j) = block_of ?h (objs st ! j)"
      using assms(5) by (simp add: st' block_of_alloc)
    show ?thesis
      using o b by (simp add: view_obj_def read_obj_def string_view_def window_def char_at_def)
  qed
  from defined frame show ?thesis by blast
qed

theorem cow_isolation_witness:
  "(0 :: nat) < length (objs hello_shared) \<and> 1 < length (objs hello_shared)
   \<and> storage (objs hello_shared ! 1) = storage (objs hello_shared ! 0)
   \<and> storage (objs hello_shared ! 0) < length (blocks hello_shared)
   \<and> slice_inv (blocks hello_shared) (objs hello_shared ! 1)
   \<and> 7 < length' (objs hello_shared ! 1)
   \<and> (\<exists>st'. char_proxy_assign hello_shared 1 7 CHR ''C'' = Some st'
        \<and> view_obj st' 0 = Some ''Hello, World!''
        \<and> view_obj st' 1 = Some ''Hello, Corld!'')"
proof -
  have e: "hello_shared = \<lparr>blocks = [''Hello, World!'' @ [NUL]],
      objs = [\<lparr>storage = 0, offset = 0, length' = 13\<rparr>, \<lparr>storage = 0, offset = 0, length' = 13\<rparr>]\<rparr>"
    by (simp add: hello_shared_def copy_construct_def construct_def cow_string_new_def)
  have pre: "(1::nat) < length (objs hello_shared)" "(0::nat) < length (objs hello_shared)" "(1::nat) \<noteq> 0"
    "storage (objs hello_shared ! 1) = storage (objs hello_shared ! 0)"
    "storage (objs hello_shared ! 0) < length (blocks hello_shared)"
    by (simp_all add: e)
  have inv: "slice_inv (blocks hello_shared) (objs hello_shared ! 1)" "7 < length' (objs hello_shared ! 1)"
    by (simp_all add: e slice_inv_def)
  have v0: "view_obj hello_shared 0 = Some ''Hello, World!''"
    by (simp add: e view_obj_def string_view_def window_def block_of_def)
  from cow_isolation[OF pre, of 7 "CHR ''C''"] inv
  obtain st' where a: "char_proxy_assign hello_shared 1 7 CHR ''C'' = Some st'"
    and f: "view_obj st' 0 = view_obj hello_shared 0" by auto
  have "view_obj st' 1 = Some ''Hello, Corld!''"
    using a by (auto simp: e char_proxy_assign_def use_count_def copy_obj_def copy_def
      string_view_def window_def block_of_def view_obj_def size_t_def Let_def)
  then show ?thesis using pre inv a f v0 by simp
qed

section \<open>Running the reader\<close>

lemma parse_value_unfold:
  "0 < n \<Longrightarrow> parse_value n h rd =
     (case skip_whitespace h rd of
        Inl e \<Rightarrow> Inl e
      | Inr rd1 \<Rightarrow>
          if pos rd1 \<ge> length' (src rd1) then Inl Unexpected_end
          else (case char_at h (src rd1) (pos rd1) of
                  None \<Rightarrow> Inl Undefined_behaviour
                | Some c \<Rightarrow>
                    if c = CHR ''n'' then parse_null h rd1
                    else if c = CHR ''t'' then parse_true h rd1
                    else if c = CHR ''f'' then parse_false h rd1
                    else if c = CHR 0x22 then parse_string h rd1
                    else if c = CHR ''['' then parse_array (n - 1) h rd1
                    else if c = CHR ''{'' then parse_object (n - 1) h rd1
                    else parse_number h rd1))"
  by (cases n) (simp_all cong: option.case_cong sum.case_cong if_cong)

lemma parse_array_loop_unfold:
  "0 < n \<Longrightarrow> parse_array_loop n h rd arr =
     (case at_pos h rd (\<lambda>c. c \<noteq> CHR '']'') of
        None \<Rightarrow> Inl Undefined_behaviour
      | Some False \<Rightarrow> Inr (Array arr, rd\<lparr>pos := pos rd + 1\<rparr>)
      | Some True \<Rightarrow>
          (case parse_value (n - 1) h rd of
             Inl e \<Rightarrow> Inl e
           | Inr (v, rd1) \<Rightarrow>
               (case optional_comma h rd1 of
                  None \<Rightarrow> Inl Undefined_behaviour
                | Some rd2 \<Rightarrow>
                    (case skip_whitespace h rd2 of
                       Inl e \<Rightarrow> Inl e
                     | Inr rd3 \<Rightarrow> parse_array_loop (n - 1) h rd3 (arr @ [v])))))"
  by (cases n)
     (simp_all cong: option.case_cong sum.case_cong if_cong prod.case_cong bool.case_cong)

lemma parse_object_loop_unfold:
  "0 < n \<Longrightarrow> parse_object_loop n h rd obj =
     (case at_pos h rd (\<lambda>c. c \<noteq> CHR ''}'') of
        None \<Rightarrow> Inl Undefined_behaviour
      | Some False \<Rightarrow> Inr (Object obj, rd\<lparr>pos := pos rd + 1\<rparr>)
      | Some True \<Rightarrow>
          (case parse_value (n - 1) h rd of
             Inl e \<Rightarrow> Inl e
           | Inr (String key, rd1) \<Rightarrow>
               (case at_pos h rd1 (\<lambda>c. c = CHR '':'') of
                  None \<Rightarrow> Inl Undefined_behaviour
                | Some False \<Rightarrow> Inl (expected_colon h rd1)
                | Some True \<Rightarrow>
                    (case parse_value (n - 1) h (rd1\<lparr>pos := pos rd1 + 1\<rparr>) of
                       Inl e \<Rightarrow> Inl e
                     | Inr (v, rd2) \<Rightarrow>
                         (case optional_comma h rd2 of
                            None \<Rightarrow> Inl Undefined_behaviour
                          | Some rd3 \<Rightarrow>
                              (case skip_whitespace h rd3 of
                                 Inl e \<Rightarrow> Inl e
                               | Inr rd4 \<Rightarrow>
                                   (case obj_assign h key v obj of
                                      None \<Rightarrow> Inl Undefined_behaviour
                                    | Some obj' \<Rightarrow> parse_object_loop (n - 1) h rd4 obj')))))
           | Inr (_, rd1) \<Rightarrow> Inl (Key_must_be_string (pos rd1))))"
  by (cases n)
     (simp_all cong: option.case_cong sum.case_cong if_cong prod.case_cong
        Value.case_cong bool.case_cong)

lemmas run_simps =
  parse_text_def parse_def json_reader_new_def cow_string_new_def
  parse_value_unfold parse_array_loop_unfold parse_object_loop_unfold
  skip_whitespace.simps find_from.simps scan_number.simps
  at_pos_def char_at_def block_of_def size_t_def window_def string_view_def
  cow_eq_def cow_find_def cow_less_def lookahead_def substr_def npos_def NUL_def
  parse_null_def parse_true_def parse_false_def parse_string_def parse_number_def
  illegal_token_def invalid_token_def expected_colon_def optional_comma_def
  is_float_def from_chars_int_def from_chars_double_def double_range_def
  isspace_def isdigit_def number_char_def digit_val_def dec_def Let_def

section \<open>A reader over a text\<close>

lemma size_t_id: "n < 2 ^ 64 \<Longrightarrow> size_t n = n"
  by (simp add: size_t_def)

lemma char_at_text:
  assumes "reads_text h s txt" and "i \<le> length txt"
  shows "char_at h s i = Some ((txt @ [NUL]) ! i)"
proof -
  have "i < 2 ^ 64" using assms by (simp add: reads_text_def npos_def)
  then show ?thesis
    using assms by (simp add: char_at_def block_of_def reads_text_def size_t_id)
qed

lemma char_at_text_in:
  "reads_text h s txt \<Longrightarrow> i < length txt \<Longrightarrow> char_at h s i = Some (txt ! i)"
  by (simp add: char_at_text nth_append)

lemma at_pos_text:
  "reads_text h (src rd) txt \<Longrightarrow>
   at_pos h rd P = Some (pos rd < length txt \<and> P (txt ! pos rd))"
  by (auto simp: at_pos_def char_at_text_in reads_text_def)

lemma skip_whitespace_src_pos:
  "skip_whitespace h rd = Inr rd' \<Longrightarrow> src rd' = src rd \<and> pos rd \<le> pos rd'"
proof (induction h rd rule: skip_whitespace.induct)
  case (1 h rd)
  show ?case
  proof (cases "at_pos h rd isspace")
    case None
    with "1.prems" show ?thesis by (simp add: skip_whitespace.simps[of h rd])
  next
    case (Some b)
    show ?thesis
    proof (cases b)
      case False
      with Some "1.prems" show ?thesis by (simp add: skip_whitespace.simps[of h rd])
    next
      case True
      then obtain nl where nl: "at_pos h rd (\<lambda>c. c = CHR 0x0A) = Some nl"
        using Some "1.prems" by (auto simp: skip_whitespace.simps[of h rd] split: option.splits)
      have bT: "b = True" using True by simp
      from "1.IH"[OF Some bT nl] "1.prems" Some True nl
      show ?thesis by (simp add: skip_whitespace.simps[of h rd])
    qed
  qed
qed

lemma skip_whitespace_text:
  assumes "reads_text h (src rd) txt"
  shows "\<exists>rd'. skip_whitespace h rd = Inr rd' \<and> src rd' = src rd
           \<and> pos rd' = pos rd + length (takeWhile isspace (drop (pos rd) txt))"
  using assms
proof (induction h rd rule: skip_whitespace.induct)
  case (1 h rd)
  note rt = "1.prems"
  show ?case
  proof (cases "pos rd < length txt \<and> isspace (txt ! pos rd)")
    case False
    then have "takeWhile isspace (drop (pos rd) txt) = []"
      by (cases "pos rd < length txt") (simp_all add: Cons_nth_drop_Suc[symmetric])
    moreover have "at_pos h rd isspace = Some False"
      using False rt by (simp add: at_pos_text)
    ultimately show ?thesis
      by (simp add: skip_whitespace.simps[of h rd])
  next
    case True
    let ?nl = "txt ! pos rd = CHR 0x0A"
    let ?rd = "rd\<lparr>row := (if ?nl then row rd + 1 else row rd),
                     column := (if ?nl then 0 else column rd) + 1, pos := pos rd + 1\<rparr>"
    have a: "at_pos h rd isspace = Some True" using True rt by (simp add: at_pos_text)
    have b: "at_pos h rd (\<lambda>c. c = CHR 0x0A) = Some ?nl" using True rt by (simp add: at_pos_text)
    have "reads_text h (src ?rd) txt" using rt by simp
    from "1.IH"[OF a refl b this] obtain rd' where
      r: "skip_whitespace h ?rd = Inr rd'" "src rd' = src rd"
         "pos rd' = pos rd + 1 + length (takeWhile isspace (drop (pos rd + 1) txt))"
      by auto
    have "drop (pos rd) txt = txt ! pos rd # drop (pos rd + 1) txt"
      using True by (simp add: Cons_nth_drop_Suc)
    then have "length (takeWhile isspace (drop (pos rd) txt))
        = 1 + length (takeWhile isspace (drop (pos rd + 1) txt))"
      using True by simp
    with r a b show ?thesis by (simp add: skip_whitespace.simps[of h rd])
  qed
qed

lemma skip_whitespace_stay:
  "reads_text h (src rd) txt \<Longrightarrow> pos rd < length txt \<longrightarrow> \<not> isspace (txt ! pos rd) \<Longrightarrow>
   skip_whitespace h rd = Inr rd"
proof -
  assume "reads_text h (src rd) txt" and "pos rd < length txt \<longrightarrow> \<not> isspace (txt ! pos rd)"
  then have "at_pos h rd isspace = Some False" by (simp add: at_pos_text)
  then show ?thesis by (simp add: skip_whitespace.simps[of h rd])
qed

section \<open>Slices and their views\<close>

lemma string_view_length:
  "string_view h s = Some w \<Longrightarrow> length w = length' s"
  by (auto simp: string_view_def window_def Let_def split: if_splits)

lemma char_at_view:
  assumes "string_view h s = Some w" and "offset s + length' s \<le> 2 ^ 64" and "i < length' s"
  shows "char_at h s i = Some (w ! i)"
proof -
  let ?b = "block_of h s"
  from assms(1) have b: "offset s + length' s \<le> length ?b"
    and w: "w = take (length' s) (drop (offset s) ?b)"
    by (auto simp: string_view_def window_def Let_def split: if_splits)
  have "offset s + i < 2 ^ 64" using assms(2,3) by simp
  then have "size_t (offset s + i) = offset s + i" by (rule size_t_id)
  moreover have "offset s + i < length ?b" using b assms(3) by simp
  ultimately show ?thesis using assms(3) by (simp add: char_at_def w)
qed

lemma find_from_view:
  "string_view h s = Some w \<Longrightarrow> offset s + length' s \<le> 2 ^ 64 \<Longrightarrow> i \<le> length' s \<Longrightarrow>
   find_from h s c i =
     Some (if c \<in> set (drop i w) then i + length (takeWhile (\<lambda>x. x \<noteq> c) (drop i w)) else npos)"
proof (induction h s c i rule: find_from.induct)
  case (1 h s c i)
  note assms = "1.prems"(1,2)
  have len: "length w = length' s" using assms(1) by (rule string_view_length)
  show ?case
  proof (cases "i < length' s")
    case False
    then have "find_from h s c i = Some npos" by (simp add: find_from.simps[of h s c i])
    moreover have "drop i w = []" using False len by simp
    ultimately show ?thesis by simp
  next
    case True
    have at: "char_at h s i = Some (w ! i)" using assms True by (rule char_at_view)
    have d: "drop i w = w ! i # drop (Suc i) w" using True len by (simp add: Cons_nth_drop_Suc)
    show ?thesis
    proof (cases "w ! i = c")
      case True
      with at d \<open>i < length' s\<close> show ?thesis by (simp add: find_from.simps[of h s c i])
    next
      case False
      from "1.IH"[OF True at False assms] True
      have "find_from h s c (Suc i) = Some (if c \<in> set (drop (Suc i) w)
          then Suc i + length (takeWhile (\<lambda>x. x \<noteq> c) (drop (Suc i) w)) else npos)" by simp
      with at d False True show ?thesis by (simp add: find_from.simps[of h s c i])
    qed
  qed
qed

lemma find_from_bounds:
  "find_from h s c i = Some e \<Longrightarrow> e \<noteq> npos \<Longrightarrow> i \<le> e \<and> e < length' s"
proof (induction h s c i rule: find_from.induct)
  case (1 h s c i)
  show ?case
  proof (cases "i < length' s")
    case False
    with "1.prems" show ?thesis by (simp add: find_from.simps[of h s c i])
  next
    case True
    then obtain b where b: "char_at h s i = Some b"
      using "1.prems" by (auto simp: find_from.simps[of h s c i] split: option.splits)
    show ?thesis
    proof (cases "b = c")
      case True
      with b \<open>i < length' s\<close> "1.prems" show ?thesis by (simp add: find_from.simps[of h s c i])
    next
      case False
      with b True "1.prems" have "find_from h s c (Suc i) = Some e"
        by (simp add: find_from.simps[of h s c i])
      from "1.IH"[OF True b False this "1.prems"(2)] show ?thesis by simp
    qed
  qed
qed

lemma scan_number_le: "scan_number h s p = Some e \<Longrightarrow> p \<le> e"
proof (induction h s p rule: scan_number.induct)
  case (1 h s p)
  show ?case
  proof (cases "p < length' s")
    case False
    with "1.prems" show ?thesis by (simp add: scan_number.simps[of h s p])
  next
    case True
    then obtain c where c: "char_at h s p = Some c"
      using "1.prems" by (auto simp: scan_number.simps[of h s p] split: option.splits)
    show ?thesis
    proof (cases "number_char c")
      case False
      with c True "1.prems" show ?thesis by (simp add: scan_number.simps[of h s p])
    next
      case nc: True
      with c True "1.prems" have "scan_number h s (Suc p) = Some e"
        by (simp add: scan_number.simps[of h s p])
      from "1.IH"[OF True c nc this] show ?thesis by simp
    qed
  qed
qed

lemma scan_number_view:
  "string_view h s = Some w \<Longrightarrow> offset s + length' s \<le> 2 ^ 64 \<Longrightarrow> p \<le> length' s \<Longrightarrow>
     scan_number h s p = Some (p + length (takeWhile number_char (drop p w)))"
proof (induction h s p rule: scan_number.induct)
  case (1 h s p)
  note assms = "1.prems"(1,2)
  have len: "length w = length' s" using assms(1) by (rule string_view_length)
  show ?case
  proof (cases "p < length' s")
    case False
    then have "scan_number h s p = Some p" by (simp add: scan_number.simps[of h s p])
    moreover have "drop p w = []" using False len by simp
    ultimately show ?thesis by simp
  next
    case True
    have at: "char_at h s p = Some (w ! p)" using assms True by (rule char_at_view)
    have d: "drop p w = w ! p # drop (Suc p) w" using True len by (simp add: Cons_nth_drop_Suc)
    show ?thesis
    proof (cases "number_char (w ! p)")
      case False
      with at d True show ?thesis by (simp add: scan_number.simps[of h s p])
    next
      case nc: True
      from "1.IH"[OF True at nc assms] True
      have "scan_number h s (Suc p) = Some (Suc p + length (takeWhile number_char (drop (Suc p) w)))"
        by simp
      with at d nc True show ?thesis by (simp add: scan_number.simps[of h s p])
    qed
  qed
qed

lemma reads_text_view: "reads_text h s txt \<Longrightarrow> string_view h s = Some txt"
  by (simp add: reads_text_def string_view_def window_def block_of_def)

lemma reads_text_fits: "reads_text h s txt \<Longrightarrow> offset s + length' s \<le> 2 ^ 64"
  by (simp add: reads_text_def npos_def)

lemma substr_view:
  assumes "reads_text h s txt" and "p + n \<le> length txt"
  shows "string_view h (substr s p n) = Some (take n (drop p txt))"
    and "offset (substr s p n) + length' (substr s p n) \<le> 2 ^ 64"
    and "offset (substr s p n) = p" and "length' (substr s p n) = n"
    and "storage (substr s p n) = storage s"
proof -
  have "p < 2 ^ 64" using assms by (simp add: reads_text_def npos_def)
  then have o: "offset (substr s p n) = p"
    using assms(1) by (simp add: substr_def reads_text_def size_t_id)
  show "offset (substr s p n) = p" by (rule o)
  show "length' (substr s p n) = n" by (simp add: substr_def)
  show "storage (substr s p n) = storage s" by (simp add: substr_def)
  show "offset (substr s p n) + length' (substr s p n) \<le> 2 ^ 64"
    using o assms by (simp add: substr_def reads_text_def npos_def)
  have "block_of h (substr s p n) = txt @ [NUL]"
    using assms(1) by (simp add: block_of_def substr_def reads_text_def)
  then show "string_view h (substr s p n) = Some (take n (drop p txt))"
    using o assms(2) by (simp add: string_view_def window_def substr_def)
qed

section \<open>The token parsers over a text\<close>

lemma take_length_takeWhile: "take (length (takeWhile P xs)) xs = takeWhile P xs"
  by (induction xs) auto

lemma length_takeWhile_less_mem:
  "c \<in> set xs \<Longrightarrow> length (takeWhile (\<lambda>x. x \<noteq> c) xs) < length xs"
  by (induction xs) auto

lemma nth_length_takeWhile_mem:
  "c \<in> set xs \<Longrightarrow> xs ! length (takeWhile (\<lambda>x. x \<noteq> c) xs) = c"
  by (induction xs) auto

lemma parse_literal_text:
  assumes "reads_text h (src rd) txt" and "take n (drop (pos rd) txt) = lit"
    and "length lit = n" and "0 < n"
  shows "cow_eq h (lookahead rd n) lit = Some True"
proof -
  have "length (take n (drop (pos rd) txt)) = n" using assms(2,3) by simp
  then have "pos rd + n \<le> length txt"
    using assms(4) by (cases "pos rd < length txt") (auto simp: min_def split: if_splits)
  from substr_view(1,4)[OF assms(1) this] assms(2,3) show ?thesis
    by (simp add: cow_eq_def lookahead_def string_view_def)
qed

lemma parse_null_text:
  "reads_text h (src rd) txt \<Longrightarrow> take 4 (drop (pos rd) txt) = ''null'' \<Longrightarrow>
   parse_null h rd = Inr (Null, rd\<lparr>pos := pos rd + 4\<rparr>)"
  using parse_literal_text[of h rd "txt" 4 "''null''"] by (simp add: parse_null_def)

lemma parse_true_text:
  "reads_text h (src rd) txt \<Longrightarrow> take 4 (drop (pos rd) txt) = ''true'' \<Longrightarrow>
   parse_true h rd = Inr (Bool True, rd\<lparr>pos := pos rd + 4\<rparr>)"
  using parse_literal_text[of h rd "txt" 4 "''true''"] by (simp add: parse_true_def)

lemma parse_false_text:
  "reads_text h (src rd) txt \<Longrightarrow> take 5 (drop (pos rd) txt) = ''false'' \<Longrightarrow>
   parse_false h rd = Inr (Bool False, rd\<lparr>pos := pos rd + 5\<rparr>)"
  using parse_literal_text[of h rd "txt" 5 "''false''"] by (simp add: parse_false_def)

lemma parse_string_text:
  assumes rt: "reads_text h (src rd) txt" and p: "pos rd < length txt"
    and q: "CHR 0x22 \<in> set (drop (pos rd + 1) txt)"
  shows "parse_string h rd =
     Inr (String (substr (src rd) (pos rd + 1)
                    (length (takeWhile (\<lambda>x. x \<noteq> CHR 0x22) (drop (pos rd + 1) txt)))),
          rd\<lparr>pos := pos rd + 1 + length (takeWhile (\<lambda>x. x \<noteq> CHR 0x22) (drop (pos rd + 1) txt)) + 1\<rparr>)"
proof -
  let ?p = "pos rd + 1"
  let ?n = "length (takeWhile (\<lambda>x. x \<noteq> CHR 0x22) (drop ?p txt))"
  have len: "length' (src rd) = length txt" using rt by (simp add: reads_text_def)
  have f: "cow_find h (src rd) CHR 0x22 ?p = Some (?p + ?n)"
    using find_from_view[OF reads_text_view[OF rt] reads_text_fits[OF rt], of ?p "CHR 0x22"] p q len
    by (simp add: cow_find_def)
  have "?n < length (drop ?p txt)" using q by (rule length_takeWhile_less_mem)
  then have "?p + ?n < length txt" by simp
  moreover have "length txt < npos" using rt by (simp add: reads_text_def)
  ultimately have "?p + ?n \<noteq> npos" by simp
  with f show ?thesis by (simp add: parse_string_def Let_def)
qed

lemma parse_string_unterminated:
  assumes rt: "reads_text h (src rd) txt" and p: "pos rd < length txt"
    and q: "CHR 0x22 \<notin> set (drop (pos rd + 1) txt)"
  shows "parse_string h rd = Inl (Expected_quote (pos rd + 1) ((txt @ [NUL]) ! (pos rd + 1)))"
proof -
  have len: "length' (src rd) = length txt" using rt by (simp add: reads_text_def)
  have f: "cow_find h (src rd) CHR 0x22 (pos rd + 1) = Some npos"
    using find_from_view[OF reads_text_view[OF rt] reads_text_fits[OF rt], of "pos rd + 1" "CHR 0x22"] p q len
    by (simp add: cow_find_def)
  have "char_at h (src rd) (pos rd + 1) = Some ((txt @ [NUL]) ! (pos rd + 1))"
    using rt p by (intro char_at_text) auto
  with f show ?thesis by (simp add: parse_string_def Let_def)
qed

text \<open>The token of \<open>parse_number\<close>: the longest run of number characters at the cursor.\<close>

lemma parse_number_text:
  assumes rt: "reads_text h (src rd) txt" and p: "pos rd \<le> length txt"
    and tok: "tok = takeWhile number_char (drop (pos rd) txt)"
  shows "parse_number h rd =
     (case (if CHR ''.'' \<in> set tok \<or> CHR ''e'' \<in> set tok
            then map_option Float (from_chars_double tok)
            else map_option Integer (from_chars_int tok)) of
        Some v \<Rightarrow> Inr (v, rd\<lparr>pos := pos rd + length tok\<rparr>)
      | None \<Rightarrow> Inl (Invalid_token ((txt @ [NUL]) ! (pos rd + length tok)) (row rd) (column rd)))"
proof -
  let ?e = "pos rd + length tok"
  let ?num = "substr (src rd) (pos rd) (length tok)"
  have len: "length' (src rd) = length txt" using rt by (simp add: reads_text_def)
  have sc: "scan_number h (src rd) (pos rd) = Some ?e"
    using scan_number_view[OF reads_text_view[OF rt] reads_text_fits[OF rt], of "pos rd"] p len tok
    by simp
  have "length tok \<le> length (drop (pos rd) txt)" unfolding tok by (rule length_takeWhile_le)
  then have e: "?e \<le> length txt" using p by simp
  have v: "string_view h ?num = Some tok"
    using substr_view(1)[OF rt e] by (simp add: tok take_length_takeWhile)
  note fits = substr_view(2)[OF rt e]
  have ln: "length' ?num = length tok" by (simp add: substr_def)
  have np: "length tok < npos" using e rt by (simp add: reads_text_def)
  have fnd: "cow_find h ?num c 0 =
      Some (if c \<in> set tok then length (takeWhile (\<lambda>x. x \<noteq> c) tok) else npos)" for c
    using find_from_view[OF v fits, of 0 c] by (simp add: cow_find_def)
  have ne: "c \<in> set tok \<Longrightarrow> length (takeWhile (\<lambda>x. x \<noteq> c) tok) \<noteq> npos" for c
    using length_takeWhile_le[of "\<lambda>x. x \<noteq> c" tok] np by simp
  have fl: "is_float h ?num = Some (CHR ''.'' \<in> set tok \<or> CHR ''e'' \<in> set tok)"
    using ne by (simp add: is_float_def fnd)
  have at: "char_at h (src rd) ?e = Some ((txt @ [NUL]) ! ?e)"
    using rt e by (rule char_at_text)
  show ?thesis
    using sc v fl at
    by (simp add: parse_number_def invalid_token_def Let_def split: option.splits)
qed

section \<open>The cursor moves forward\<close>

lemma parse_null_progress:
  "parse_null h rd = Inr (v, rd') \<Longrightarrow> src rd' = src rd \<and> pos rd < pos rd'"
  by (auto simp: parse_null_def split: option.splits bool.splits)

lemma parse_true_progress:
  "parse_true h rd = Inr (v, rd') \<Longrightarrow> src rd' = src rd \<and> pos rd < pos rd'"
  by (auto simp: parse_true_def split: option.splits bool.splits)

lemma parse_false_progress:
  "parse_false h rd = Inr (v, rd') \<Longrightarrow> src rd' = src rd \<and> pos rd < pos rd'"
  by (auto simp: parse_false_def split: option.splits bool.splits)

lemma parse_string_progress:
  assumes "parse_string h rd = Inr (v, rd')"
  shows "src rd' = src rd \<and> pos rd < pos rd'"
proof -
  from assms obtain e where e: "find_from h (src rd) CHR 0x22 (pos rd + 1) = Some e" "e \<noteq> npos"
    and rd': "rd' = rd\<lparr>pos := e + 1\<rparr>"
    by (auto simp: parse_string_def cow_find_def Let_def split: option.splits if_splits)
  from find_from_bounds[OF e] rd' show ?thesis by simp
qed

lemma from_chars_int_Nil: "from_chars_int [] = None"
  by (simp add: from_chars_int_def)

lemma parse_number_progress:
  assumes "parse_number h rd = Inr (v, rd')"
  shows "src rd' = src rd \<and> pos rd < pos rd'"
proof -
  from assms obtain e where e: "scan_number h (src rd) (pos rd) = Some e"
    by (auto simp: parse_number_def split: option.splits)
  let ?num = "substr (src rd) (pos rd) (e - pos rd)"
  from assms e obtain fl tok where fl: "is_float h ?num = Some fl"
    and tok: "string_view h ?num = Some tok" and rd': "rd' = rd\<lparr>pos := e\<rparr>"
    and conv: "(if fl then map_option Float (from_chars_double tok)
                else map_option Integer (from_chars_int tok)) = Some v"
    by (auto simp: parse_number_def Let_def split: option.splits)
  have le: "pos rd \<le> e" using e by (rule scan_number_le)
  have "e \<noteq> pos rd"
  proof
    assume eq: "e = pos rd"
    then have "length' ?num = 0" by (simp add: substr_def)
    then have "tok = []" using string_view_length[OF tok] by simp
    moreover have "is_float h ?num = Some False"
      using \<open>length' ?num = 0\<close>
      by (simp add: is_float_def cow_find_def find_from.simps[of h ?num _ 0])
    ultimately show False using fl conv by (simp add: from_chars_int_Nil)
  qed
  with le rd' show ?thesis by simp
qed

section \<open>Every successful call moves the cursor\<close>

lemma optional_comma_progress:
  "optional_comma h rd = Some rd' \<Longrightarrow> src rd' = src rd \<and> pos rd \<le> pos rd'"
  by (auto simp: optional_comma_def split: option.splits bool.splits)

lemma progress_trans_le:
  "src rd1 = src rd \<Longrightarrow> pos rd \<le> pos rd1 \<Longrightarrow> progress rd1 rd' \<Longrightarrow> progress rd rd'"
  "progress rd rd1 \<Longrightarrow> src rd' = src rd1 \<Longrightarrow> pos rd1 \<le> pos rd' \<Longrightarrow> progress rd rd'"
  by (auto simp: progress_def)

lemma parse_array_loop_step:
  assumes v0: "\<forall>rd v rd'. parse_value n h rd = Inr (v, rd') \<longrightarrow> progress rd rd'"
    and l0: "\<forall>rd arr v rd'. parse_array_loop n h rd arr = Inr (v, rd') \<longrightarrow> progress rd rd'"
    and r: "parse_array_loop (Suc n) h rd arr = Inr (w, rd')"
  shows "progress rd rd'"
proof (cases "at_pos h rd (\<lambda>c. c \<noteq> CHR '']'')")
  case None
  with r show ?thesis by simp
next
  case (Some b)
  show ?thesis
  proof (cases b)
    case False
    with Some r show ?thesis by (auto simp: progress_def)
  next
    case True
    with Some r obtain x rd1 rd2 rd3 where
      a: "parse_value n h rd = Inr (x, rd1)" and b: "optional_comma h rd1 = Some rd2"
      and c: "skip_whitespace h rd2 = Inr rd3"
      and d: "parse_array_loop n h rd3 (arr @ [x]) = Inr (w, rd')"
      by (auto split: sum.splits option.splits)
    from v0[rule_format, OF a] optional_comma_progress[OF b] skip_whitespace_src_pos[OF c] l0[rule_format, OF d]
    show ?thesis by (auto simp: progress_def)
  qed
qed

lemma parse_object_loop_step:
  assumes v0: "\<forall>rd v rd'. parse_value n h rd = Inr (v, rd') \<longrightarrow> progress rd rd'"
    and l0: "\<forall>rd obj v rd'. parse_object_loop n h rd obj = Inr (v, rd') \<longrightarrow> progress rd rd'"
    and r: "parse_object_loop (Suc n) h rd obj = Inr (w, rd')"
  shows "progress rd rd'"
proof (cases "at_pos h rd (\<lambda>c. c \<noteq> CHR ''}'')")
  case None
  with r show ?thesis by simp
next
  case (Some b)
  show ?thesis
  proof (cases b)
    case False
    with Some r show ?thesis by (auto simp: progress_def)
  next
    case True
    with Some r obtain k rd1 x rd2 rd3 rd4 obj' where
      a: "parse_value n h rd = Inr (String k, rd1)"
      and a2: "parse_value n h (rd1\<lparr>pos := pos rd1 + 1\<rparr>) = Inr (x, rd2)"
      and b: "optional_comma h rd2 = Some rd3"
      and c: "skip_whitespace h rd3 = Inr rd4"
      and d: "parse_object_loop n h rd4 obj' = Inr (w, rd')"
      by (auto split: sum.splits option.splits Value.splits bool.splits)
    from v0[rule_format, OF a] v0[rule_format, OF a2] optional_comma_progress[OF b] skip_whitespace_src_pos[OF c] l0[rule_format, OF d]
    show ?thesis by (auto simp: progress_def)
  qed
qed

lemma parse_value_step:
  assumes l0: "\<forall>rd arr v rd'. parse_array_loop n h rd arr = Inr (v, rd') \<longrightarrow> progress rd rd'"
    and o0: "\<forall>rd obj v rd'. parse_object_loop n h rd obj = Inr (v, rd') \<longrightarrow> progress rd rd'"
    and r: "parse_value (Suc n) h rd = Inr (w, rd')"
  shows "progress rd rd'"
proof -
  from r obtain rd1 c where s: "skip_whitespace h rd = Inr rd1"
    and c: "char_at h (src rd1) (pos rd1) = Some c"
    and d: "(if c = CHR ''n'' then parse_null h rd1
             else if c = CHR ''t'' then parse_true h rd1
             else if c = CHR ''f'' then parse_false h rd1
             else if c = CHR 0x22 then parse_string h rd1
             else if c = CHR ''['' then parse_array n h rd1
             else if c = CHR ''{'' then parse_object n h rd1
             else parse_number h rd1) = Inr (w, rd')"
    by (auto split: sum.splits option.splits if_splits)
  have arr: "progress rd1 rd'" if "parse_array n h rd1 = Inr (w, rd')"
  proof -
    from that obtain rd2 where a: "skip_whitespace h (rd1\<lparr>pos := pos rd1 + 1\<rparr>) = Inr rd2"
      and b: "parse_array_loop n h rd2 [] = Inr (w, rd')"
      by (auto split: sum.splits)
    from skip_whitespace_src_pos[OF a] l0[rule_format, OF b] show ?thesis by (auto simp: progress_def)
  qed
  have obj: "progress rd1 rd'" if "parse_object n h rd1 = Inr (w, rd')"
  proof -
    from that obtain rd2 where a: "skip_whitespace h (rd1\<lparr>pos := pos rd1 + 1\<rparr>) = Inr rd2"
      and b: "parse_object_loop n h rd2 [] = Inr (w, rd')"
      by (auto split: sum.splits)
    from skip_whitespace_src_pos[OF a] o0[rule_format, OF b] show ?thesis by (auto simp: progress_def)
  qed
  have "progress rd1 rd'"
    using d arr obj parse_null_progress[of h rd1 w rd'] parse_true_progress[of h rd1 w rd']
      parse_false_progress[of h rd1 w rd'] parse_string_progress[of h rd1 w rd']
      parse_number_progress[of h rd1 w rd']
    by (auto simp: progress_def split: if_splits)
  with skip_whitespace_src_pos[OF s] show ?thesis by (auto simp: progress_def)
qed

lemma parse_progress_all:
  "(\<forall>rd v rd'. parse_value n h rd = Inr (v, rd') \<longrightarrow> progress rd rd') \<and>
   (\<forall>rd arr v rd'. parse_array_loop n h rd arr = Inr (v, rd') \<longrightarrow> progress rd rd') \<and>
   (\<forall>rd obj v rd'. parse_object_loop n h rd obj = Inr (v, rd') \<longrightarrow> progress rd rd')"
proof (induction n)
  case 0
  show ?case by simp
next
  case (Suc n)
  then have v: "\<forall>rd v rd'. parse_value n h rd = Inr (v, rd') \<longrightarrow> progress rd rd'"
    and l: "\<forall>rd arr v rd'. parse_array_loop n h rd arr = Inr (v, rd') \<longrightarrow> progress rd rd'"
    and o: "\<forall>rd obj v rd'. parse_object_loop n h rd obj = Inr (v, rd') \<longrightarrow> progress rd rd'"
    by simp_all
  show ?case
    using parse_value_step[OF l o] parse_array_loop_step[OF v l] parse_object_loop_step[OF v o]
    by blast
qed

lemma parse_value_progress:
  "parse_value n h rd = Inr (v, rd') \<Longrightarrow> src rd' = src rd \<and> pos rd < pos rd'"
  using parse_progress_all[of n h] by (auto simp: progress_def)

section \<open>The fuel of \<open>parse\<close> is enough\<close>

lemma skip_whitespace_fuel: "skip_whitespace h rd \<noteq> Inl Out_of_fuel"
proof (induction h rd rule: skip_whitespace.induct)
  case (1 h rd)
  show ?case
  proof (cases "at_pos h rd isspace")
    case None
    then show ?thesis by (simp add: skip_whitespace.simps[of h rd])
  next
    case (Some b)
    show ?thesis
    proof (cases b)
      case False
      with Some show ?thesis by (simp add: skip_whitespace.simps[of h rd])
    next
      case True
      then have bT: "b = True" by simp
      show ?thesis
      proof (cases "at_pos h rd (\<lambda>c. c = CHR 0x0A)")
        case None
        with Some True show ?thesis by (simp add: skip_whitespace.simps[of h rd])
      next
        case nl: (Some nl)
        from "1.IH"[OF Some bT nl] Some True nl show ?thesis
          by (simp add: skip_whitespace.simps[of h rd])
      qed
    qed
  qed
qed

lemma token_parsers_fuel:
  "parse_null h rd \<noteq> Inl Out_of_fuel" "parse_true h rd \<noteq> Inl Out_of_fuel"
  "parse_false h rd \<noteq> Inl Out_of_fuel" "parse_string h rd \<noteq> Inl Out_of_fuel"
  "parse_number h rd \<noteq> Inl Out_of_fuel"
  by (auto simp: parse_null_def parse_true_def parse_false_def parse_string_def
      parse_number_def illegal_token_def invalid_token_def Let_def
      split: option.splits bool.splits if_splits)

lemma at_pos_True: "at_pos h rd P = Some True \<Longrightarrow> pos rd < length' (src rd)"
  by (auto simp: at_pos_def split: if_splits)

lemma remaining_le: "src rd' = src rd \<Longrightarrow> pos rd \<le> pos rd' \<Longrightarrow> remaining rd' \<le> remaining rd"
  by (simp add: remaining_def)

lemma remaining_less:
  "src rd' = src rd \<Longrightarrow> pos rd < pos rd' \<Longrightarrow> pos rd < length' (src rd) \<Longrightarrow>
   remaining rd' < remaining rd"
  by (simp add: remaining_def)

lemma parse_array_loop_fuel_step:
  assumes v0: "\<forall>rd. 2 * remaining rd + 1 \<le> n \<longrightarrow> parse_value n h rd \<noteq> Inl Out_of_fuel"
    and l0: "\<forall>rd arr. 2 * remaining rd + 2 \<le> n \<longrightarrow> parse_array_loop n h rd arr \<noteq> Inl Out_of_fuel"
    and f: "2 * remaining rd + 2 \<le> Suc n"
  shows "parse_array_loop (Suc n) h rd arr \<noteq> Inl Out_of_fuel"
proof (cases "at_pos h rd (\<lambda>c. c \<noteq> CHR '']'')")
  case None
  then show ?thesis by simp
next
  case (Some b)
  show ?thesis
  proof (cases b)
    case False
    with Some show ?thesis by simp
  next
    case True
    with Some have lt: "pos rd < length' (src rd)" by (auto dest: at_pos_True)
    have fv: "2 * remaining rd + 1 \<le> n" using f by simp
    show ?thesis
    proof (cases "parse_value n h rd")
      case (Inl e)
      with v0[rule_format, OF fv] Some True show ?thesis by auto
    next
      case (Inr p)
      obtain x rd1 where p: "p = (x, rd1)" by (cases p)
      from parse_value_progress[OF Inr[unfolded p]] lt
      have r1: "src rd1 = src rd" "remaining rd1 < remaining rd" by (auto intro: remaining_less)
      show ?thesis
      proof (cases "optional_comma h rd1")
        case None
        with Inr p Some True show ?thesis by simp
      next
        case oc: (Some rd2)
        show ?thesis
        proof (cases "skip_whitespace h rd2")
          case (Inl e)
          with skip_whitespace_fuel[of h rd2] Inr p Some True oc show ?thesis by auto
        next
          case sw: (Inr rd3)
          from optional_comma_progress[OF oc] skip_whitespace_src_pos[OF sw]
          have "remaining rd3 \<le> remaining rd1" by (auto intro: remaining_le)
          with r1 fv have "2 * remaining rd3 + 2 \<le> n" by simp
          from l0[rule_format, OF this] Inr p Some True oc sw show ?thesis by simp
        qed
      qed
    qed
  qed
qed

lemma parse_object_loop_fuel_step:
  assumes v0: "\<forall>rd. 2 * remaining rd + 1 \<le> n \<longrightarrow> parse_value n h rd \<noteq> Inl Out_of_fuel"
    and l0: "\<forall>rd obj. 2 * remaining rd + 2 \<le> n \<longrightarrow> parse_object_loop n h rd obj \<noteq> Inl Out_of_fuel"
    and f: "2 * remaining rd + 2 \<le> Suc n"
  shows "parse_object_loop (Suc n) h rd obj \<noteq> Inl Out_of_fuel"
proof (cases "at_pos h rd (\<lambda>c. c \<noteq> CHR ''}'')")
  case None
  then show ?thesis by simp
next
  case (Some b)
  show ?thesis
  proof (cases b)
    case False
    with Some show ?thesis by simp
  next
    case True
    with Some have lt: "pos rd < length' (src rd)" by (auto dest: at_pos_True)
    have fv: "2 * remaining rd + 1 \<le> n" using f by simp
    show ?thesis
    proof (cases "parse_value n h rd")
      case (Inl e)
      with v0[rule_format, OF fv] Some True show ?thesis by auto
    next
      case (Inr p)
      obtain key rd1 where p: "p = (key, rd1)" by (cases p)
      from parse_value_progress[OF Inr[unfolded p]] lt
      have r1: "src rd1 = src rd" "remaining rd1 < remaining rd" "pos rd < pos rd1"
        by (auto intro: remaining_less)
      show ?thesis
      proof (cases "\<exists>k. key = String k")
        case False
        with Inr p Some True show ?thesis by (cases key) auto
      next
        case True
        then obtain k where k: "key = String k" by blast
        show ?thesis
        proof (cases "at_pos h rd1 (\<lambda>c. c = CHR '':'')")
          case None
          with Inr p k Some \<open>b\<close> show ?thesis by simp
        next
          case co: (Some b')
          show ?thesis
          proof (cases b')
            case False
            with co Inr p k Some \<open>b\<close> show ?thesis
              by (simp add: expected_colon_def split: option.splits)
          next
            case b': True
            let ?rd1 = "rd1\<lparr>pos := pos rd1 + 1\<rparr>"
            have "remaining ?rd1 \<le> remaining rd1" by (simp add: remaining_def)
            with r1 fv have fv2: "2 * remaining ?rd1 + 1 \<le> n" by simp
            show ?thesis
            proof (cases "parse_value n h ?rd1")
              case (Inl e)
              with v0[rule_format, OF fv2] co b' Inr p k Some \<open>b\<close> show ?thesis by auto
            next
              case v2: (Inr p2)
              obtain x rd2 where p2: "p2 = (x, rd2)" by (cases p2)
              from parse_value_progress[OF v2[unfolded p2]]
              have r2: "src rd2 = src rd" "pos rd1 \<le> pos rd2" using r1 by auto
              show ?thesis
              proof (cases "optional_comma h rd2")
                case None
                with v2 p2 co b' Inr p k Some \<open>b\<close> show ?thesis by simp
              next
                case oc: (Some rd3)
                show ?thesis
                proof (cases "skip_whitespace h rd3")
                  case (Inl e)
                  with skip_whitespace_fuel[of h rd3] oc v2 p2 co b' Inr p k Some \<open>b\<close>
                  show ?thesis by auto
                next
                  case sw: (Inr rd4)
                  from optional_comma_progress[OF oc] skip_whitespace_src_pos[OF sw] r2 r1
                  have "src rd4 = src rd" "pos rd1 \<le> pos rd4" by auto
                  then have "remaining rd4 \<le> remaining rd1" using r1 by (simp add: remaining_def)
                  with r1 fv have "2 * remaining rd4 + 2 \<le> n" by simp
                  from l0[rule_format, OF this] sw oc v2 p2 co b' Inr p k Some \<open>b\<close>
                  show ?thesis by (simp split: option.splits)
                qed
              qed
            qed
          qed
        qed
      qed
    qed
  qed
qed

lemma parse_value_fuel_step:
  assumes l0: "\<forall>rd arr. 2 * remaining rd + 2 \<le> n \<longrightarrow> parse_array_loop n h rd arr \<noteq> Inl Out_of_fuel"
    and o0: "\<forall>rd obj. 2 * remaining rd + 2 \<le> n \<longrightarrow> parse_object_loop n h rd obj \<noteq> Inl Out_of_fuel"
    and f: "2 * remaining rd + 1 \<le> Suc n"
  shows "parse_value (Suc n) h rd \<noteq> Inl Out_of_fuel"
proof (cases "skip_whitespace h rd")
  case (Inl e)
  with skip_whitespace_fuel[of h rd] show ?thesis by auto
next
  case (Inr rd1)
  from skip_whitespace_src_pos[OF Inr] have le: "remaining rd1 \<le> remaining rd"
    by (auto intro: remaining_le)
  show ?thesis
  proof (cases "pos rd1 \<ge> length' (src rd1)")
    case True
    with Inr show ?thesis by simp
  next
    case False
    let ?rd1 = "rd1\<lparr>pos := pos rd1 + 1\<rparr>"
    have inner: "2 * remaining rd2 + 2 \<le> n" if "skip_whitespace h ?rd1 = Inr rd2" for rd2
    proof -
      from skip_whitespace_src_pos[OF that] have "remaining rd2 \<le> remaining ?rd1"
        by (auto intro: remaining_le)
      moreover have "remaining ?rd1 < remaining rd1" using False by (simp add: remaining_def)
      ultimately show ?thesis using le f by simp
    qed
    have arr: "parse_array n h rd1 \<noteq> Inl Out_of_fuel"
    proof (cases "skip_whitespace h ?rd1")
      case (Inl e)
      with skip_whitespace_fuel[of h ?rd1] show ?thesis by auto
    next
      case sw: (Inr rd2)
      from l0[rule_format, OF inner[OF sw]] sw show ?thesis by simp
    qed
    have obj: "parse_object n h rd1 \<noteq> Inl Out_of_fuel"
    proof (cases "skip_whitespace h ?rd1")
      case (Inl e)
      with skip_whitespace_fuel[of h ?rd1] show ?thesis by auto
    next
      case sw: (Inr rd2)
      from o0[rule_format, OF inner[OF sw]] sw show ?thesis by simp
    qed
    show ?thesis
      using Inr False arr obj token_parsers_fuel[of h rd1]
      by (simp split: option.splits)
  qed
qed

lemma enough_fuel_all:
  "(\<forall>rd. 2 * remaining rd + 1 \<le> n \<longrightarrow> parse_value n h rd \<noteq> Inl Out_of_fuel) \<and>
   (\<forall>rd arr. 2 * remaining rd + 2 \<le> n \<longrightarrow> parse_array_loop n h rd arr \<noteq> Inl Out_of_fuel) \<and>
   (\<forall>rd obj. 2 * remaining rd + 2 \<le> n \<longrightarrow> parse_object_loop n h rd obj \<noteq> Inl Out_of_fuel)"
proof (induction n)
  case 0
  show ?case by simp
next
  case (Suc n)
  then have v: "\<forall>rd. 2 * remaining rd + 1 \<le> n \<longrightarrow> parse_value n h rd \<noteq> Inl Out_of_fuel"
    and l: "\<forall>rd arr. 2 * remaining rd + 2 \<le> n \<longrightarrow> parse_array_loop n h rd arr \<noteq> Inl Out_of_fuel"
    and o: "\<forall>rd obj. 2 * remaining rd + 2 \<le> n \<longrightarrow> parse_object_loop n h rd obj \<noteq> Inl Out_of_fuel"
    by simp_all
  show ?case
    using parse_value_fuel_step[OF l o] parse_array_loop_fuel_step[OF v l]
      parse_object_loop_fuel_step[OF v o]
    by blast
qed

theorem parse_never_out_of_fuel: "parse h rd \<noteq> Inl Out_of_fuel"
proof -
  let ?rd = "rd\<lparr>pos := 0, row := 1, column := 0\<rparr>"
  have "2 * remaining ?rd + 1 \<le> 2 * length' (src rd) + 1" by (simp add: remaining_def)
  with enough_fuel_all[of "2 * length' (src rd) + 1" h]
  have "parse_value (2 * length' (src rd) + 1) h ?rd \<noteq> Inl Out_of_fuel" by blast
  then show ?thesis
    by (cases "parse_value (2 * length' (src rd) + 1) h ?rd") (auto simp: parse_def)
qed


section \<open>The order of the keys\<close>

lemma bytes_less_irrefl: "\<not> bytes_less x x"
  by (induction x) auto

lemma bytes_less_trans: "bytes_less x y \<Longrightarrow> bytes_less y z \<Longrightarrow> bytes_less x z"
proof (induction x y arbitrary: z rule: bytes_less.induct)
  case (2 y ys)
  then show ?case by (cases z) auto
next
  case (4 x xs y ys)
  then show ?case by (cases z) auto
qed auto

lemma bytes_less_total: "\<not> bytes_less x y \<Longrightarrow> \<not> bytes_less y x \<Longrightarrow> x = y"
proof (induction x y rule: bytes_less.induct)
  case (4 x xs y ys)
  then have "of_char x = (of_char y :: nat)" by auto
  then have "x = y" by simp
  with 4 show ?case by auto
qed auto

lemma bytes_less_asym: "bytes_less x y \<Longrightarrow> \<not> bytes_less y x"
  using bytes_less_trans bytes_less_irrefl by blast

lemma traits_compare_bytes_less:
  "(let n = min (length x) (length y); cmp = traits_compare (take n x) (take n y)
    in if cmp < 0 then True else if cmp > 0 then False else length x < length y)
   = bytes_less x y"
proof (induction x y rule: bytes_less.induct)
  case (4 x xs y ys)
  then show ?case by (auto simp: Let_def)
qed (auto simp: Let_def)

lemma window_of_view:
  assumes "string_view h s = Some w" and "n \<le> length' s"
  shows "window h s n = Some (take n w)"
proof -
  from assms(1) have b: "offset s + length' s \<le> length (block_of h s)"
    and w: "w = take (length' s) (drop (offset s) (block_of h s))"
    by (auto simp: string_view_def window_def Let_def split: if_splits)
  from b assms(2) show ?thesis by (simp add: window_def w min_def take_take)
qed

lemma cow_less_view:
  assumes "string_view h a = Some x" and "string_view h b = Some y"
  shows "cow_less h a b = Some (bytes_less x y)"
proof -
  let ?n = "min (length x) (length y)"
  have la: "length' a = length x" and lb: "length' b = length y"
    using assms by (auto dest: string_view_length)
  have "window h a ?n = Some (take ?n x)" "window h b ?n = Some (take ?n y)"
    using assms by (auto intro: window_of_view simp: la lb)
  then have "cow_less h a b = Some (let n = ?n; cmp = traits_compare (take n x) (take n y)
      in if cmp < 0 then True else if cmp > 0 then False else length x < length y)"
    by (simp add: cow_less_def Let_def la lb)
  also have "\<dots> = Some (bytes_less x y)"
    by (simp only: traits_compare_bytes_less)
  finally show ?thesis .
qed

section \<open>Assigning to an object\<close>

lemma obj_assign_ins:
  "entry_views h m = Some em \<Longrightarrow> string_view h k = Some kb \<Longrightarrow>
   \<exists>m'. obj_assign h k v m = Some m' \<and> entry_views h m' = Some (ins kb v em)"
proof (induction m arbitrary: em)
  case Nil
  then show ?case by simp
next
  case (Cons e m)
  obtain k' v' where e: "e = (k', v')" by (cases e)
  from Cons.prems(1) e obtain kb' em' where
    k': "string_view h k' = Some kb'" and m: "entry_views h m = Some em'"
    and em: "em = (kb', v') # em'"
    by (auto split: option.splits)
  from Cons.IH[OF m Cons.prems(2)] obtain m' where
    m': "obj_assign h k v m = Some m'" "entry_views h m' = Some (ins kb v em')" by blast
  show ?case
    using k' m m' Cons.prems(2)
    by (simp add: e em cow_less_view[OF Cons.prems(2) k'] cow_less_view[OF k' Cons.prems(2)])
qed

lemma ins_keys: "x \<in> set (map fst (ins k v m)) \<Longrightarrow> x = k \<or> x \<in> set (map fst m)"
proof (induction m)
  case Nil
  then show ?case by simp
next
  case (Cons e m)
  obtain k' v' where e: "e = (k', v')" by (cases e)
  show ?case
  proof (cases "bytes_less k k'")
    case True
    with Cons.prems show ?thesis by (auto simp: e)
  next
    case False
    show ?thesis
    proof (cases "bytes_less k' k")
      case True
      with False Cons.prems have "x = k' \<or> x \<in> set (map fst (ins k v m))" by (auto simp: e)
      with Cons.IH show ?thesis by (auto simp: e)
    next
      case nl: False
      with False Cons.prems show ?thesis by (auto simp: e)
    qed
  qed
qed

lemma ins_sorted:
  "sorted_wrt bytes_less (map fst m) \<Longrightarrow> sorted_wrt bytes_less (map fst (ins k v m))"
proof (induction m)
  case Nil
  then show ?case by simp
next
  case (Cons e m)
  obtain k' v' where e: "e = (k', v')" by (cases e)
  from Cons.prems e have s: "sorted_wrt bytes_less (map fst m)"
    and a: "\<forall>x\<in>set (map fst m). bytes_less k' x" by auto
  show ?case
  proof (cases "bytes_less k k'")
    case True
    then have "\<forall>x\<in>set (map fst m). bytes_less k x" using a bytes_less_trans by blast
    with True Cons.prems e show ?thesis by auto
  next
    case False
    show ?thesis
    proof (cases "bytes_less k' k")
      case True
      have "\<forall>x\<in>set (map fst (ins k v m)). bytes_less k' x"
        using ins_keys[of _ k v m] a True by blast
      with Cons.IH[OF s] False True e show ?thesis by simp
    next
      case nl: False
      with False Cons.prems e show ?thesis by simp
    qed
  qed
qed

lemma sorted_map_of_None:
  "\<forall>x\<in>set (map fst m). bytes_less k x \<Longrightarrow> map_of m k = None"
  by (induction m) (auto simp: bytes_less_irrefl)

lemma ins_map_of:
  "sorted_wrt bytes_less (map fst m) \<Longrightarrow> map_of (ins k v m) = (map_of m)(k \<mapsto> v)"
proof (induction m)
  case Nil
  then show ?case by simp
next
  case (Cons e m)
  obtain k' v' where e: "e = (k', v')" by (cases e)
  from Cons.prems e have s: "sorted_wrt bytes_less (map fst m)" by auto
  show ?case
  proof (cases "bytes_less k k'")
    case True
    then have "k \<noteq> k'" using bytes_less_irrefl by auto
    with True show ?thesis by (auto simp: e)
  next
    case False
    show ?thesis
    proof (cases "bytes_less k' k")
      case True
      then have "k' \<noteq> k" using bytes_less_irrefl by auto
      with Cons.IH[OF s] False True show ?thesis by (auto simp: e)
    next
      case nl: False
      with False have "k = k'" by (rule bytes_less_total)
      with False show ?thesis by (auto simp: e bytes_less_irrefl)
    qed
  qed
qed

lemma sorted_distinct: "sorted_wrt bytes_less ks \<Longrightarrow> distinct ks"
  by (induction ks) (auto simp: bytes_less_irrefl)

section \<open>The reader of \<open>parse_text\<close>\<close>

lemma reads_text_new:
  "length txt < npos \<Longrightarrow>
   reads_text [txt @ [NUL]] \<lparr>storage = 0, offset = 0, length' = length txt\<rparr> txt"
  by (simp add: reads_text_def)

lemma parse_text_unfold:
  "parse_text txt =
     map_sum id fst
       (parse_value (2 * length txt + 1) [txt @ [NUL]]
          \<lparr>src = \<lparr>storage = 0, offset = 0, length' = length txt\<rparr>, pos = 0, row = 1, column = 0\<rparr>)"
  by (simp add: parse_text_def parse_def json_reader_new_def cow_string_new_def
      del: parse_value.simps)

lemma takeWhile_until:
  "\<forall>x\<in>set xs. P x \<Longrightarrow> \<not> P c \<Longrightarrow> takeWhile P (xs @ c # ys) = xs"
  by (induction xs) auto

lemma parse_value_string:
  assumes rt: "reads_text h (src rd) txt"
    and t: "txt = pre @ CHR 0x22 # body @ CHR 0x22 # rest"
    and p: "pos rd = length pre" and k: "CHR 0x22 \<notin> set body"
  shows "parse_value (Suc n) h rd =
     Inr (String (substr (src rd) (length pre + 1) (length body)),
          rd\<lparr>pos := length pre + length body + 2\<rparr>)"
proof -
  have lt: "pos rd < length txt" and c: "txt ! pos rd = CHR 0x22" by (simp_all add: t p)
  have sk: "skip_whitespace h rd = Inr rd"
    using rt lt c by (intro skip_whitespace_stay) (auto simp: isspace_def)
  have len: "length' (src rd) = length txt" using rt by (simp add: reads_text_def)
  have at: "char_at h (src rd) (pos rd) = Some CHR 0x22"
    using char_at_text_in[OF rt lt] c by simp
  have d: "drop (pos rd + 1) txt = body @ CHR 0x22 # rest" by (simp add: t p)
  have tw: "takeWhile (\<lambda>x. x \<noteq> CHR 0x22) (drop (pos rd + 1) txt) = body"
    unfolding d using k by (intro takeWhile_until) auto
  have "CHR 0x22 \<in> set (drop (pos rd + 1) txt)" unfolding d by simp
  from parse_string_text[OF rt lt this]
  have "parse_string h rd = Inr (String (substr (src rd) (length pre + 1) (length body)),
          rd\<lparr>pos := length pre + length body + 2\<rparr>)"
    unfolding tw by (simp add: p)
  with sk lt len at show ?thesis by simp
qed

section \<open>The strings of a parsed tree\<close>

lemma strings_of_list_append [simp]:
  "strings_of_list (xs @ ys) = strings_of_list xs @ strings_of_list ys"
  by (induction xs) auto

lemma obj_assign_strings:
  "obj_assign h k v m = Some m' \<Longrightarrow>
   set (strings_of_entries m') \<subseteq> insert k (set (strings_of v)) \<union> set (strings_of_entries m)"
proof (induction m arbitrary: m')
  case Nil
  then show ?case by auto
next
  case (Cons e m)
  obtain k' v' where e: "e = (k', v')" by (cases e)
  show ?case
  proof (cases "cow_less h k k'")
    case None
    with Cons.prems show ?thesis by (simp add: e)
  next
    case (Some b)
    show ?thesis
    proof (cases b)
      case True
      with Some Cons.prems show ?thesis by (auto simp: e)
    next
      case False
      show ?thesis
      proof (cases "cow_less h k' k")
        case None
        with Some False Cons.prems show ?thesis by (simp add: e)
      next
        case s2: (Some b')
        show ?thesis
        proof (cases b')
          case True
          with Some False s2 Cons.prems obtain m1 where
            m1: "obj_assign h k v m = Some m1" "m' = (k', v') # m1"
            by (auto simp: e)
          from Cons.IH[OF m1(1)] show ?thesis by (auto simp: m1(2) e)
        next
          case f2: False
          with Some False s2 Cons.prems show ?thesis by (auto simp: e)
        qed
      qed
    qed
  qed
qed

lemma parse_string_cut:
  assumes "parse_string h rd = Inr (v, rd')"
  shows "\<exists>s. v = String s \<and> cut_from (src rd) s"
proof -
  from assms obtain e where e: "find_from h (src rd) CHR 0x22 (pos rd + 1) = Some e" "e \<noteq> npos"
    and v: "v = String (substr (src rd) (pos rd + 1) (e - (pos rd + 1)))"
    by (auto simp: parse_string_def cow_find_def Let_def split: option.splits if_splits)
  from find_from_bounds[OF e] have "pos rd + 1 + (e - (pos rd + 1)) \<le> length' (src rd)" by simp
  then show ?thesis unfolding v cut_from_def by blast
qed

lemma token_strings:
  "parse_null h rd = Inr (v, rd') \<Longrightarrow> strings_of v = []"
  "parse_true h rd = Inr (v, rd') \<Longrightarrow> strings_of v = []"
  "parse_false h rd = Inr (v, rd') \<Longrightarrow> strings_of v = []"
  "parse_number h rd = Inr (v, rd') \<Longrightarrow> strings_of v = []"
  by (auto simp: parse_null_def parse_true_def parse_false_def parse_number_def Let_def
      split: option.splits bool.splits if_splits)

lemma parse_array_loop_cut_step:
  assumes v0: "\<forall>rd v rd'. parse_value n h rd = Inr (v, rd') \<longrightarrow> all_cut (src rd) (strings_of v)"
    and l0: "\<forall>rd arr v rd'. parse_array_loop n h rd arr = Inr (v, rd') \<longrightarrow>
               all_cut (src rd) (strings_of_list arr) \<longrightarrow> all_cut (src rd) (strings_of v)"
    and r: "parse_array_loop (Suc n) h rd arr = Inr (w, rd')"
    and acc: "all_cut (src rd) (strings_of_list arr)"
  shows "all_cut (src rd) (strings_of w)"
proof (cases "at_pos h rd (\<lambda>c. c \<noteq> CHR '']'')")
  case None
  with r show ?thesis by simp
next
  case (Some b)
  show ?thesis
  proof (cases b)
    case False
    with Some r acc show ?thesis by auto
  next
    case True
    with Some r obtain x rd1 rd2 rd3 where
      a: "parse_value n h rd = Inr (x, rd1)" and b: "optional_comma h rd1 = Some rd2"
      and c: "skip_whitespace h rd2 = Inr rd3"
      and d: "parse_array_loop n h rd3 (arr @ [x]) = Inr (w, rd')"
      by (auto split: sum.splits option.splits)
    from parse_value_progress[OF a] optional_comma_progress[OF b] skip_whitespace_src_pos[OF c]
    have s: "src rd3 = src rd" by simp
    from v0[rule_format, OF a] acc have "all_cut (src rd3) (strings_of_list (arr @ [x]))"
      by (auto simp: all_cut_def s)
    from l0[rule_format, OF d this] show ?thesis by (simp add: s)
  qed
qed

lemma parse_object_loop_cut_step:
  assumes v0: "\<forall>rd v rd'. parse_value n h rd = Inr (v, rd') \<longrightarrow> all_cut (src rd) (strings_of v)"
    and l0: "\<forall>rd obj v rd'. parse_object_loop n h rd obj = Inr (v, rd') \<longrightarrow>
               all_cut (src rd) (strings_of_entries obj) \<longrightarrow> all_cut (src rd) (strings_of v)"
    and r: "parse_object_loop (Suc n) h rd obj = Inr (w, rd')"
    and acc: "all_cut (src rd) (strings_of_entries obj)"
  shows "all_cut (src rd) (strings_of w)"
proof (cases "at_pos h rd (\<lambda>c. c \<noteq> CHR ''}'')")
  case None
  with r show ?thesis by simp
next
  case (Some b)
  show ?thesis
  proof (cases b)
    case False
    with Some r acc show ?thesis by auto
  next
    case True
    with Some r obtain k rd1 x rd2 rd3 rd4 obj' where
      a: "parse_value n h rd = Inr (String k, rd1)"
      and a2: "parse_value n h (rd1\<lparr>pos := pos rd1 + 1\<rparr>) = Inr (x, rd2)"
      and b: "optional_comma h rd2 = Some rd3"
      and c: "skip_whitespace h rd3 = Inr rd4"
      and oa: "obj_assign h k x obj = Some obj'"
      and d: "parse_object_loop n h rd4 obj' = Inr (w, rd')"
      by (auto split: sum.splits option.splits Value.splits bool.splits)
    from parse_value_progress[OF a] have s1: "src rd1 = src rd" by simp
    from parse_value_progress[OF a2] optional_comma_progress[OF b] skip_whitespace_src_pos[OF c] s1
    have s: "src rd4 = src rd" by simp
    from v0[rule_format, OF a] have ck: "cut_from (src rd) k" by (simp add: all_cut_def)
    from v0[rule_format, OF a2] s1 have cx: "all_cut (src rd) (strings_of x)" by simp
    from obj_assign_strings[OF oa] ck cx acc
    have "all_cut (src rd4) (strings_of_entries obj')"
      unfolding all_cut_def s by blast
    from l0[rule_format, OF d this] show ?thesis by (simp add: s)
  qed
qed

lemma parse_value_cut_step:
  assumes l0: "\<forall>rd arr v rd'. parse_array_loop n h rd arr = Inr (v, rd') \<longrightarrow>
               all_cut (src rd) (strings_of_list arr) \<longrightarrow> all_cut (src rd) (strings_of v)"
    and o0: "\<forall>rd obj v rd'. parse_object_loop n h rd obj = Inr (v, rd') \<longrightarrow>
               all_cut (src rd) (strings_of_entries obj) \<longrightarrow> all_cut (src rd) (strings_of v)"
    and r: "parse_value (Suc n) h rd = Inr (w, rd')"
  shows "all_cut (src rd) (strings_of w)"
proof -
  from r obtain rd1 c where s: "skip_whitespace h rd = Inr rd1"
    and d: "(if c = CHR ''n'' then parse_null h rd1
             else if c = CHR ''t'' then parse_true h rd1
             else if c = CHR ''f'' then parse_false h rd1
             else if c = CHR 0x22 then parse_string h rd1
             else if c = CHR ''['' then parse_array n h rd1
             else if c = CHR ''{'' then parse_object n h rd1
             else parse_number h rd1) = Inr (w, rd')"
    by (auto split: sum.splits option.splits if_splits)
  from skip_whitespace_src_pos[OF s] have s1: "src rd1 = src rd" by simp
  have arr: "all_cut (src rd1) (strings_of w)" if "parse_array n h rd1 = Inr (w, rd')"
  proof -
    from that obtain rd2 where a: "skip_whitespace h (rd1\<lparr>pos := pos rd1 + 1\<rparr>) = Inr rd2"
      and b: "parse_array_loop n h rd2 [] = Inr (w, rd')"
      by (auto split: sum.splits)
    from skip_whitespace_src_pos[OF a] l0[rule_format, OF b] show ?thesis
      by (simp add: all_cut_def)
  qed
  have obj: "all_cut (src rd1) (strings_of w)" if "parse_object n h rd1 = Inr (w, rd')"
  proof -
    from that obtain rd2 where a: "skip_whitespace h (rd1\<lparr>pos := pos rd1 + 1\<rparr>) = Inr rd2"
      and b: "parse_object_loop n h rd2 [] = Inr (w, rd')"
      by (auto split: sum.splits)
    from skip_whitespace_src_pos[OF a] o0[rule_format, OF b] show ?thesis
      by (simp add: all_cut_def)
  qed
  have "all_cut (src rd1) (strings_of w)"
    using d arr obj token_strings[of h rd1 w rd'] parse_string_cut[of h rd1 w rd']
    by (auto simp: all_cut_def split: if_splits)
  then show ?thesis by (simp add: s1)
qed

lemma parse_cut_all:
  "(\<forall>rd v rd'. parse_value n h rd = Inr (v, rd') \<longrightarrow> all_cut (src rd) (strings_of v)) \<and>
   (\<forall>rd arr v rd'. parse_array_loop n h rd arr = Inr (v, rd') \<longrightarrow>
      all_cut (src rd) (strings_of_list arr) \<longrightarrow> all_cut (src rd) (strings_of v)) \<and>
   (\<forall>rd obj v rd'. parse_object_loop n h rd obj = Inr (v, rd') \<longrightarrow>
      all_cut (src rd) (strings_of_entries obj) \<longrightarrow> all_cut (src rd) (strings_of v))"
proof (induction n)
  case 0
  show ?case by simp
next
  case (Suc n)
  then have v: "\<forall>rd v rd'. parse_value n h rd = Inr (v, rd') \<longrightarrow> all_cut (src rd) (strings_of v)"
    and l: "\<forall>rd arr v rd'. parse_array_loop n h rd arr = Inr (v, rd') \<longrightarrow>
      all_cut (src rd) (strings_of_list arr) \<longrightarrow> all_cut (src rd) (strings_of v)"
    and o: "\<forall>rd obj v rd'. parse_object_loop n h rd obj = Inr (v, rd') \<longrightarrow>
      all_cut (src rd) (strings_of_entries obj) \<longrightarrow> all_cut (src rd) (strings_of v)"
    by simp_all
  show ?case
    using parse_value_cut_step[OF l o] parse_array_loop_cut_step[OF v l]
      parse_object_loop_cut_step[OF v o]
    by blast
qed

lemma parse_value_cut:
  "parse_value n h rd = Inr (v, rd') \<Longrightarrow> s \<in> set (strings_of v) \<Longrightarrow> cut_from (src rd) s"
  using parse_cut_all[of n h] by (auto simp: all_cut_def)

lemma parse_cut:
  assumes "parse h rd = Inr v" and "s \<in> set (strings_of v)"
  shows "cut_from (src rd) s"
proof -
  from assms(1) obtain rd' where
    "parse_value (2 * length' (src rd) + 1) h (rd\<lparr>pos := 0, row := 1, column := 0\<rparr>) = Inr (v, rd')"
    by (cases "parse_value (2 * length' (src rd) + 1) h (rd\<lparr>pos := 0, row := 1, column := 0\<rparr>)")
       (auto simp: parse_def simp del: parse_value.simps)
  from parse_value_cut[OF this assms(2)] show ?thesis by simp
qed

lemma cut_from_storage: "cut_from s t \<Longrightarrow> storage t = storage s"
  by (auto simp: cut_from_def substr_def)

lemma substr_inv:
  assumes "slice_inv h s" and "off + count \<le> length' s"
  shows "slice_inv h (substr s off count)"
proof -
  have "size_t (offset s + off) \<le> offset s + off" by (rule size_t_le)
  with assms show ?thesis by (simp add: slice_inv_def substr_def)
qed

lemma cut_from_inv: "slice_inv h s \<Longrightarrow> cut_from s t \<Longrightarrow> slice_inv h t"
  by (auto simp: cut_from_def intro: substr_inv)

section \<open>The slice invariant\<close>

lemma scan_number_le_length:
  "scan_number h s p = Some e \<Longrightarrow> p \<le> length' s \<Longrightarrow> e \<le> length' s"
proof (induction h s p rule: scan_number.induct)
  case (1 h s p)
  show ?case
  proof (cases "p < length' s")
    case False
    with "1.prems" show ?thesis by (simp add: scan_number.simps[of h s p])
  next
    case True
    then obtain c where c: "char_at h s p = Some c"
      using "1.prems" by (auto simp: scan_number.simps[of h s p] split: option.splits)
    show ?thesis
    proof (cases "number_char c")
      case False
      with c True "1.prems" show ?thesis by (simp add: scan_number.simps[of h s p])
    next
      case nc: True
      with c True "1.prems" have "scan_number h s (Suc p) = Some e"
        by (simp add: scan_number.simps[of h s p])
      from "1.IH"[OF True c nc this] True show ?thesis by simp
    qed
  qed
qed

lemma new_inv: "slice_inv (fst (cow_string_new h v)) (snd (cow_string_new h v))"
  by (simp add: cow_string_new_def slice_inv_def)

lemma copy_inv: "copy h s = Some (h', s') \<Longrightarrow> slice_inv h' s'"
  by (auto simp: copy_def slice_inv_def string_view_def window_def Let_def
      split: option.splits if_splits)

lemma slice_inv_alloc: "slice_inv h s \<Longrightarrow> slice_inv (h @ [b]) s"
  by (simp add: slice_inv_def nth_append)

lemma slice_inv_write:
  "slice_inv h s \<Longrightarrow> length b = length (h ! a) \<Longrightarrow> slice_inv (h[a := b]) s"
  by (cases "a = storage s") (auto simp: slice_inv_def)

lemma construct_inv: "state_inv st \<Longrightarrow> state_inv (construct st v)"
  by (auto simp: state_inv_def construct_def cow_string_new_def slice_inv_def nth_append)

lemma copy_construct_inv:
  "state_inv st \<Longrightarrow> i < length (objs st) \<Longrightarrow> state_inv (copy_construct st i)"
  by (auto simp: state_inv_def copy_construct_def)

lemma substr_obj_inv:
  "state_inv st \<Longrightarrow> i < length (objs st) \<Longrightarrow> off + count \<le> length' (objs st ! i) \<Longrightarrow>
   state_inv (substr_obj st i off count)"
  by (auto simp: state_inv_def substr_obj_def intro: substr_inv)

lemma copy_obj_inv:
  assumes "state_inv st" and "copy_obj st i = Some st'"
  shows "state_inv st'"
proof -
  from assms(2) obtain hh s where c: "copy (blocks st) (objs st ! i) = Some (hh, s)"
    and st': "st' = \<lparr>blocks = hh, objs = (objs st)[i := s]\<rparr>"
    by (auto simp: copy_obj_def split: option.splits)
  from c obtain w where hh: "hh = blocks st @ [w @ [NUL]]"
    by (auto simp: copy_def split: option.splits)
  have "slice_inv hh t" if "t \<in> set ((objs st)[i := s])" for t
  proof -
    from that have "t = s \<or> t \<in> set (objs st)" by (auto dest: set_update_subset_insert[THEN subsetD])
    then show ?thesis using copy_inv[OF c] assms(1) by (auto simp: state_inv_def hh slice_inv_alloc)
  qed
  then show ?thesis by (simp add: state_inv_def st')
qed

lemma char_proxy_assign_inv:
  assumes "state_inv st" and "char_proxy_assign st i index c = Some st'"
  shows "state_inv st'"
proof -
  from assms(2) obtain st1 where
    st1: "(if use_count st (storage (objs st ! i)) > 1 then copy_obj st i else Some st) = Some st1"
    by (auto simp: char_proxy_assign_def split: option.splits)
  then have i1: "state_inv st1" using assms(1) copy_obj_inv by (auto split: if_splits)
  from assms(2) st1 obtain a b where st': "st' = st1\<lparr>blocks := (blocks st1)[a := b]\<rparr>"
    and b: "a < length (blocks st1) \<longrightarrow> length b = length (blocks st1 ! a)"
    by (auto simp: char_proxy_assign_def Let_def block_of_def split: if_splits)
  show ?thesis
  proof (cases "a < length (blocks st1)")
    case True
    with b i1 show ?thesis by (auto simp: state_inv_def st' intro: slice_inv_write)
  next
    case False
    then have "(blocks st1)[a := b] = blocks st1" by (intro list_update_beyond) simp
    with i1 show ?thesis by (simp add: state_inv_def st')
  qed
qed

section \<open>Decimal digits\<close>

lemma less_10_cases:
  "d < 10 \<Longrightarrow> d = 0 \<or> d = 1 \<or> d = 2 \<or> d = 3 \<or> d = 4 \<or> d = 5 \<or> d = 6 \<or> d = 7 \<or> d = 8
     \<or> d = (9::nat)"
  by arith

lemma digit_char_isdigit: "d < 10 \<Longrightarrow> isdigit (digit_char d)"
  by (drule less_10_cases) (auto simp: digit_char_def isdigit_def)

lemma digit_val_digit_char: "d < 10 \<Longrightarrow> digit_val (digit_char d) = d"
  by (drule less_10_cases) (auto simp: digit_char_def digit_val_def)

lemma digits_isdigit: "c \<in> set (digits n) \<Longrightarrow> isdigit c"
proof (induction n arbitrary: c rule: digits.induct)
  case (1 n)
  show ?case
  proof (cases "n < 10")
    case True
    with "1.prems" show ?thesis by (simp add: digits.simps[of n] digit_char_isdigit)
  next
    case False
    with "1.prems" have "c \<in> set (digits (n div 10)) \<or> c = digit_char (n mod 10)"
      by (auto simp: digits.simps[of n])
    with "1.IH"[OF False] show ?thesis by (auto simp: digit_char_isdigit)
  qed
qed

lemma digits_nonempty: "digits n \<noteq> []"
  by (simp add: digits.simps[of n])

lemma dec_snoc: "dec (ds @ [c]) = 10 * dec ds + digit_val c"
  by (simp add: dec_def)

lemma dec_digits: "dec (digits n) = n"
proof (induction n rule: digits.induct)
  case (1 n)
  show ?case
  proof (cases "n < 10")
    case True
    then show ?thesis by (simp add: digits.simps[of n] dec_def digit_val_digit_char)
  next
    case False
    with "1.IH" have "dec (digits (n div 10)) = n div 10" by simp
    with False show ?thesis
      by (simp add: digits.simps[of n] dec_snoc digit_val_digit_char)
  qed
qed

lemma takeWhile_all:
  "\<forall>x\<in>set xs. P x \<Longrightarrow> ys = [] \<or> \<not> P (hd ys) \<Longrightarrow> takeWhile P (xs @ ys) = xs"
  by (induction xs) (auto simp: takeWhile_eq_Nil_iff)

lemma isdigit_facts:
  assumes "isdigit c"
  shows "number_char c" and "\<not> isspace c" and "c \<noteq> CHR ''.''" and "c \<noteq> CHR ''e''"
    and "c \<noteq> CHR ''n''" and "c \<noteq> CHR ''t''" and "c \<noteq> CHR ''f''" and "c \<noteq> CHR 0x22"
    and "c \<noteq> CHR ''[''" and "c \<noteq> CHR ''{''" and "c \<noteq> CHR '']''" and "c \<noteq> CHR ''}''"
    and "c \<noteq> CHR '',''" and "c \<noteq> CHR ''-''"
  using assms by (auto simp: isdigit_def number_char_def isspace_def)

lemma from_chars_int_digits:
  assumes "n < 2 ^ 63"
  shows "from_chars_int (digits n) = Some (int n)"
proof -
  have ne: "digits n \<noteq> []" by (rule digits_nonempty)
  have "isdigit (hd (digits n))" by (rule digits_isdigit[OF hd_in_set[OF ne]])
  then have h: "hd (digits n) \<noteq> CHR ''-''" by (rule isdigit_facts)
  have tw: "takeWhile isdigit (digits n) = digits n"
    using takeWhile_all[of "digits n" isdigit "[]"] by (auto dest: digits_isdigit)
  have "int n < 2 ^ 63" using assms by (simp add: nat_less_numeral_power_cancel_iff)
  then show ?thesis
    using ne h by (simp add: from_chars_int_def tw dec_digits Let_def)
qed

section \<open>What the writer writes\<close>

lemma takeWhile_not_NUL: "NUL \<notin> set w \<Longrightarrow> takeWhile (\<lambda>c. c \<noteq> NUL) (w @ NUL # r) = w"
  by (induction w) auto

lemma copy_c_string:
  assumes "string_view h s = Some w" and "NUL \<notin> set w"
  shows "\<exists>h' s'. copy h s = Some (h', s') \<and> takeWhile (\<lambda>c. c \<noteq> NUL) (block_of h' s') = w"
  using assms by (simp add: copy_def block_of_def takeWhile_not_NUL)

lemma c_str_plain:
  assumes p: "plain_string h s" and v: "string_view h s = Some w"
  shows "\<exists>h' s'. c_str h s = Some (h', s', w)"
proof -
  from p v have n: "NUL \<notin> set w" and l: "length' s < 2 ^ 64"
    and z: "offset s = 0 \<longrightarrow> length' s < length (block_of h s)"
    by (simp_all add: plain_string_def)
  from copy_c_string[OF v n] obtain h' s' where
    c: "copy h s = Some (h', s')" "takeWhile (\<lambda>c. c \<noteq> NUL) (block_of h' s') = w" by blast
  show ?thesis
  proof (cases "offset s = 0")
    case False
    with c show ?thesis by (simp add: c_str_def)
  next
    case True
    let ?b = "block_of h s"
    from z True have lt: "length' s < length ?b" by simp
    have at: "char_at h s (length' s) = Some (?b ! length' s)"
      using True lt l by (simp add: char_at_def size_t_id)
    show ?thesis
    proof (cases "?b ! length' s = NUL")
      case f: False
      with at True c show ?thesis by (simp add: c_str_def)
    next
      case t: True
      from v True have w: "w = take (length' s) ?b"
        by (auto simp: string_view_def window_def Let_def split: if_splits)
      have "?b = take (length' s) ?b @ ?b ! length' s # drop (Suc (length' s)) ?b"
        using lt by (rule id_take_nth_drop)
      then have "?b = w @ NUL # drop (Suc (length' s)) ?b" using w t by simp
      then have "takeWhile (\<lambda>c. c \<noteq> NUL) ?b = w"
        using takeWhile_not_NUL[OF n, of "drop (Suc (length' s)) ?b"] by simp
      with at True t show ?thesis by (simp add: c_str_def)
    qed
  qed
qed

lemma write_string_plain:
  assumes "plain_string h s"
  shows "\<exists>w. string_view h s = Some w \<and> CHR 0x22 \<notin> set w
           \<and> write_node fmt h (String s) = Some (CHR 0x22 # w @ [CHR 0x22])"
proof -
  from assms obtain w where v: "string_view h s = Some w" and q: "CHR 0x22 \<notin> set w"
    by (auto simp: plain_string_def split: option.splits)
  from c_str_plain[OF assms v] obtain h' s' where "c_str h s = Some (h', s', w)" by blast
  with v q show ?thesis by simp
qed

lemma starter_facts:
  assumes "starter c"
  shows "\<not> isspace c" and "c \<noteq> CHR '']''" and "c \<noteq> CHR ''}''" and "c \<noteq> CHR '',''"
    and "c \<noteq> CHR '':''"
  using assms by (auto simp: starter_def isspace_def isdigit_def)

lemma show_int_plain:
  assumes "0 \<le> i"
  shows "show_int i = digits (nat i)"
  using assms by (simp add: show_int_def)

lemma write_starts:
  "plain h v \<Longrightarrow> write_node fmt h v = Some t \<Longrightarrow> t \<noteq> [] \<and> starter (hd t)"
proof (cases v)
  case (Integer i)
  assume "plain h v" and "write_node fmt h v = Some t"
  with Integer have t: "t = digits (nat i)" by (simp add: show_int_def)
  have "isdigit (hd (digits (nat i)))"
    by (rule digits_isdigit[OF hd_in_set[OF digits_nonempty]])
  with t show ?thesis by (simp add: digits_nonempty starter_def)
qed (auto simp: starter_def split: option.splits if_splits)

section \<open>Reading back what was written\<close>

lemma parse_value_dispatch:
  assumes rt: "reads_text h (src rd) txt" and lt: "pos rd < length txt"
    and ns: "\<not> isspace (txt ! pos rd)"
  shows "parse_value (Suc n) h rd =
     (let c = txt ! pos rd in
      if c = CHR ''n'' then parse_null h rd
      else if c = CHR ''t'' then parse_true h rd
      else if c = CHR ''f'' then parse_false h rd
      else if c = CHR 0x22 then parse_string h rd
      else if c = CHR ''['' then parse_array n h rd
      else if c = CHR ''{'' then parse_object n h rd
      else parse_number h rd)"
proof -
  have sk: "skip_whitespace h rd = Inr rd" using rt lt ns by (intro skip_whitespace_stay) auto
  have len: "length' (src rd) = length txt" using rt by (simp add: reads_text_def)
  have at: "char_at h (src rd) (pos rd) = Some (txt ! pos rd)" using rt lt by (rule char_at_text_in)
  show ?thesis using sk len at lt by (simp add: Let_def del: parse_array.simps parse_object.simps)
qed

lemma read_null:
  assumes "reads_text h (src rd) txt" and "txt = pre @ ''null'' @ post" and "pos rd = length pre"
  shows "parse_value (Suc n) h rd = Inr (Null, rd\<lparr>pos := length pre + 4\<rparr>)"
proof -
  have c: "txt ! pos rd = CHR ''n''" using assms(2,3) by (simp add: nth_append)
  have "take 4 (drop (pos rd) txt) = ''null''" using assms(2,3) by simp
  from parse_null_text[OF assms(1) this] parse_value_dispatch[OF assms(1), of n] c assms(2,3)
  show ?thesis by (simp add: isspace_def)
qed

lemma read_true:
  assumes "reads_text h (src rd) txt" and "txt = pre @ ''true'' @ post" and "pos rd = length pre"
  shows "parse_value (Suc n) h rd = Inr (Bool True, rd\<lparr>pos := length pre + 4\<rparr>)"
proof -
  have c: "txt ! pos rd = CHR ''t''" using assms(2,3) by (simp add: nth_append)
  have "take 4 (drop (pos rd) txt) = ''true''" using assms(2,3) by simp
  from parse_true_text[OF assms(1) this] parse_value_dispatch[OF assms(1), of n] c assms(2,3)
  show ?thesis by (simp add: isspace_def)
qed

lemma read_false:
  assumes "reads_text h (src rd) txt" and "txt = pre @ ''false'' @ post" and "pos rd = length pre"
  shows "parse_value (Suc n) h rd = Inr (Bool False, rd\<lparr>pos := length pre + 5\<rparr>)"
proof -
  have c: "txt ! pos rd = CHR ''f''" using assms(2,3) by (simp add: nth_append)
  have "take 5 (drop (pos rd) txt) = ''false''" using assms(2,3) by simp
  from parse_false_text[OF assms(1) this] parse_value_dispatch[OF assms(1), of n] c assms(2,3)
  show ?thesis by (simp add: isspace_def)
qed

lemma read_digits:
  assumes rt: "reads_text h (src rd) txt" and t: "txt = pre @ digits m @ post"
    and p: "pos rd = length pre" and post: "post = [] \<or> \<not> number_char (hd post)"
    and m: "m < 2 ^ 63"
  shows "parse_value (Suc n) h rd = Inr (Integer (int m), rd\<lparr>pos := length pre + length (digits m)\<rparr>)"
proof -
  let ?d = "digits m"
  have ne: "?d \<noteq> []" by (rule digits_nonempty)
  have lt: "pos rd < length txt" using ne by (simp add: t p)
  have c: "txt ! pos rd = hd ?d" using ne by (simp add: t p nth_append hd_conv_nth)
  have dg: "isdigit (hd ?d)" by (rule digits_isdigit[OF hd_in_set[OF ne]])
  note f = isdigit_facts[OF dg]
  have disp: "parse_value (Suc n) h rd = parse_number h rd"
    using parse_value_dispatch[OF rt lt, of n] c f by (simp add: Let_def)
  have all: "\<forall>x\<in>set ?d. number_char x" by (auto dest: digits_isdigit isdigit_facts(1))
  have tok: "takeWhile number_char (drop (pos rd) txt) = ?d"
    using takeWhile_all[OF all post] by (simp add: t p)
  have nd: "CHR ''.'' \<notin> set ?d" "CHR ''e'' \<notin> set ?d"
    using isdigit_facts(3,4) digits_isdigit by blast+
  have le: "pos rd \<le> length txt" using lt by simp
  from parse_number_text[OF rt le tok[symmetric]] nd from_chars_int_digits[OF m]
  have "parse_number h rd = Inr (Integer (int m), rd\<lparr>pos := pos rd + length ?d\<rparr>)" by simp
  with disp p show ?thesis by simp
qed

lemma read_string:
  assumes rt: "reads_text h (src rd) txt"
    and t: "txt = pre @ (CHR 0x22 # w @ [CHR 0x22]) @ post"
    and p: "pos rd = length pre" and q: "CHR 0x22 \<notin> set w"
  shows "\<exists>s. parse_value (Suc n) h rd = Inr (String s, rd\<lparr>pos := length pre + (length w + 2)\<rparr>)
           \<and> string_view h s = Some w"
proof -
  have t': "txt = pre @ CHR 0x22 # w @ CHR 0x22 # post" using t by simp
  from parse_value_string[OF rt t' p q, of n]
  have a: "parse_value (Suc n) h rd =
      Inr (String (substr (src rd) (length pre + 1) (length w)), rd\<lparr>pos := length pre + length w + 2\<rparr>)" .
  have "length pre + 1 + length w \<le> length txt" by (simp add: t')
  from substr_view(1)[OF rt this]
  have "string_view h (substr (src rd) (length pre + 1) (length w)) = Some w" by (simp add: t')
  with a show ?thesis by (simp add: add.assoc)
qed

section \<open>Reading back the elements of an array\<close>

lemma reads_backD:
  assumes "reads_back fmt h v" and "plain h v"
  obtains t where "write_node fmt h v = Some t" and "shown h v \<noteq> None"
    and "\<And>h' rd doc pre post n.
           reads_text h' (src rd) doc \<Longrightarrow> doc = pre @ t @ post \<Longrightarrow> pos rd = length pre \<Longrightarrow>
           post = [] \<or> \<not> number_char (hd post) \<Longrightarrow> 2 * length t + 1 \<le> n \<Longrightarrow>
           \<exists>v'. parse_value n h' rd = Inr (v', rd\<lparr>pos := length pre + length t\<rparr>) \<and>
                 shown h' v' = shown h v"
  using assms unfolding reads_back_def by blast

lemma write_array_starts:
  "plain_list h xs \<Longrightarrow> write_array fmt h xs = Some t \<Longrightarrow> xs \<noteq> [] \<Longrightarrow> t \<noteq> [] \<and> starter (hd t)"
proof (cases xs)
  case Nil
  assume "xs \<noteq> []"
  with Nil show ?thesis by simp
next
  case (Cons x xs')
  assume "plain_list h xs" and "write_array fmt h xs = Some t"
  with Cons obtain tx where "write_node fmt h x = Some tx" "plain h x" and "\<exists>r. t = tx @ r"
    by (auto split: option.splits)
  with write_starts[of h x fmt tx] show ?thesis by auto
qed

lemma nth_length_append: "r \<noteq> [] \<Longrightarrow> (p @ r) ! length p = hd r"
  by (cases r) simp_all

lemma hd_append_starter:
  "t \<noteq> [] \<Longrightarrow> (pre @ t @ post) ! length pre = hd t"
  by (cases t) (simp_all add: nth_append)

lemma not_number_char_structural:
  "\<not> number_char CHR '',''" "\<not> number_char CHR '']''" "\<not> number_char CHR ''}''"
  by (simp_all add: number_char_def isdigit_def)

lemma open_bracket_not_space:
  "\<not> isspace CHR ''[''" "\<not> isspace CHR ''{''" "\<not> isspace CHR '']''" "\<not> isspace CHR ''}''"
  "\<not> isspace CHR 0x22"
  by (simp_all add: isspace_def)

text \<open>The loop of \<open>parse_array\<close> over the text of the elements.\<close>

lemma read_elements:
  assumes "\<forall>x\<in>set xs. reads_back fmt h x" and "plain_list h xs"
  shows "\<exists>t. write_array fmt h xs = Some t \<and> shown_list h xs \<noteq> None \<and>
     (\<forall>h' rd doc pre post n acc.
        reads_text h' (src rd) doc \<and> doc = pre @ t @ CHR '']'' # post \<and> pos rd = length pre \<and>
        2 * length t + 2 \<le> n \<longrightarrow>
        (\<exists>vs. parse_array_loop n h' rd acc
                 = Inr (Array (acc @ vs), rd\<lparr>pos := length pre + length t + 1\<rparr>) \<and>
              shown_list h' vs = shown_list h xs))"
  using assms
proof (induction xs)
  case Nil
  have base: "\<exists>vs. parse_array_loop n h' rd acc = Inr (Array (acc @ vs), rd\<lparr>pos := length pre + 0 + 1\<rparr>)
            \<and> shown_list h' vs = shown_list h []"
    if rt: "reads_text h' (src rd) doc" and t: "doc = pre @ CHR '']'' # post"
      and p: "pos rd = length pre" and f: "2 \<le> n" for h' rd doc pre post n acc
  proof -
    obtain n' where n: "n = Suc n'" using f by (cases n) auto
    have "at_pos h' rd (\<lambda>c. c \<noteq> CHR '']'') = Some False"
      using at_pos_text[OF rt, of "\<lambda>c. c \<noteq> CHR '']''"] by (simp add: t p)
    then show ?thesis by (simp add: n p)
  qed
  show ?case
  proof (rule exI[of _ "[]"], intro conjI allI impI)
    show "write_array fmt h [] = Some []" by simp
    show "shown_list h [] \<noteq> None" by simp
    fix h' and rd :: json_reader and doc pre post n acc
    assume "reads_text h' (src rd) doc \<and> doc = pre @ [] @ CHR '']'' # post \<and>
       pos rd = length pre \<and> 2 * length ([] :: char list) + 2 \<le> n"
    then show "\<exists>vs. parse_array_loop n h' rd acc
          = Inr (Array (acc @ vs), rd\<lparr>pos := length pre + length ([] :: char list) + 1\<rparr>) \<and>
          shown_list h' vs = shown_list h []"
      using base[of h' rd doc pre post n acc] by auto
  qed
next
  case (Cons x xs)
  from Cons.prems have rb: "reads_back fmt h x" and px: "plain h x"
    and rbs: "\<forall>x\<in>set xs. reads_back fmt h x" and pxs: "plain_list h xs" by simp_all
  from reads_backD[OF rb px] obtain tx where
    wx: "write_node fmt h x = Some tx" and sx: "shown h x \<noteq> None"
    and rx: "\<And>h' rd doc pre post n.
           reads_text h' (src rd) doc \<Longrightarrow> doc = pre @ tx @ post \<Longrightarrow> pos rd = length pre \<Longrightarrow>
           post = [] \<or> \<not> number_char (hd post) \<Longrightarrow> 2 * length tx + 1 \<le> n \<Longrightarrow>
           \<exists>v'. parse_value n h' rd = Inr (v', rd\<lparr>pos := length pre + length tx\<rparr>) \<and>
                 shown h' v' = shown h x"
    by blast
  from Cons.IH[OF rbs pxs] obtain ts where
    ws: "write_array fmt h xs = Some ts" and ss: "shown_list h xs \<noteq> None"
    and rs: "\<And>h' rd doc pre post n acc.
        reads_text h' (src rd) doc \<Longrightarrow> doc = pre @ ts @ CHR '']'' # post \<Longrightarrow> pos rd = length pre \<Longrightarrow>
        2 * length ts + 2 \<le> n \<Longrightarrow>
        \<exists>vs. parse_array_loop n h' rd acc
                 = Inr (Array (acc @ vs), rd\<lparr>pos := length pre + length ts + 1\<rparr>) \<and>
              shown_list h' vs = shown_list h xs"
    by blast
  let ?sep = "if xs = [] then [] else '',''"
  let ?t = "tx @ ?sep @ ts"
  have w: "write_array fmt h (x # xs) = Some ?t" using wx ws by simp
  have sh: "shown_list h (x # xs) \<noteq> None" using sx ss by (auto split: option.splits)
  from write_starts[OF px wx] have txne: "tx \<noteq> []" and txs: "starter (hd tx)" by simp_all
  have tsne: "xs \<noteq> [] \<Longrightarrow> ts \<noteq> [] \<and> starter (hd ts)"
    using write_array_starts[OF pxs ws] by simp
  have tsnil: "xs = [] \<Longrightarrow> ts = []" using ws by simp
  have step: "\<exists>vs. parse_array_loop n h' rd acc
                 = Inr (Array (acc @ vs), rd\<lparr>pos := length pre + length ?t + 1\<rparr>) \<and>
              shown_list h' vs = shown_list h (x # xs)"
    if rt: "reads_text h' (src rd) doc" and t: "doc = pre @ ?t @ CHR '']'' # post"
      and p: "pos rd = length pre" and f: "2 * length ?t + 2 \<le> n" for h' rd doc pre post n acc
  proof -
    obtain n' where n: "n = Suc n'" using f by (cases n) auto
    let ?post = "?sep @ ts @ CHR '']'' # post"
    have t1: "doc = pre @ tx @ ?post" using t by simp
    have c0: "doc ! length pre = hd tx" unfolding t1 using txne by (rule hd_append_starter)
    have a: "at_pos h' rd (\<lambda>c. c \<noteq> CHR '']'') = Some True"
      using at_pos_text[OF rt, of "\<lambda>c. c \<noteq> CHR '']''"] c0 starter_facts(2)[OF txs] txne
      by (simp add: t1 p)
    have hp: "\<not> number_char (hd ?post)"
      using tsnil by (cases "xs = []") (simp_all add: not_number_char_structural)
    have fx: "2 * length tx + 1 \<le> n'" using f n by simp
    from rx[OF rt t1 p _ fx] hp obtain v' where
      v: "parse_value n' h' rd = Inr (v', rd\<lparr>pos := length pre + length tx\<rparr>)"
      and sv: "shown h' v' = shown h x" by blast
    let ?rd1 = "rd\<lparr>pos := length pre + length tx\<rparr>"
    let ?rd2 = "rd\<lparr>pos := length pre + length tx + length ?sep\<rparr>"
    have rt1: "reads_text h' (src ?rd1) doc" using rt by simp
    have c1: "doc ! (length pre + length tx) = hd ?post"
      using hd_append_starter[of ?post "pre @ tx" "[]"] by (simp add: t1)
    have oc: "optional_comma h' ?rd1 = Some ?rd2"
      using at_pos_text[OF rt1, of "\<lambda>c. c = CHR '',''"] c1 tsnil
      by (cases "xs = []") (simp_all add: optional_comma_def t1)
    have rt2: "reads_text h' (src ?rd2) doc" using rt by simp
    let ?pre2 = "pre @ tx @ ?sep"
    have t2: "doc = ?pre2 @ ts @ CHR '']'' # post" using t by simp
    have p2: "pos ?rd2 = length ?pre2" by simp
    have lp2: "length ?pre2 = length pre + length tx + length ?sep" by simp
    have "doc ! length ?pre2 = hd (ts @ CHR '']'' # post)"
      by (subst t2) (rule nth_length_append, simp)
    then have c2: "doc ! pos ?rd2 = hd (ts @ CHR '']'' # post)"
      unfolding lp2 by simp
    have ns: "\<not> isspace (doc ! pos ?rd2)"
    proof (cases "xs = []")
      case True
      with c2 tsnil show ?thesis by (simp add: open_bracket_not_space)
    next
      case False
      with tsne have "ts \<noteq> []" "starter (hd ts)" by simp_all
      with c2 show ?thesis by (simp add: starter_facts(1))
    qed
    have sk: "skip_whitespace h' ?rd2 = Inr ?rd2"
      using rt2 ns by (intro skip_whitespace_stay) auto
    have fs: "2 * length ts + 2 \<le> n'" using f n txne by (cases tx) auto
    from rs[OF rt2 t2 p2 fs, of "acc @ [v']"] obtain vs where
      l: "parse_array_loop n' h' ?rd2 (acc @ [v']) =
            Inr (Array ((acc @ [v']) @ vs), ?rd2\<lparr>pos := length ?pre2 + length ts + 1\<rparr>)"
      and sl: "shown_list h' vs = shown_list h xs" by blast
    have "parse_array_loop n h' rd acc
        = Inr (Array (acc @ v' # vs), rd\<lparr>pos := length pre + length ?t + 1\<rparr>)"
      using a v oc sk l by (simp add: n)
    moreover have "shown_list h' (v' # vs) = shown_list h (x # xs)" using sv sl by simp
    ultimately show ?thesis by blast
  qed
  from w sh step show ?case by blast
qed

section \<open>Reading back the entries of an object\<close>

lemma obj_assign_append:
  "entry_views h m = Some em \<Longrightarrow> string_view h k = Some kb \<Longrightarrow>
   \<forall>a\<in>set (map fst em). bytes_less a kb \<Longrightarrow> obj_assign h k v m = Some (m @ [(k, v)])"
proof (induction m arbitrary: em)
  case Nil
  then show ?case by simp
next
  case (Cons e m)
  obtain k' v' where e: "e = (k', v')" by (cases e)
  from Cons.prems(1) e obtain kb' em' where
    k': "string_view h k' = Some kb'" and m: "entry_views h m = Some em'"
    and em: "em = (kb', v') # em'"
    by (auto split: option.splits)
  from Cons.prems(3) em have l: "bytes_less kb' kb" and r: "\<forall>a\<in>set (map fst em'). bytes_less a kb"
    by simp_all
  from l have nl: "\<not> bytes_less kb kb'" by (rule bytes_less_asym)
  from Cons.IH[OF m Cons.prems(2) r] l nl show ?case
    by (simp add: e cow_less_view[OF Cons.prems(2) k'] cow_less_view[OF k' Cons.prems(2)])
qed

lemma entry_views_snoc:
  "entry_views h m = Some em \<Longrightarrow> string_view h k = Some kb \<Longrightarrow>
   entry_views h (m @ [(k, v)]) = Some (em @ [(kb, v)])"
proof (induction m arbitrary: em)
  case Nil
  then show ?case by simp
next
  case (Cons e m)
  obtain k' v' where e: "e = (k', v')" by (cases e)
  from Cons.prems(1) e obtain kb' em' where
    "string_view h k' = Some kb'" "entry_views h m = Some em'" "em = (kb', v') # em'"
    by (auto split: option.splits)
  with Cons.IH[OF _ Cons.prems(2)] show ?case by (simp add: e)
qed

lemma write_object_starts:
  assumes "write_object fmt h kvs = Some t" and "kvs \<noteq> []"
  shows "t \<noteq> [] \<and> hd t = CHR 0x22"
proof (cases kvs)
  case Nil
  with assms(2) show ?thesis by simp
next
  case (Cons e kvs')
  obtain k v where "e = (k, v)" by (cases e)
  with Cons assms(1) show ?thesis by (auto split: option.splits)
qed

text \<open>The loop of \<open>parse_object\<close> over the text of the entries.\<close>

lemma read_entries:
  assumes "\<forall>e\<in>set kvs. reads_back fmt h (snd e)" and "plain_entries h kvs"
    and "entry_views h kvs = Some es" and "sorted_wrt bytes_less (map fst es)"
  shows "\<exists>t. write_object fmt h kvs = Some t \<and> shown_entries h kvs \<noteq> None \<and>
     (\<forall>h' rd doc pre post n acc eacc.
        reads_text h' (src rd) doc \<and> doc = pre @ t @ CHR ''}'' # post \<and> pos rd = length pre \<and>
        2 * length t + 2 \<le> n \<and> entry_views h' acc = Some eacc \<and>
        (\<forall>a\<in>set (map fst eacc). \<forall>b\<in>set (map fst es). bytes_less a b) \<longrightarrow>
        (\<exists>m. parse_object_loop n h' rd acc
                 = Inr (Object (acc @ m), rd\<lparr>pos := length pre + length t + 1\<rparr>) \<and>
             shown_entries h' m = shown_entries h kvs))"
  using assms
proof (induction kvs arbitrary: es)
  case Nil
  have base: "\<exists>m. parse_object_loop n h' rd acc = Inr (Object (acc @ m), rd\<lparr>pos := length pre + 0 + 1\<rparr>)
            \<and> shown_entries h' m = shown_entries h []"
    if rt: "reads_text h' (src rd) doc" and t: "doc = pre @ CHR ''}'' # post"
      and p: "pos rd = length pre" and f: "2 \<le> n" for h' rd doc pre post n acc
  proof -
    obtain n' where n: "n = Suc n'" using f by (cases n) auto
    have "at_pos h' rd (\<lambda>c. c \<noteq> CHR ''}'') = Some False"
      using at_pos_text[OF rt, of "\<lambda>c. c \<noteq> CHR ''}''"] by (simp add: t p)
    then show ?thesis by (simp add: n p)
  qed
  show ?case
  proof (rule exI[of _ "[]"], intro conjI allI impI)
    show "write_object fmt h [] = Some []" by simp
    show "shown_entries h [] \<noteq> None" by simp
    fix h' and rd :: json_reader and doc pre post n acc
      and eacc :: "(char list \<times> Value) list"
    assume "reads_text h' (src rd) doc \<and> doc = pre @ [] @ CHR ''}'' # post \<and>
       pos rd = length pre \<and> 2 * length ([] :: char list) + 2 \<le> n \<and>
       entry_views h' acc = Some eacc \<and>
       (\<forall>a\<in>set (map fst eacc). \<forall>b\<in>set (map fst es). bytes_less a b)"
    then show "\<exists>m. parse_object_loop n h' rd acc
          = Inr (Object (acc @ m), rd\<lparr>pos := length pre + length ([] :: char list) + 1\<rparr>) \<and>
          shown_entries h' m = shown_entries h []"
      using base[of h' rd doc pre post n acc] by auto
  qed
next
  case (Cons e kvs)
  obtain k v where e: "e = (k, v)" by (cases e)
  from Cons.prems(1,2) e have rb: "reads_back fmt h v" and pv: "plain h v" and pk: "plain_key h k"
    and rbs: "\<forall>e\<in>set kvs. reads_back fmt h (snd e)" and pxs: "plain_entries h kvs"
    by simp_all
  from Cons.prems(3) e obtain kb es' where
    vk: "string_view h k = Some kb" and ev: "entry_views h kvs = Some es'"
    and es: "es = (kb, v) # es'"
    by (auto split: option.splits)
  from Cons.prems(4) es have kless: "\<forall>b\<in>set (map fst es'). bytes_less kb b"
    and so: "sorted_wrt bytes_less (map fst es')" by simp_all
  from pk vk have q: "CHR 0x22 \<notin> set kb" by (simp add: plain_key_def)
  from reads_backD[OF rb pv] obtain tv where
    wv: "write_node fmt h v = Some tv" and sv0: "shown h v \<noteq> None"
    and rv: "\<And>h' rd txt pre post n.
           reads_text h' (src rd) txt \<Longrightarrow> txt = pre @ tv @ post \<Longrightarrow> pos rd = length pre \<Longrightarrow>
           post = [] \<or> \<not> number_char (hd post) \<Longrightarrow> 2 * length tv + 1 \<le> n \<Longrightarrow>
           \<exists>v'. parse_value n h' rd = Inr (v', rd\<lparr>pos := length pre + length tv\<rparr>) \<and>
                 shown h' v' = shown h v"
    by blast
  from Cons.IH[OF rbs pxs ev so] obtain ts where
    ws: "write_object fmt h kvs = Some ts" and ss: "shown_entries h kvs \<noteq> None"
    and rs: "\<And>h' rd txt pre post n acc eacc.
        reads_text h' (src rd) txt \<Longrightarrow> txt = pre @ ts @ CHR ''}'' # post \<Longrightarrow> pos rd = length pre \<Longrightarrow>
        2 * length ts + 2 \<le> n \<Longrightarrow> entry_views h' acc = Some eacc \<Longrightarrow>
        \<forall>a\<in>set (map fst eacc). \<forall>b\<in>set (map fst es'). bytes_less a b \<Longrightarrow>
        \<exists>m. parse_object_loop n h' rd acc
                 = Inr (Object (acc @ m), rd\<lparr>pos := length pre + length ts + 1\<rparr>) \<and>
             shown_entries h' m = shown_entries h kvs"
    by blast
  let ?sep = "if kvs = [] then [] else '',''"
  let ?key = "CHR 0x22 # kb @ [CHR 0x22]"
  let ?t = "?key @ CHR '':'' # tv @ ?sep @ ts"
  have w: "write_object fmt h (e # kvs) = Some ?t" using vk wv ws by (simp add: e)
  have sh: "shown_entries h (e # kvs) \<noteq> None"
    using vk sv0 ss by (auto simp: e split: option.splits)
  have tsne: "kvs \<noteq> [] \<Longrightarrow> ts \<noteq> [] \<and> hd ts = CHR 0x22"
    using write_object_starts[OF ws] by simp
  have tsnil: "kvs = [] \<Longrightarrow> ts = []" using ws by simp
  have step: "\<exists>m. parse_object_loop n h' rd acc
                 = Inr (Object (acc @ m), rd\<lparr>pos := length pre + length ?t + 1\<rparr>) \<and>
             shown_entries h' m = shown_entries h (e # kvs)"
    if rt: "reads_text h' (src rd) doc" and t: "doc = pre @ ?t @ CHR ''}'' # post"
      and p: "pos rd = length pre" and f: "2 * length ?t + 2 \<le> n"
      and ea: "entry_views h' acc = Some eacc"
      and less: "\<forall>a\<in>set (map fst eacc). \<forall>b\<in>set (map fst es). bytes_less a b"
    for h' rd doc pre post n acc eacc
  proof -
    obtain n'' where n: "n = Suc (Suc n'')" using f by (cases n; cases "n - 1") auto
    let ?postv = "?sep @ ts @ CHR ''}'' # post"
    let ?postk = "CHR '':'' # tv @ ?postv"
    have tk: "doc = pre @ ?key @ ?postk" using t by simp
    have a: "at_pos h' rd (\<lambda>c. c \<noteq> CHR ''}'') = Some True"
      using at_pos_text[OF rt, of "\<lambda>c. c \<noteq> CHR ''}''"] by (simp add: tk p nth_append)
    from read_string[OF rt tk p q, of n''] obtain s where
      key: "parse_value (Suc n'') h' rd = Inr (String s, rd\<lparr>pos := length pre + (length kb + 2)\<rparr>)"
      and vs: "string_view h' s = Some kb" by blast
    let ?rd1 = "rd\<lparr>pos := length pre + (length kb + 2)\<rparr>"
    have rt1: "reads_text h' (src ?rd1) doc" using rt by simp
    let ?prek = "pre @ ?key"
    have "doc ! length ?prek = hd ?postk"
      by (subst tk, subst append_assoc[symmetric]) (rule nth_length_append, simp)
    then have c1: "doc ! (length pre + (length kb + 2)) = CHR '':''" by simp
    have lt1: "length pre + (length kb + 2) < length doc" by (simp add: tk)
    have colon: "at_pos h' ?rd1 (\<lambda>c. c = CHR '':'') = Some True"
      using at_pos_text[OF rt1, of "\<lambda>c. c = CHR '':''"] c1 lt1 by simp
    let ?prev = "pre @ ?key @ [CHR '':'']"
    let ?rd1' = "rd\<lparr>pos := length ?prev\<rparr>"
    have rt1': "reads_text h' (src ?rd1') doc" using rt by simp
    have tv: "doc = ?prev @ tv @ ?postv" using t by simp
    have hp: "?postv = [] \<or> \<not> number_char (hd ?postv)"
      using tsnil by (cases "kvs = []") (simp_all add: not_number_char_structural)
    have fv: "2 * length tv + 1 \<le> Suc n''" using f n by simp
    from rv[OF rt1' tv _ hp fv] obtain v' where
      val: "parse_value (Suc n'') h' ?rd1' = Inr (v', ?rd1'\<lparr>pos := length ?prev + length tv\<rparr>)"
      and sv: "shown h' v' = shown h v" by auto
    let ?rd2 = "rd\<lparr>pos := length ?prev + length tv\<rparr>"
    let ?rd3 = "rd\<lparr>pos := length ?prev + length tv + length ?sep\<rparr>"
    have rt2: "reads_text h' (src ?rd2) doc" using rt by simp
    have "doc ! length (?prev @ tv) = hd ?postv"
      by (subst tv, subst append_assoc[symmetric]) (rule nth_length_append, simp)
    then have c2: "doc ! (length ?prev + length tv) = hd ?postv" by (simp add: add.assoc)
    have lt2: "length ?prev + length tv < length doc" by (simp add: tk)
    have oc: "optional_comma h' ?rd2 = Some ?rd3"
      using at_pos_text[OF rt2, of "\<lambda>c. c = CHR '',''"] c2 lt2 tsnil
      by (cases "kvs = []") (simp_all add: optional_comma_def)
    have rt3: "reads_text h' (src ?rd3) doc" using rt by simp
    let ?pre3 = "?prev @ tv @ ?sep"
    have t3: "doc = ?pre3 @ ts @ CHR ''}'' # post" using t by simp
    have lp3: "length ?pre3 = length ?prev + length tv + length ?sep" by simp
    have p3: "pos ?rd3 = length ?pre3" by simp
    have "doc ! length ?pre3 = hd (ts @ CHR ''}'' # post)"
      by (subst t3) (rule nth_length_append, simp)
    then have c3: "doc ! pos ?rd3 = hd (ts @ CHR ''}'' # post)"
      unfolding lp3 by simp
    have ns: "\<not> isspace (doc ! pos ?rd3)"
    proof (cases "kvs = []")
      case True
      with c3 tsnil show ?thesis by (simp add: open_bracket_not_space)
    next
      case False
      with tsne have "ts \<noteq> []" "hd ts = CHR 0x22" by simp_all
      with c3 show ?thesis by (simp add: open_bracket_not_space)
    qed
    have sk: "skip_whitespace h' ?rd3 = Inr ?rd3"
      using rt3 ns by (intro skip_whitespace_stay) auto
    have lk: "\<forall>a\<in>set (map fst eacc). bytes_less a kb" using less es by simp
    have assign: "obj_assign h' s v' acc = Some (acc @ [(s, v')])"
      using ea vs lk by (rule obj_assign_append)
    have ea': "entry_views h' (acc @ [(s, v')]) = Some (eacc @ [(kb, v')])"
      using ea vs by (rule entry_views_snoc)
    have less': "\<forall>a\<in>set (map fst (eacc @ [(kb, v')])). \<forall>b\<in>set (map fst es'). bytes_less a b"
      using less kless es by auto
    have fs: "2 * length ts + 2 \<le> Suc n''" using f n by simp
    from rs[OF rt3 t3 p3 fs ea' less'] obtain m where
      l: "parse_object_loop (Suc n'') h' ?rd3 (acc @ [(s, v')]) =
            Inr (Object ((acc @ [(s, v')]) @ m), ?rd3\<lparr>pos := length ?pre3 + length ts + 1\<rparr>)"
      and sl: "shown_entries h' m = shown_entries h kvs" by blast
    have "parse_object_loop n h' rd acc
        = Inr (Object (acc @ (s, v') # m), rd\<lparr>pos := length pre + length ?t + 1\<rparr>)"
      using a key colon val oc sk assign l
      by (simp add: n del: parse_value.simps parse_array_loop.simps
          parse_object_loop.simps(1))
    moreover have "shown_entries h' ((s, v') # m) = shown_entries h (e # kvs)"
      using vs vk sv sl by (simp add: e)
    ultimately show ?thesis by blast
  qed
  from w sh step show ?case by blast
qed

section \<open>Every plain tree is read back\<close>

lemma all_reads_back: "reads_back fmt h v"
proof (induction v)
  case Null
  have "\<exists>v'. parse_value n h' rd = Inr (v', rd\<lparr>pos := length pre + length ''null''\<rparr>) \<and>
             shown h' v' = shown h Null"
    if "reads_text h' (src rd) doc" and "doc = pre @ ''null'' @ post" and "pos rd = length pre"
      and f: "2 * length ''null'' + 1 \<le> n" for h' rd doc pre post n
  proof -
    obtain n' where n: "n = Suc n'" using f by (cases n) auto
    from read_null[OF that(1-3), of n'] show ?thesis by (simp add: n)
  qed
  then show ?case unfolding reads_back_def by (simp del: parse_value.simps) blast
next
  case (Bool b)
  show ?case
  proof (cases b)
    case True
    have "\<exists>v'. parse_value n h' rd = Inr (v', rd\<lparr>pos := length pre + length ''true''\<rparr>) \<and>
               shown h' v' = shown h (Bool True)"
      if "reads_text h' (src rd) doc" and "doc = pre @ ''true'' @ post" and "pos rd = length pre"
        and f: "2 * length ''true'' + 1 \<le> n" for h' rd doc pre post n
    proof -
      obtain n' where n: "n = Suc n'" using f by (cases n) auto
      from read_true[OF that(1-3), of n'] show ?thesis by (simp add: n)
    qed
    with True show ?thesis unfolding reads_back_def
      by (simp del: parse_value.simps) blast
  next
    case False
    have "\<exists>v'. parse_value n h' rd = Inr (v', rd\<lparr>pos := length pre + length ''false''\<rparr>) \<and>
               shown h' v' = shown h (Bool False)"
      if "reads_text h' (src rd) doc" and "doc = pre @ ''false'' @ post" and "pos rd = length pre"
        and f: "2 * length ''false'' + 1 \<le> n" for h' rd doc pre post n
    proof -
      obtain n' where n: "n = Suc n'" using f by (cases n) auto
      from read_false[OF that(1-3), of n'] show ?thesis by (simp add: n)
    qed
    with False show ?thesis unfolding reads_back_def
      by (simp del: parse_value.simps) blast
  qed
next
  case (Integer i)
  show ?case unfolding reads_back_def
  proof (intro impI)
    assume "plain h (Integer i)"
    then have i0: "0 \<le> i" and i1: "i < 2 ^ 63" by simp_all
    let ?t = "digits (nat i)"
    have w: "write_node fmt h (Integer i) = Some ?t" using i0 by (simp add: show_int_def)
    have m: "nat i < 2 ^ 63" using i0 i1 by (simp add: nat_less_iff)
    have "\<exists>v'. parse_value n h' rd = Inr (v', rd\<lparr>pos := length pre + length ?t\<rparr>) \<and>
               shown h' v' = shown h (Integer i)"
      if "reads_text h' (src rd) doc" and "doc = pre @ ?t @ post" and "pos rd = length pre"
        and "post = [] \<or> \<not> number_char (hd post)" and f: "2 * length ?t + 1 \<le> n"
      for h' rd doc pre post n
    proof -
      obtain n' where n: "n = Suc n'" using f by (cases n) auto
      from read_digits[OF that(1-4) m, of n'] i0 show ?thesis by (simp add: n)
    qed
    with w show "\<exists>t. write_node fmt h (Integer i) = Some t \<and> shown h (Integer i) \<noteq> None \<and>
       (\<forall>h' rd txt pre post n.
           reads_text h' (src rd) txt \<and> txt = pre @ t @ post \<and> pos rd = length pre \<and>
           (post = [] \<or> \<not> number_char (hd post)) \<and> 2 * length t + 1 \<le> n \<longrightarrow>
           (\<exists>v'. parse_value n h' rd = Inr (v', rd\<lparr>pos := length pre + length t\<rparr>) \<and>
                 shown h' v' = shown h (Integer i)))"
      by (intro exI[of _ ?t]) (simp del: parse_value.simps, blast)
  qed
next
  case (Float q)
  show ?case by (simp add: reads_back_def)
next
  case (String s)
  show ?case unfolding reads_back_def
  proof (intro impI)
    assume "plain h (String s)"
    then have ps: "plain_string h s" by simp
    from write_string_plain[OF ps, of fmt] obtain w where
      v: "string_view h s = Some w" and q: "CHR 0x22 \<notin> set w"
      and wr: "write_node fmt h (String s) = Some (CHR 0x22 # w @ [CHR 0x22])" by blast
    let ?t = "CHR 0x22 # w @ [CHR 0x22]"
    have "\<exists>v'. parse_value n h' rd = Inr (v', rd\<lparr>pos := length pre + length ?t\<rparr>) \<and>
               shown h' v' = shown h (String s)"
      if "reads_text h' (src rd) doc" and "doc = pre @ ?t @ post" and "pos rd = length pre"
        and f: "2 * length ?t + 1 \<le> n"
      for h' rd doc pre post n
    proof -
      obtain n' where n: "n = Suc n'" using f by (cases n) auto
      from read_string[OF that(1-3) q, of n'] v show ?thesis by (auto simp: n)
    qed
    with wr v show "\<exists>t. write_node fmt h (String s) = Some t \<and> shown h (String s) \<noteq> None \<and>
       (\<forall>h' rd txt pre post n.
           reads_text h' (src rd) txt \<and> txt = pre @ t @ post \<and> pos rd = length pre \<and>
           (post = [] \<or> \<not> number_char (hd post)) \<and> 2 * length t + 1 \<le> n \<longrightarrow>
           (\<exists>v'. parse_value n h' rd = Inr (v', rd\<lparr>pos := length pre + length t\<rparr>) \<and>
                 shown h' v' = shown h (String s)))"
      by (intro exI[of _ ?t]) (simp del: parse_value.simps, blast)
  qed
next
  case (Array xs)
  show ?case unfolding reads_back_def
  proof (intro impI)
    assume "plain h (Array xs)"
    then have pl: "plain_list h xs" by simp
    from Array.IH have "\<forall>x\<in>set xs. reads_back fmt h x" by blast
    from read_elements[OF this pl] obtain te where
      we: "write_array fmt h xs = Some te" and se: "shown_list h xs \<noteq> None"
      and re: "\<And>h' rd txt pre post n acc.
        reads_text h' (src rd) txt \<Longrightarrow> txt = pre @ te @ CHR '']'' # post \<Longrightarrow> pos rd = length pre \<Longrightarrow>
        2 * length te + 2 \<le> n \<Longrightarrow>
        \<exists>vs. parse_array_loop n h' rd acc
                 = Inr (Array (acc @ vs), rd\<lparr>pos := length pre + length te + 1\<rparr>) \<and>
              shown_list h' vs = shown_list h xs"
      by blast
    let ?t = "CHR ''['' # te @ '']''"
    have w: "write_node fmt h (Array xs) = Some ?t" using we by simp
    have sh: "shown h (Array xs) \<noteq> None" using se by simp
    have tene: "xs \<noteq> [] \<Longrightarrow> te \<noteq> [] \<and> starter (hd te)"
      using write_array_starts[OF pl we] by simp
    have tenil: "xs = [] \<Longrightarrow> te = []" using we by simp
    have "\<exists>v'. parse_value n h' rd = Inr (v', rd\<lparr>pos := length pre + length ?t\<rparr>) \<and>
               shown h' v' = shown h (Array xs)"
      if rt: "reads_text h' (src rd) doc" and t: "doc = pre @ ?t @ post" and p: "pos rd = length pre"
        and f: "2 * length ?t + 1 \<le> n"
      for h' rd doc pre post n
    proof -
      obtain n' where n: "n = Suc n'" using f by (cases n) auto
      have lt: "pos rd < length doc" and c: "doc ! pos rd = CHR ''[''"
        by (simp_all add: t p nth_append)
      have d: "parse_value (Suc n') h' rd = parse_array n' h' rd"
        using parse_value_dispatch[OF rt lt, of n'] c
        by (simp add: open_bracket_not_space Let_def del: parse_value.simps parse_array.simps)
      let ?rd1 = "rd\<lparr>pos := pos rd + 1\<rparr>"
      let ?pre1 = "pre @ ''[''"
      have rt1: "reads_text h' (src ?rd1) doc" using rt by simp
      have t1: "doc = ?pre1 @ te @ CHR '']'' # post" using t by simp
      have p1: "pos ?rd1 = length ?pre1" using p by simp
      have "doc ! length ?pre1 = hd (te @ CHR '']'' # post)"
        by (subst t1) (rule nth_length_append, simp)
      then have c1: "doc ! pos ?rd1 = hd (te @ CHR '']'' # post)" using p by simp
      have ns: "\<not> isspace (doc ! pos ?rd1)"
      proof (cases "xs = []")
        case True
        with c1 tenil show ?thesis by (simp add: open_bracket_not_space)
      next
        case False
        with tene have "te \<noteq> []" "starter (hd te)" by simp_all
        with c1 show ?thesis by (simp add: starter_facts(1))
      qed
      have sk: "skip_whitespace h' ?rd1 = Inr ?rd1"
        using rt1 ns by (intro skip_whitespace_stay) auto
      have fe: "2 * length te + 2 \<le> n'" using f n by simp
      from re[OF rt1 t1 p1 fe, of "[]"] obtain vs where
        l: "parse_array_loop n' h' ?rd1 [] =
              Inr (Array vs, ?rd1\<lparr>pos := length ?pre1 + length te + 1\<rparr>)"
        and sl: "shown_list h' vs = shown_list h xs" by auto
      have "parse_value n h' rd = Inr (Array vs, rd\<lparr>pos := length pre + length ?t\<rparr>)"
        using d sk l by (simp add: n del: parse_value.simps)
      with sl show ?thesis by auto
    qed
    with w sh show "\<exists>t. write_node fmt h (Array xs) = Some t \<and> shown h (Array xs) \<noteq> None \<and>
       (\<forall>h' rd txt pre post n.
           reads_text h' (src rd) txt \<and> txt = pre @ t @ post \<and> pos rd = length pre \<and>
           (post = [] \<or> \<not> number_char (hd post)) \<and> 2 * length t + 1 \<le> n \<longrightarrow>
           (\<exists>v'. parse_value n h' rd = Inr (v', rd\<lparr>pos := length pre + length t\<rparr>) \<and>
                 shown h' v' = shown h (Array xs)))"
      by (intro exI[of _ ?t]) (simp del: parse_value.simps, blast)
  qed
next
  case (Object kvs)
  show ?case unfolding reads_back_def
  proof (intro impI)
    assume "plain h (Object kvs)"
    then have pl: "plain_entries h kvs" and sk0: "sorted_keys h kvs" by simp_all
    from sk0 obtain es where ev: "entry_views h kvs = Some es"
      and so: "sorted_wrt bytes_less (map fst es)"
      by (auto simp: sorted_keys_def split: option.splits)
    have "\<forall>e\<in>set kvs. reads_back fmt h (snd e)"
    proof
      fix e assume "e \<in> set kvs"
      moreover have "snd e \<in> Basic_BNFs.snds e" by (cases e) simp
      ultimately show "reads_back fmt h (snd e)" by (rule Object.IH)
    qed
    from read_entries[OF this pl ev so] obtain te where
      we: "write_object fmt h kvs = Some te" and se: "shown_entries h kvs \<noteq> None"
      and re: "\<And>h' rd txt pre post n acc eacc.
        reads_text h' (src rd) txt \<Longrightarrow> txt = pre @ te @ CHR ''}'' # post \<Longrightarrow> pos rd = length pre \<Longrightarrow>
        2 * length te + 2 \<le> n \<Longrightarrow> entry_views h' acc = Some eacc \<Longrightarrow>
        \<forall>a\<in>set (map fst eacc). \<forall>b\<in>set (map fst es). bytes_less a b \<Longrightarrow>
        \<exists>m. parse_object_loop n h' rd acc
                 = Inr (Object (acc @ m), rd\<lparr>pos := length pre + length te + 1\<rparr>) \<and>
             shown_entries h' m = shown_entries h kvs"
      by blast
    let ?t = "CHR ''{'' # te @ ''}''"
    have w: "write_node fmt h (Object kvs) = Some ?t" using we by simp
    have sh: "shown h (Object kvs) \<noteq> None" using se by simp
    have tene: "kvs \<noteq> [] \<Longrightarrow> te \<noteq> [] \<and> hd te = CHR 0x22"
      using write_object_starts[OF we] by simp
    have tenil: "kvs = [] \<Longrightarrow> te = []" using we by simp
    have "\<exists>v'. parse_value n h' rd = Inr (v', rd\<lparr>pos := length pre + length ?t\<rparr>) \<and>
               shown h' v' = shown h (Object kvs)"
      if rt: "reads_text h' (src rd) doc" and t: "doc = pre @ ?t @ post" and p: "pos rd = length pre"
        and f: "2 * length ?t + 1 \<le> n"
      for h' rd doc pre post n
    proof -
      obtain n' where n: "n = Suc n'" using f by (cases n) auto
      have lt: "pos rd < length doc" and c: "doc ! pos rd = CHR ''{''"
        by (simp_all add: t p nth_append)
      have d: "parse_value (Suc n') h' rd = parse_object n' h' rd"
        using parse_value_dispatch[OF rt lt, of n'] c
        by (simp add: open_bracket_not_space Let_def del: parse_value.simps parse_object.simps)
      let ?rd1 = "rd\<lparr>pos := pos rd + 1\<rparr>"
      let ?pre1 = "pre @ ''{''"
      have rt1: "reads_text h' (src ?rd1) doc" using rt by simp
      have t1: "doc = ?pre1 @ te @ CHR ''}'' # post" using t by simp
      have p1: "pos ?rd1 = length ?pre1" using p by simp
      have "doc ! length ?pre1 = hd (te @ CHR ''}'' # post)"
        by (subst t1) (rule nth_length_append, simp)
      then have c1: "doc ! pos ?rd1 = hd (te @ CHR ''}'' # post)" using p by simp
      have ns: "\<not> isspace (doc ! pos ?rd1)"
      proof (cases "kvs = []")
        case True
        with c1 tenil show ?thesis by (simp add: open_bracket_not_space)
      next
        case False
        with tene have "te \<noteq> []" "hd te = CHR 0x22" by simp_all
        with c1 show ?thesis by (simp add: open_bracket_not_space)
      qed
      have sk: "skip_whitespace h' ?rd1 = Inr ?rd1"
        using rt1 ns by (intro skip_whitespace_stay) auto
      have fe: "2 * length te + 2 \<le> n'" using f n by simp
      have e0: "entry_views h' ([] :: (cow_string \<times> Value) list) = Some []" by simp
      from re[OF rt1 t1 p1 fe e0] obtain m where
        l: "parse_object_loop n' h' ?rd1 [] =
              Inr (Object m, ?rd1\<lparr>pos := length ?pre1 + length te + 1\<rparr>)"
        and sl: "shown_entries h' m = shown_entries h kvs" by auto
      have "parse_value n h' rd = Inr (Object m, rd\<lparr>pos := length pre + length ?t\<rparr>)"
        using d sk l by (simp add: n del: parse_value.simps)
      with sl show ?thesis by auto
    qed
    with w sh show "\<exists>t. write_node fmt h (Object kvs) = Some t \<and> shown h (Object kvs) \<noteq> None \<and>
       (\<forall>h' rd txt pre post n.
           reads_text h' (src rd) txt \<and> txt = pre @ t @ post \<and> pos rd = length pre \<and>
           (post = [] \<or> \<not> number_char (hd post)) \<and> 2 * length t + 1 \<le> n \<longrightarrow>
           (\<exists>v'. parse_value n h' rd = Inr (v', rd\<lparr>pos := length pre + length t\<rparr>) \<and>
                 shown h' v' = shown h (Object kvs)))"
      by (intro exI[of _ ?t]) (simp del: parse_value.simps, blast)
  qed
qed

lemma digits_10: "digits 10 = ''10''"
  by (simp add: digits.simps[of 10] digits.simps[of "Suc 0"] digit_char_def)

text \<open>
  The writer puts no escape before a quote inside a string, and the reader ends a string at
  the first quote: the string of the three bytes \<open>a"b\<close> is read back as \<open>a\<close>.
\<close>

lemma quote_not_read_back:
  "write_node fmt quote_heap quote_string = Some [CHR 0x22, CHR ''a'', CHR 0x22, CHR ''b'', CHR 0x22]
   \<and> shown quote_heap quote_string = Some (JString [CHR ''a'', CHR 0x22, CHR ''b''])
   \<and> parse_text [CHR 0x22, CHR ''a'', CHR 0x22, CHR ''b'', CHR 0x22]
       = Inr (String \<lparr>storage = 0, offset = 1, length' = 1\<rparr>)
   \<and> shown (heap_of_text [CHR 0x22, CHR ''a'', CHR 0x22, CHR ''b'', CHR 0x22])
         (String \<lparr>storage = 0, offset = 1, length' = 1\<rparr>) = Some (JString ''a'')"
  by (simp add: quote_heap_def quote_string_def heap_of_text_def c_str_def copy_def run_simps)

section \<open>More fuel changes nothing\<close>

lemma parse_array_loop_more_fuel_step:
  assumes v0: "\<forall>rd. parse_value n h rd \<noteq> Inl Out_of_fuel \<longrightarrow>
                  parse_value (Suc n) h rd = parse_value n h rd"
    and l0: "\<forall>rd arr. parse_array_loop n h rd arr \<noteq> Inl Out_of_fuel \<longrightarrow>
                  parse_array_loop (Suc n) h rd arr = parse_array_loop n h rd arr"
    and r: "parse_array_loop (Suc n) h rd arr \<noteq> Inl Out_of_fuel"
  shows "parse_array_loop (Suc (Suc n)) h rd arr = parse_array_loop (Suc n) h rd arr"
proof (cases "at_pos h rd (\<lambda>c. c \<noteq> CHR '']'')")
  case None
  then show ?thesis by (simp del: parse_value.simps)
next
  case (Some b)
  show ?thesis
  proof (cases b)
    case False
    with Some show ?thesis by (simp del: parse_value.simps)
  next
    case True
    from Some True have a: "at_pos h rd (\<lambda>c. c \<noteq> CHR '']'') = Some True" by simp
    show ?thesis
    proof (cases "parse_value n h rd")
      case (Inl e)
      with r a have "e \<noteq> Out_of_fuel" by auto
      with Inl v0 have "parse_value (Suc n) h rd = Inl e" by auto
      with Inl a show ?thesis
        by (simp add: parse_array_loop.simps(2)[of "Suc n"] parse_array_loop.simps(2)[of n]
            del: parse_value.simps parse_array_loop.simps)
    next
      case (Inr p)
      obtain x rd1 where p: "p = (x, rd1)" by (cases p)
      from Inr v0 have v: "parse_value (Suc n) h rd = Inr (x, rd1)" by (auto simp: p)
      show ?thesis
      proof (cases "optional_comma h rd1")
        case None
        with Inr v a show ?thesis
          by (simp add: p parse_array_loop.simps(2)[of "Suc n"] parse_array_loop.simps(2)[of n]
              del: parse_value.simps parse_array_loop.simps)
      next
        case (Some rd2)
        show ?thesis
        proof (cases "skip_whitespace h rd2")
          case (Inl e)
          with Inr v a Some show ?thesis
            by (simp add: p parse_array_loop.simps(2)[of "Suc n"] parse_array_loop.simps(2)[of n]
                del: parse_value.simps parse_array_loop.simps)
        next
          case (Inr rd3)
          with r a \<open>parse_value n h rd = Inr p\<close> Some
          have "parse_array_loop n h rd3 (arr @ [x]) \<noteq> Inl Out_of_fuel"
            by (simp add: p parse_array_loop.simps(2)[of n]
                del: parse_value.simps parse_array_loop.simps)
          with l0 have "parse_array_loop (Suc n) h rd3 (arr @ [x]) = parse_array_loop n h rd3 (arr @ [x])"
            by blast
          with Inr \<open>parse_value n h rd = Inr p\<close> v a Some show ?thesis
            by (simp add: p parse_array_loop.simps(2)[of "Suc n"] parse_array_loop.simps(2)[of n]
                del: parse_value.simps parse_array_loop.simps)
        qed
      qed
    qed
  qed
qed

lemma parse_object_loop_more_fuel_step:
  assumes v0: "\<forall>rd. parse_value n h rd \<noteq> Inl Out_of_fuel \<longrightarrow>
                  parse_value (Suc n) h rd = parse_value n h rd"
    and l0: "\<forall>rd obj. parse_object_loop n h rd obj \<noteq> Inl Out_of_fuel \<longrightarrow>
                  parse_object_loop (Suc n) h rd obj = parse_object_loop n h rd obj"
    and r: "parse_object_loop (Suc n) h rd obj \<noteq> Inl Out_of_fuel"
  shows "parse_object_loop (Suc (Suc n)) h rd obj = parse_object_loop (Suc n) h rd obj"
proof (cases "at_pos h rd (\<lambda>c. c \<noteq> CHR ''}'') = Some True")
  case False
  then show ?thesis
    by (cases "at_pos h rd (\<lambda>c. c \<noteq> CHR ''}'')") (auto simp del: parse_value.simps)
next
  case a: True
  note u = parse_object_loop.simps(2)[of "Suc n"] parse_object_loop.simps(2)[of n]
  show ?thesis
  proof (cases "parse_value n h rd")
    case (Inl e)
    with r a have "e \<noteq> Out_of_fuel" by auto
    with Inl v0 have "parse_value (Suc n) h rd = Inl e" by auto
    with Inl a show ?thesis
      by (simp add: u del: parse_value.simps parse_object_loop.simps)
  next
    case (Inr p)
    obtain k rd1 where p: "p = (k, rd1)" by (cases p)
    from Inr v0 have v: "parse_value (Suc n) h rd = Inr (k, rd1)" by (auto simp: p)
    note k = Inr[unfolded p]
    show ?thesis
    proof (cases "\<exists>key. k = String key \<and> at_pos h rd1 (\<lambda>c. c = CHR '':'') = Some True")
      case False
      with k v a show ?thesis
        by (cases k; cases "at_pos h rd1 (\<lambda>c. c = CHR '':'')")
           (auto simp add: u simp del: parse_value.simps parse_object_loop.simps)
    next
      case True
      then obtain key where key: "k = String key"
        and c: "at_pos h rd1 (\<lambda>c. c = CHR '':'') = Some True" by blast
      let ?rd1 = "rd1\<lparr>pos := pos rd1 + 1\<rparr>"
      show ?thesis
      proof (cases "parse_value n h ?rd1")
        case (Inl e)
        with r a k key c have "e \<noteq> Out_of_fuel"
          by (auto simp add: u simp del: parse_value.simps parse_object_loop.simps)
        with Inl v0 have "parse_value (Suc n) h ?rd1 = Inl e" by auto
        with Inl a k v key c show ?thesis
          by (simp add: u del: parse_value.simps parse_object_loop.simps)
      next
        case (Inr q)
        obtain x rd2 where q: "q = (x, rd2)" by (cases q)
        note x = Inr[unfolded q]
        from x v0 have vx: "parse_value (Suc n) h ?rd1 = Inr (x, rd2)" by auto
        show ?thesis
        proof (cases "\<exists>rd3 rd4 obj'. optional_comma h rd2 = Some rd3 \<and>
            skip_whitespace h rd3 = Inr rd4 \<and> obj_assign h key x obj = Some obj'")
          case False
          with a k v key c x vx show ?thesis
            by (cases "optional_comma h rd2"; cases "skip_whitespace h (the (optional_comma h rd2))";
                cases "obj_assign h key x obj")
               (auto simp add: u simp del: parse_value.simps parse_object_loop.simps)
        next
          case True
          then obtain rd3 rd4 obj' where oc: "optional_comma h rd2 = Some rd3"
            and sk: "skip_whitespace h rd3 = Inr rd4"
            and oa: "obj_assign h key x obj = Some obj'" by blast
          from r a k key c x oc sk oa
          have "parse_object_loop n h rd4 obj' \<noteq> Inl Out_of_fuel"
            by (simp add: u del: parse_value.simps parse_object_loop.simps)
          with l0 have "parse_object_loop (Suc n) h rd4 obj' = parse_object_loop n h rd4 obj'"
            by blast
          with a k v key c x vx oc sk oa show ?thesis
            by (simp add: u del: parse_value.simps parse_object_loop.simps)
        qed
      qed
    qed
  qed
qed

lemma parse_value_more_fuel_step:
  assumes l0: "\<forall>rd arr. parse_array_loop n h rd arr \<noteq> Inl Out_of_fuel \<longrightarrow>
                  parse_array_loop (Suc n) h rd arr = parse_array_loop n h rd arr"
    and o0: "\<forall>rd obj. parse_object_loop n h rd obj \<noteq> Inl Out_of_fuel \<longrightarrow>
                  parse_object_loop (Suc n) h rd obj = parse_object_loop n h rd obj"
    and r: "parse_value (Suc n) h rd \<noteq> Inl Out_of_fuel"
  shows "parse_value (Suc (Suc n)) h rd = parse_value (Suc n) h rd"
proof -
  have arr: "parse_array (Suc n) h rd1 = parse_array n h rd1"
    if "parse_array n h rd1 \<noteq> Inl Out_of_fuel" for rd1
    using that l0 by (auto split: sum.splits simp del: parse_array_loop.simps)
  have obj: "parse_object (Suc n) h rd1 = parse_object n h rd1"
    if "parse_object n h rd1 \<noteq> Inl Out_of_fuel" for rd1
    using that o0 by (auto split: sum.splits simp del: parse_object_loop.simps)
  note u = parse_value.simps(2)[of "Suc n"] parse_value.simps(2)[of n]
  show ?thesis
  proof (cases "skip_whitespace h rd")
    case (Inl e)
    then show ?thesis by (simp add: u del: parse_value.simps parse_array.simps parse_object.simps)
  next
    case (Inr rd1)
    show ?thesis
    proof (cases "char_at h (src rd1) (pos rd1)")
      case None
      with Inr show ?thesis
        by (simp add: u del: parse_value.simps parse_array.simps parse_object.simps)
    next
      case (Some c)
      with Inr r arr[of rd1] obj[of rd1] show ?thesis
        by (auto simp add: u simp del: parse_value.simps parse_array.simps parse_object.simps)
    qed
  qed
qed

lemma more_fuel_all:
  "(\<forall>rd. parse_value n h rd \<noteq> Inl Out_of_fuel \<longrightarrow>
       parse_value (Suc n) h rd = parse_value n h rd) \<and>
   (\<forall>rd arr. parse_array_loop n h rd arr \<noteq> Inl Out_of_fuel \<longrightarrow>
       parse_array_loop (Suc n) h rd arr = parse_array_loop n h rd arr) \<and>
   (\<forall>rd obj. parse_object_loop n h rd obj \<noteq> Inl Out_of_fuel \<longrightarrow>
       parse_object_loop (Suc n) h rd obj = parse_object_loop n h rd obj)"
proof (induction n)
  case 0
  show ?case by simp
next
  case (Suc n)
  then have v: "\<forall>rd. parse_value n h rd \<noteq> Inl Out_of_fuel \<longrightarrow>
       parse_value (Suc n) h rd = parse_value n h rd"
    and l: "\<forall>rd arr. parse_array_loop n h rd arr \<noteq> Inl Out_of_fuel \<longrightarrow>
       parse_array_loop (Suc n) h rd arr = parse_array_loop n h rd arr"
    and o: "\<forall>rd obj. parse_object_loop n h rd obj \<noteq> Inl Out_of_fuel \<longrightarrow>
       parse_object_loop (Suc n) h rd obj = parse_object_loop n h rd obj"
    by simp_all
  show ?case
    using parse_value_more_fuel_step[OF l o] parse_array_loop_more_fuel_step[OF v l]
      parse_object_loop_more_fuel_step[OF v o]
    by blast
qed

lemma parse_value_more_fuel:
  assumes "parse_value n h rd = r" and "r \<noteq> Inl Out_of_fuel" and "n \<le> m"
  shows "parse_value m h rd = r"
proof -
  have "parse_value (n + k) h rd = r" for k
  proof (induction k)
    case 0
    show ?case using assms(1) by simp
  next
    case (Suc k)
    with assms(2) more_fuel_all[of "n + k" h] show ?case
      by (simp del: parse_value.simps)
  qed
  from this[of "m - n"] assms(3) show ?thesis by simp
qed

section \<open>Two texts with a common beginning\<close>

text \<open>
  What a call of the reader returns depends on the bytes it looks at only. The lemmas of this
  section compare a reader over a text \<open>ta\<close> with the same reader over a text \<open>tb\<close>; the two
  sources are whole blocks at the same address, so a slice cut from one is a slice of the
  other.
\<close>

lemma takeWhile_drop_eq_step:
  assumes "takeWhile P (drop p tb) = takeWhile P (drop p ta)" and "p < length ta" and "P (ta ! p)"
  shows "p < length tb \<and> tb ! p = ta ! p
       \<and> takeWhile P (drop (Suc p) tb) = takeWhile P (drop (Suc p) ta)"
proof -
  have a: "drop p ta = ta ! p # drop (Suc p) ta" using assms(2) by (simp add: Cons_nth_drop_Suc)
  with assms(1,3) have e: "takeWhile P (drop p tb) = ta ! p # takeWhile P (drop (Suc p) ta)" by simp
  then have "drop p tb \<noteq> []" by auto
  then have l: "p < length tb" by simp
  then have b: "drop p tb = tb ! p # drop (Suc p) tb" by (simp add: Cons_nth_drop_Suc)
  from e b l show ?thesis by (auto split: if_splits)
qed

lemma takeWhile_drop_eq_stop:
  assumes "takeWhile P (drop p tb) = takeWhile P (drop p ta)" and "\<not> (p < length ta \<and> P (ta ! p))"
  shows "\<not> (p < length tb \<and> P (tb ! p))"
proof
  assume b: "p < length tb \<and> P (tb ! p)"
  from takeWhile_drop_eq_step[OF assms(1)[symmetric], of] b have "p < length ta \<and> ta ! p = tb ! p"
    by simp
  with b assms(2) show False by simp
qed

lemma src_update_commute:
  "(rd\<lparr>src := s\<rparr>)\<lparr>row := r, column := c, pos := p\<rparr> = (rd\<lparr>row := r, column := c, pos := p\<rparr>)\<lparr>src := s\<rparr>"
  by simp

lemma skip_whitespace_two:
  "reads_text ha (src rd) ta \<Longrightarrow> reads_text hb sb tb \<Longrightarrow>
   takeWhile isspace (drop (pos rd) tb) = takeWhile isspace (drop (pos rd) ta) \<Longrightarrow>
   skip_whitespace hb (rd\<lparr>src := sb\<rparr>) = map_sum id (\<lambda>r. r\<lparr>src := sb\<rparr>) (skip_whitespace ha rd)"
proof (induction ha rd rule: skip_whitespace.induct)
  case (1 ha rd)
  note rta = "1.prems"(1) and rtb = "1.prems"(2) and tw = "1.prems"(3)
  have rtb': "reads_text hb (src (rd\<lparr>src := sb\<rparr>)) tb" using rtb by simp
  show ?case
  proof (cases "pos rd < length ta \<and> isspace (ta ! pos rd)")
    case False
    from takeWhile_drop_eq_stop[OF tw False]
    have "at_pos hb (rd\<lparr>src := sb\<rparr>) isspace = Some False"
      using at_pos_text[OF rtb', of isspace] by simp
    moreover have "at_pos ha rd isspace = Some False"
      using at_pos_text[OF rta, of isspace] False by simp
    ultimately show ?thesis
      by (simp add: skip_whitespace.simps[of ha rd] skip_whitespace.simps[of hb "rd\<lparr>src := sb\<rparr>"])
  next
    case True
    from takeWhile_drop_eq_step[OF tw] True
    have l: "pos rd < length tb" and c: "tb ! pos rd = ta ! pos rd"
      and tw': "takeWhile isspace (drop (Suc (pos rd)) tb) = takeWhile isspace (drop (Suc (pos rd)) ta)"
      by simp_all
    let ?nl = "ta ! pos rd = CHR 0x0A"
    let ?rd = "rd\<lparr>row := (if ?nl then row rd + 1 else row rd),
                     column := (if ?nl then 0 else column rd) + 1, pos := pos rd + 1\<rparr>"
    have a: "at_pos ha rd isspace = Some True" using True rta by (simp add: at_pos_text)
    have b: "at_pos ha rd (\<lambda>c. c = CHR 0x0A) = Some ?nl" using True rta by (simp add: at_pos_text)
    have a': "at_pos hb (rd\<lparr>src := sb\<rparr>) isspace = Some True"
      using at_pos_text[OF rtb', of isspace] True l c by simp
    have b': "at_pos hb (rd\<lparr>src := sb\<rparr>) (\<lambda>c. c = CHR 0x0A) = Some ?nl"
      using at_pos_text[OF rtb', of "\<lambda>c. c = CHR 0x0A"] l c by simp
    have rta': "reads_text ha (src ?rd) ta" using rta by simp
    have tw'': "takeWhile isspace (drop (pos ?rd) tb) = takeWhile isspace (drop (pos ?rd) ta)"
      using tw' by simp
    from "1.IH"[OF a refl b rta' rtb tw'']
    have ih: "skip_whitespace hb (?rd\<lparr>src := sb\<rparr>)
        = map_sum id (\<lambda>r. r\<lparr>src := sb\<rparr>) (skip_whitespace ha ?rd)" .
    have eq: "(rd\<lparr>src := sb\<rparr>)\<lparr>row := (if ?nl then row rd + 1 else row rd),
                     column := (if ?nl then 0 else column rd) + 1, pos := pos rd + 1\<rparr>
              = ?rd\<lparr>src := sb\<rparr>" by simp
    have ua: "skip_whitespace ha rd = skip_whitespace ha ?rd"
      by (subst skip_whitespace.simps) (simp only: a b option.case bool.case)
    have ub: "skip_whitespace hb (rd\<lparr>src := sb\<rparr>) = skip_whitespace hb (?rd\<lparr>src := sb\<rparr>)"
      unfolding eq[symmetric]
      by (subst skip_whitespace.simps) (simp add: a' b')
    show ?thesis unfolding ua ub by (rule ih)
  qed
qed

lemma substr_two:
  "storage sb = storage sa \<Longrightarrow> offset sb = offset sa \<Longrightarrow> substr sb p n = substr sa p n"
  by (simp add: substr_def)

lemma parse_number_two:
  assumes rta: "reads_text ha (src rd) ta" and rtb: "reads_text hb sb tb"
    and pa: "pos rd \<le> length ta" and pb: "pos rd \<le> length tb"
    and tw: "takeWhile number_char (drop (pos rd) tb) = takeWhile number_char (drop (pos rd) ta)"
    and r: "parse_number ha rd = Inr (v, rd')"
  shows "parse_number hb (rd\<lparr>src := sb\<rparr>) = Inr (v, rd'\<lparr>src := sb\<rparr>)"
proof -
  have rtb': "reads_text hb (src (rd\<lparr>src := sb\<rparr>)) tb" using rtb by simp
  have pb': "pos (rd\<lparr>src := sb\<rparr>) \<le> length tb" using pb by simp
  from parse_number_text[OF rta pa refl] r parse_number_text[OF rtb' pb' refl] tw
  show ?thesis by (auto split: option.splits if_splits)
qed

lemma parse_string_success:
  assumes rt: "reads_text h (src rd) txt" and p: "pos rd < length txt"
    and r: "parse_string h rd = Inr (v, rd')"
  shows "CHR 0x22 \<in> set (drop (pos rd + 1) txt)"
proof (rule ccontr)
  assume "CHR 0x22 \<notin> set (drop (pos rd + 1) txt)"
  from parse_string_unterminated[OF rt p this] r show False by simp
qed

lemma parse_string_two:
  assumes rta: "reads_text ha (src rd) ta" and rtb: "reads_text hb sb tb"
    and st: "storage sb = storage (src rd)"
    and pa: "pos rd < length ta" and pb: "pos rd < length tb"
    and qb: "CHR 0x22 \<in> set (drop (pos rd + 1) tb)"
    and tw: "takeWhile (\<lambda>x. x \<noteq> CHR 0x22) (drop (pos rd + 1) tb)
           = takeWhile (\<lambda>x. x \<noteq> CHR 0x22) (drop (pos rd + 1) ta)"
    and r: "parse_string ha rd = Inr (v, rd')"
  shows "parse_string hb (rd\<lparr>src := sb\<rparr>) = Inr (v, rd'\<lparr>src := sb\<rparr>)"
proof -
  have rtb': "reads_text hb (src (rd\<lparr>src := sb\<rparr>)) tb" using rtb by simp
  have pb': "pos (rd\<lparr>src := sb\<rparr>) < length tb" using pb by simp
  have qb': "CHR 0x22 \<in> set (drop (pos (rd\<lparr>src := sb\<rparr>) + 1) tb)" using qb by simp
  have o: "offset sb = offset (src rd)" using rta rtb by (simp add: reads_text_def)
  from parse_string_text[OF rta pa parse_string_success[OF rta pa r]] r
    parse_string_text[OF rtb' pb' qb'] tw substr_two[OF st o]
  show ?thesis by simp
qed

lemma literal_text_conv:
  assumes rt: "reads_text h (src rd) txt" and p: "pos rd < length txt"
    and r: "cow_eq h (lookahead rd n) lit = Some True" and nn: "NUL \<notin> set lit"
  shows "take n (drop (pos rd) txt) = lit"
proof -
  have p64: "pos rd < 2 ^ 64" using rt p by (simp add: reads_text_def npos_def)
  have o: "offset (lookahead rd n) = pos rd"
    using rt p64 by (simp add: lookahead_def substr_def reads_text_def size_t_id)
  have b: "block_of h (lookahead rd n) = txt @ [NUL]"
    using rt by (simp add: lookahead_def substr_def block_of_def reads_text_def)
  have ln: "length' (lookahead rd n) = n" by (simp add: lookahead_def substr_def)
  from r have len: "length lit = n" and w: "window h (lookahead rd n) n = Some lit"
    unfolding cow_eq_def ln by (auto split: if_splits option.splits)
  from w have fit: "pos rd + n \<le> length txt + 1" and e: "lit = take n (drop (pos rd) (txt @ [NUL]))"
    by (auto simp: window_def o b split: if_splits)
  have "pos rd + n \<le> length txt"
  proof (rule ccontr)
    assume "\<not> pos rd + n \<le> length txt"
    with fit p have n: "n = length txt - pos rd + 1" by simp
    then have "lit = drop (pos rd) txt @ [NUL]" using e p by simp
    with nn show False by simp
  qed
  with e show ?thesis by simp
qed

section \<open>A text and the same text with more bytes after it\<close>

lemma takeWhile_drop_append_none:
  assumes "\<forall>y\<in>set x. \<not> P y"
  shows "takeWhile P (drop p (d @ x)) = takeWhile P (drop p d)"
proof -
  have "\<forall>y\<in>set (drop (p - length d) x). \<not> P y" using assms by (auto dest: in_set_dropD)
  then have e: "takeWhile P (drop (p - length d) x) = []"
    by (cases "drop (p - length d) x") auto
  show ?thesis
  proof (cases "\<forall>y\<in>set (drop p d). P y")
    case True
    then have t: "takeWhile P (drop p d) = drop p d" by (simp add: takeWhile_eq_all_conv)
    have "takeWhile P (drop p (d @ x)) = drop p d @ takeWhile P (drop (p - length d) x)"
      using True by (simp add: takeWhile_append)
    then show ?thesis unfolding e t by simp
  next
    case False
    then show ?thesis by (auto simp: takeWhile_append)
  qed
qed

lemma takeWhile_drop_append_inside:
  assumes "\<exists>y\<in>set (drop p d). \<not> P y"
  shows "takeWhile P (drop p (d @ x)) = takeWhile P (drop p d)"
  using assms by (auto simp: takeWhile_append)

lemma take_drop_append_disjoint:
  assumes "take n (drop p (d @ x)) = lit" and "set lit \<inter> set x = {}"
  shows "take n (drop p d) = lit"
proof -
  let ?b = "take (n - length (drop p d)) (drop (p - length d) x)"
  have e: "lit = take n (drop p d) @ ?b" using assms(1) by simp
  have "set ?b \<subseteq> set x" by (meson in_set_dropD in_set_takeD subsetI)
  moreover have "set ?b \<subseteq> set lit" unfolding e by simp
  ultimately have "?b = []" using assms(2) by (cases ?b) auto
  with e show ?thesis by simp
qed

lemma take_drop_append_fits:
  assumes "take n (drop p d) = lit" and "length lit = n"
  shows "take n (drop p (d @ x)) = lit"
proof -
  have "length (take n (drop p d)) = n" using assms by simp
  then have "n \<le> length (drop p d)" by (simp add: min_def split: if_splits)
  with assms(1) show ?thesis by simp
qed

lemma swap_pos: "(rd\<lparr>src := s\<rparr>)\<lparr>pos := p\<rparr> = (rd\<lparr>pos := p\<rparr>)\<lparr>src := s\<rparr>"
  by simp

lemma parse_literal_success:
  "parse_null h rd = Inr (v, rd') \<Longrightarrow> cow_eq h (lookahead rd 4) ''null'' = Some True"
  "parse_true h rd = Inr (v, rd') \<Longrightarrow> cow_eq h (lookahead rd 4) ''true'' = Some True"
  "parse_false h rd = Inr (v, rd') \<Longrightarrow> cow_eq h (lookahead rd 5) ''false'' = Some True"
  by (auto simp: parse_null_def parse_true_def parse_false_def split: option.splits bool.splits)

text \<open>
  The literal parsers agree on two texts when the literal they find in the first is in the
  second as well.
\<close>

lemma parse_literals_two:
  assumes rta: "reads_text ha (src rd) ta" and rtb: "reads_text hb sb tb"
    and pa: "pos rd < length ta"
    and lit: "\<And>n lit. lit \<in> {''null'', ''true'', ''false''} \<Longrightarrow> length lit = n \<Longrightarrow>
                take n (drop (pos rd) ta) = lit \<Longrightarrow> take n (drop (pos rd) tb) = lit"
  shows "parse_null ha rd = Inr (v, rd') \<Longrightarrow> parse_null hb (rd\<lparr>src := sb\<rparr>) = Inr (v, rd'\<lparr>src := sb\<rparr>)"
    and "parse_true ha rd = Inr (v, rd') \<Longrightarrow> parse_true hb (rd\<lparr>src := sb\<rparr>) = Inr (v, rd'\<lparr>src := sb\<rparr>)"
    and "parse_false ha rd = Inr (v, rd') \<Longrightarrow> parse_false hb (rd\<lparr>src := sb\<rparr>) = Inr (v, rd'\<lparr>src := sb\<rparr>)"
proof -
  have rtb': "reads_text hb (src (rd\<lparr>src := sb\<rparr>)) tb" using rtb by simp
  {
    assume r: "parse_null ha rd = Inr (v, rd')"
    from literal_text_conv[OF rta pa parse_literal_success(1)[OF r]]
    have a: "take 4 (drop (pos rd) ta) = ''null''" by (simp add: NUL_def)
    from lit[OF _ _ a] have b: "take 4 (drop (pos (rd\<lparr>src := sb\<rparr>)) tb) = ''null''" by simp
    from parse_null_text[OF rta a] r parse_null_text[OF rtb' b]
    show "parse_null hb (rd\<lparr>src := sb\<rparr>) = Inr (v, rd'\<lparr>src := sb\<rparr>)" by (simp add: swap_pos)
  }
  {
    assume r: "parse_true ha rd = Inr (v, rd')"
    from literal_text_conv[OF rta pa parse_literal_success(2)[OF r]]
    have a: "take 4 (drop (pos rd) ta) = ''true''" by (simp add: NUL_def)
    from lit[OF _ _ a] have b: "take 4 (drop (pos (rd\<lparr>src := sb\<rparr>)) tb) = ''true''" by simp
    from parse_true_text[OF rta a] r parse_true_text[OF rtb' b]
    show "parse_true hb (rd\<lparr>src := sb\<rparr>) = Inr (v, rd'\<lparr>src := sb\<rparr>)" by (simp add: swap_pos)
  }
  {
    assume r: "parse_false ha rd = Inr (v, rd')"
    from literal_text_conv[OF rta pa parse_literal_success(3)[OF r]]
    have a: "take 5 (drop (pos rd) ta) = ''false''" by (simp add: NUL_def)
    from lit[OF _ _ a] have b: "take 5 (drop (pos (rd\<lparr>src := sb\<rparr>)) tb) = ''false''" by simp
    from parse_false_text[OF rta a] r parse_false_text[OF rtb' b]
    show "parse_false hb (rd\<lparr>src := sb\<rparr>) = Inr (v, rd'\<lparr>src := sb\<rparr>)" by (simp add: swap_pos)
  }
qed

text \<open>A value does not start at a byte that is no number character and no other start.\<close>

lemma parse_number_no_token:
  assumes rt: "reads_text h (src rd) txt" and p: "pos rd < length txt"
    and c: "\<not> number_char (txt ! pos rd)"
  shows "parse_number h rd = Inl (Invalid_token (txt ! pos rd) (row rd) (column rd))"
proof -
  have "drop (pos rd) txt = txt ! pos rd # drop (Suc (pos rd)) txt"
    using p by (simp add: Cons_nth_drop_Suc)
  then have "takeWhile number_char (drop (pos rd) txt) = []" using c by simp
  with parse_number_text[OF rt _ refl] p show ?thesis
    by (simp add: from_chars_int_Nil nth_append)
qed

lemma parse_value_at_closing:
  assumes rt: "reads_text h (src rd) txt"
    and c: "pos rd < length txt \<longrightarrow> txt ! pos rd \<in> {CHR '']'', CHR ''}''}"
  shows "parse_value n h rd \<noteq> Inr r"
proof (cases n)
  case 0
  then show ?thesis by simp
next
  case (Suc m)
  have ns: "pos rd < length txt \<longrightarrow> \<not> isspace (txt ! pos rd)"
    using c by (auto simp: isspace_def)
  have sk: "skip_whitespace h rd = Inr rd" using rt ns by (rule skip_whitespace_stay)
  have len: "length' (src rd) = length txt" using rt by (simp add: reads_text_def)
  show ?thesis
  proof (cases "pos rd < length txt")
    case False
    with sk len show ?thesis by (simp add: Suc)
  next
    case True
    with c have b: "txt ! pos rd \<in> {CHR '']'', CHR ''}''}" by simp
    then have nn: "\<not> number_char (txt ! pos rd)" by (auto simp: number_char_def isdigit_def)
    have at: "char_at h (src rd) (pos rd) = Some (txt ! pos rd)"
      using rt True by (rule char_at_text_in)
    from parse_number_no_token[OF rt True nn] sk len True at b show ?thesis
      by (auto simp: Suc)
  qed
qed

section \<open>Slices of the shorter text\<close>

lemma cut_view_two:
  assumes rt1: "reads_text h1 s1 (d @ x)" and rt2: "reads_text h2 s2 d"
    and st: "storage s2 = storage s1" and c: "cut_from s2 k"
  shows "\<exists>kb. string_view h1 k = Some kb \<and> string_view h2 k = Some kb"
proof -
  from c obtain p n where pn: "p + n \<le> length' s2" and k: "k = substr s2 p n"
    by (auto simp: cut_from_def)
  have l: "length' s2 = length d" using rt2 by (simp add: reads_text_def)
  have o: "offset s2 = offset s1" using rt1 rt2 by (simp add: reads_text_def)
  have k1: "k = substr s1 p n" unfolding k using st o by (rule substr_two)
  have a: "string_view h2 k = Some (take n (drop p d))"
    unfolding k using rt2 pn l by (intro substr_view(1)) simp_all
  have "string_view h1 k = Some (take n (drop p (d @ x)))"
    unfolding k1 using rt1 pn l by (intro substr_view(1)) simp_all
  moreover have "take n (drop p (d @ x)) = take n (drop p d)" using pn l by simp
  ultimately show ?thesis using a by simp
qed

lemma obj_assign_two:
  assumes "\<exists>kb. string_view h1 key = Some kb \<and> string_view h2 key = Some kb"
    and "\<forall>k\<in>set (map fst obj). \<exists>kb. string_view h1 k = Some kb \<and> string_view h2 k = Some kb"
  shows "obj_assign h2 key v obj = obj_assign h1 key v obj"
  using assms(2)
proof (induction obj)
  case Nil
  show ?case by simp
next
  case (Cons e m)
  obtain k' v' where e: "e = (k', v')" by (cases e)
  from assms(1) obtain kb where kb: "string_view h1 key = Some kb" "string_view h2 key = Some kb"
    by blast
  from Cons.prems e obtain kb' where kb': "string_view h1 k' = Some kb'" "string_view h2 k' = Some kb'"
    by auto
  from Cons.prems have "\<forall>k\<in>set (map fst m). \<exists>kb. string_view h1 k = Some kb \<and> string_view h2 k = Some kb"
    by simp
  from Cons.IH[OF this] show ?case
    by (cases "bytes_less kb kb'"; cases "bytes_less kb' kb")
       (simp_all add: e cow_less_view[OF kb(1) kb'(1)] cow_less_view[OF kb(2) kb'(2)]
        cow_less_view[OF kb'(1) kb(1)] cow_less_view[OF kb'(2) kb(2)])
qed

lemma entry_keys_strings: "k \<in> set (map fst obj) \<Longrightarrow> k \<in> set (strings_of_entries obj)"
  by (induction obj) force+

lemma obj_assign_cuts_two:
  assumes rt1: "reads_text h1 s1 (d @ x)" and rt2: "reads_text h2 s2 d"
    and st: "storage s2 = storage s1"
    and k: "cut_from s2 key" and inv: "all_cut s2 (strings_of_entries obj)"
  shows "obj_assign h2 key v obj = obj_assign h1 key v obj"
proof (rule obj_assign_two)
  show "\<exists>kb. string_view h1 key = Some kb \<and> string_view h2 key = Some kb"
    using rt1 rt2 st k by (rule cut_view_two)
  show "\<forall>k\<in>set (map fst obj). \<exists>kb. string_view h1 k = Some kb \<and> string_view h2 k = Some kb"
  proof
    fix k' assume "k' \<in> set (map fst obj)"
    then have "cut_from s2 k'" using inv entry_keys_strings by (auto simp: all_cut_def)
    with rt1 rt2 st show "\<exists>kb. string_view h1 k' = Some kb \<and> string_view h2 k' = Some kb"
      by (rule cut_view_two)
  qed
qed

lemma obj_assign_all_cut:
  assumes "obj_assign h key v obj = Some obj'" and "cut_from s key"
    and "all_cut s (strings_of v)" and "all_cut s (strings_of_entries obj)"
  shows "all_cut s (strings_of_entries obj')"
  using obj_assign_strings[OF assms(1)] assms(2-4) by (auto simp: all_cut_def)

section \<open>Closing brackets cut off the end\<close>

text \<open>
  The longer text is \<open>d @ cl\<close>, where \<open>cl\<close> holds closing brackets only; the shorter one is
  \<open>d\<close>. Where the reader over the longer text meets a byte of \<open>cl\<close>, the reader over the
  shorter one is at the end of its input. A call that returns a value on the longer text
  returns the same value on the shorter one, with the cursor at the same place.
\<close>

lemma at_pos_cut_end:
  assumes rt1: "reads_text h1 (src rd) (d @ cl)" and rt2: "reads_text h2 s2 d"
    and np: "\<forall>y\<in>set cl. \<not> P y"
  shows "at_pos h2 (rd\<lparr>src := s2\<rparr>) P = at_pos h1 rd P"
proof -
  have rt2': "reads_text h2 (src (rd\<lparr>src := s2\<rparr>)) d" using rt2 by simp
  have "\<not> P ((d @ cl) ! pos rd)" if "\<not> pos rd < length d" "pos rd < length (d @ cl)"
  proof -
    have "(d @ cl) ! pos rd = cl ! (pos rd - length d)" using that by (simp add: nth_append)
    moreover have "cl ! (pos rd - length d) \<in> set cl" using that by (intro nth_mem) simp
    ultimately show ?thesis using np by simp
  qed
  then show ?thesis
    unfolding at_pos_text[OF rt1] at_pos_text[OF rt2'] by (auto simp: nth_append)
qed

lemma optional_comma_cut_end:
  assumes rt1: "reads_text h1 (src rd) (d @ cl)" and rt2: "reads_text h2 s2 d"
    and br: "set cl \<subseteq> {CHR '']'', CHR ''}''}"
  shows "optional_comma h2 (rd\<lparr>src := s2\<rparr>) = map_option (\<lambda>r. r\<lparr>src := s2\<rparr>) (optional_comma h1 rd)"
proof -
  have "\<forall>y\<in>set cl. \<not> y = CHR '',''" using br by auto
  from at_pos_cut_end[OF rt1 rt2 this] show ?thesis
    by (auto simp: optional_comma_def swap_pos split: option.splits bool.splits)
qed

lemma skip_whitespace_cut_end:
  assumes rt1: "reads_text h1 (src rd) (d @ cl)" and rt2: "reads_text h2 s2 d"
    and br: "set cl \<subseteq> {CHR '']'', CHR ''}''}"
    and r: "skip_whitespace h1 rd = Inr rd1"
  shows "skip_whitespace h2 (rd\<lparr>src := s2\<rparr>) = Inr (rd1\<lparr>src := s2\<rparr>)"
proof -
  have "\<forall>y\<in>set cl. \<not> isspace y" using br by (auto simp: isspace_def)
  then have "takeWhile isspace (drop (pos rd) d) = takeWhile isspace (drop (pos rd) (d @ cl))"
    by (rule takeWhile_drop_append_none[symmetric])
  from skip_whitespace_two[OF rt1 rt2 this] r show ?thesis by simp
qed

lemma leaf_cut_end:
  assumes rt1: "reads_text h1 (src rd) (d @ cl)" and rt2: "reads_text h2 s2 d"
    and st: "storage s2 = storage (src rd)"
    and br: "set cl \<subseteq> {CHR '']'', CHR ''}''}"
    and p: "pos rd < length d"
  shows "parse_null h1 rd = Inr (v, rd') \<Longrightarrow> parse_null h2 (rd\<lparr>src := s2\<rparr>) = Inr (v, rd'\<lparr>src := s2\<rparr>)"
    and "parse_true h1 rd = Inr (v, rd') \<Longrightarrow> parse_true h2 (rd\<lparr>src := s2\<rparr>) = Inr (v, rd'\<lparr>src := s2\<rparr>)"
    and "parse_false h1 rd = Inr (v, rd') \<Longrightarrow> parse_false h2 (rd\<lparr>src := s2\<rparr>) = Inr (v, rd'\<lparr>src := s2\<rparr>)"
    and "parse_string h1 rd = Inr (v, rd') \<Longrightarrow> parse_string h2 (rd\<lparr>src := s2\<rparr>) = Inr (v, rd'\<lparr>src := s2\<rparr>)"
    and "parse_number h1 rd = Inr (v, rd') \<Longrightarrow> parse_number h2 (rd\<lparr>src := s2\<rparr>) = Inr (v, rd'\<lparr>src := s2\<rparr>)"
proof -
  have p1: "pos rd < length (d @ cl)" using p by simp
  have lit: "take n (drop (pos rd) d) = lit"
    if "lit \<in> {''null'', ''true'', ''false''}" "length lit = n" "take n (drop (pos rd) (d @ cl)) = lit"
    for n lit
  proof -
    have "set lit \<inter> set cl = {}" using that(1) br by auto
    with that(3) show ?thesis by (rule take_drop_append_disjoint)
  qed
  note l = parse_literals_two[OF rt1 rt2 p1 lit]
  show "parse_null h1 rd = Inr (v, rd') \<Longrightarrow> parse_null h2 (rd\<lparr>src := s2\<rparr>) = Inr (v, rd'\<lparr>src := s2\<rparr>)"
    by (rule l(1))
  show "parse_true h1 rd = Inr (v, rd') \<Longrightarrow> parse_true h2 (rd\<lparr>src := s2\<rparr>) = Inr (v, rd'\<lparr>src := s2\<rparr>)"
    by (rule l(2))
  show "parse_false h1 rd = Inr (v, rd') \<Longrightarrow> parse_false h2 (rd\<lparr>src := s2\<rparr>) = Inr (v, rd'\<lparr>src := s2\<rparr>)"
    by (rule l(3))
  {
    assume r: "parse_string h1 rd = Inr (v, rd')"
    from parse_string_success[OF rt1 p1 r] have "CHR 0x22 \<in> set (drop (pos rd + 1) (d @ cl))" .
    moreover have "CHR 0x22 \<notin> set cl" using br by auto
    ultimately have q: "CHR 0x22 \<in> set (drop (pos rd + 1) d)" by (auto dest: in_set_dropD)
    then have "\<exists>y\<in>set (drop (pos rd + 1) d). \<not> y \<noteq> CHR 0x22" by auto
    then have tw: "takeWhile (\<lambda>x. x \<noteq> CHR 0x22) (drop (pos rd + 1) d)
        = takeWhile (\<lambda>x. x \<noteq> CHR 0x22) (drop (pos rd + 1) (d @ cl))"
      by (rule takeWhile_drop_append_inside[symmetric])
    from parse_string_two[OF rt1 rt2 st p1 p q tw r]
    show "parse_string h2 (rd\<lparr>src := s2\<rparr>) = Inr (v, rd'\<lparr>src := s2\<rparr>)" .
  }
  {
    assume r: "parse_number h1 rd = Inr (v, rd')"
    have "\<forall>y\<in>set cl. \<not> number_char y" using br by (auto simp: number_char_def isdigit_def)
    then have tw: "takeWhile number_char (drop (pos rd) d)
        = takeWhile number_char (drop (pos rd) (d @ cl))"
      by (rule takeWhile_drop_append_none[symmetric])
    from parse_number_two[OF rt1 rt2 _ _ tw r] p
    show "parse_number h2 (rd\<lparr>src := s2\<rparr>) = Inr (v, rd'\<lparr>src := s2\<rparr>)" by simp
  }
qed

lemma parse_value_cut_end_step:
  assumes rt1: "reads_text h1 s1 (d @ cl)" and rt2: "reads_text h2 s2 d"
    and st: "storage s2 = storage s1" and br: "set cl \<subseteq> {CHR '']'', CHR ''}''}"
    and l0: "\<forall>rd arr v rd'. src rd = s1 \<longrightarrow> parse_array_loop n h1 rd arr = Inr (v, rd') \<longrightarrow>
               parse_array_loop n h2 (rd\<lparr>src := s2\<rparr>) arr = Inr (v, rd'\<lparr>src := s2\<rparr>)"
    and o0: "\<forall>rd obj v rd'. src rd = s1 \<longrightarrow> all_cut s2 (strings_of_entries obj) \<longrightarrow>
               parse_object_loop n h1 rd obj = Inr (v, rd') \<longrightarrow>
               parse_object_loop n h2 (rd\<lparr>src := s2\<rparr>) obj = Inr (v, rd'\<lparr>src := s2\<rparr>)"
    and src: "src rd = s1" and r: "parse_value (Suc n) h1 rd = Inr (v, rd')"
  shows "parse_value (Suc n) h2 (rd\<lparr>src := s2\<rparr>) = Inr (v, rd'\<lparr>src := s2\<rparr>)"
proof -
  from r obtain rd1 c where s: "skip_whitespace h1 rd = Inr rd1"
    and lt: "pos rd1 < length' (src rd1)"
    and c: "char_at h1 (src rd1) (pos rd1) = Some c"
    and dsp: "(if c = CHR ''n'' then parse_null h1 rd1
             else if c = CHR ''t'' then parse_true h1 rd1
             else if c = CHR ''f'' then parse_false h1 rd1
             else if c = CHR 0x22 then parse_string h1 rd1
             else if c = CHR ''['' then parse_array n h1 rd1
             else if c = CHR ''{'' then parse_object n h1 rd1
             else parse_number h1 rd1) = Inr (v, rd')"
    by (auto split: sum.splits option.splits if_splits)
  have src1: "src rd1 = s1" using skip_whitespace_src_pos[OF s] src by simp
  have rt: "reads_text h1 (src rd) (d @ cl)" using rt1 src by simp
  have rt1': "reads_text h1 (src rd1) (d @ cl)" using rt1 src1 by simp
  have st1: "storage s2 = storage (src rd1)" using st src1 by simp
  have lt1: "pos rd1 < length (d @ cl)" using lt rt1' by (simp add: reads_text_def)
  have c1: "c = (d @ cl) ! pos rd1" using char_at_text_in[OF rt1' lt1] c by simp
  have ind: "pos rd1 < length d"
  proof (rule ccontr)
    assume n: "\<not> pos rd1 < length d"
    then have "(d @ cl) ! pos rd1 = cl ! (pos rd1 - length d)" by (simp add: nth_append)
    moreover have "cl ! (pos rd1 - length d) \<in> set cl" using n lt1 by (intro nth_mem) simp
    ultimately have b: "c \<in> {CHR '']'', CHR ''}''}" using br c1 by auto
    then have "\<not> number_char ((d @ cl) ! pos rd1)"
      using c1 by (auto simp: number_char_def isdigit_def)
    from parse_number_no_token[OF rt1' lt1 this] dsp b show False by auto
  qed
  have cd: "c = d ! pos rd1" using c1 ind by (simp add: nth_append)
  have sk2: "skip_whitespace h2 (rd\<lparr>src := s2\<rparr>) = Inr (rd1\<lparr>src := s2\<rparr>)"
    using rt rt2 br s by (rule skip_whitespace_cut_end)
  have c2: "char_at h2 s2 (pos rd1) = Some c"
    using char_at_text_in[OF rt2 ind] cd by simp
  have lt2: "pos rd1 < length' s2" using ind rt2 by (simp add: reads_text_def)
  note leaf = leaf_cut_end[OF rt1' rt2 st1 br ind]
  have arr: "parse_array n h2 (rd1\<lparr>src := s2\<rparr>) = Inr (v, rd'\<lparr>src := s2\<rparr>)"
    if "parse_array n h1 rd1 = Inr (v, rd')"
  proof -
    from that obtain rd2 where a: "skip_whitespace h1 (rd1\<lparr>pos := pos rd1 + 1\<rparr>) = Inr rd2"
      and b: "parse_array_loop n h1 rd2 [] = Inr (v, rd')"
      by (auto split: sum.splits)
    have "reads_text h1 (src (rd1\<lparr>pos := pos rd1 + 1\<rparr>)) (d @ cl)" using rt1' by simp
    from skip_whitespace_cut_end[OF this rt2 br a]
    have a2: "skip_whitespace h2 ((rd1\<lparr>pos := pos rd1 + 1\<rparr>)\<lparr>src := s2\<rparr>) = Inr (rd2\<lparr>src := s2\<rparr>)" .
    have "src rd2 = s1" using skip_whitespace_src_pos[OF a] src1 by simp
    from l0[rule_format, OF this b] a2 show ?thesis by (simp add: swap_pos)
  qed
  have obj: "parse_object n h2 (rd1\<lparr>src := s2\<rparr>) = Inr (v, rd'\<lparr>src := s2\<rparr>)"
    if "parse_object n h1 rd1 = Inr (v, rd')"
  proof -
    from that obtain rd2 where a: "skip_whitespace h1 (rd1\<lparr>pos := pos rd1 + 1\<rparr>) = Inr rd2"
      and b: "parse_object_loop n h1 rd2 [] = Inr (v, rd')"
      by (auto split: sum.splits)
    have "reads_text h1 (src (rd1\<lparr>pos := pos rd1 + 1\<rparr>)) (d @ cl)" using rt1' by simp
    from skip_whitespace_cut_end[OF this rt2 br a]
    have a2: "skip_whitespace h2 ((rd1\<lparr>pos := pos rd1 + 1\<rparr>)\<lparr>src := s2\<rparr>) = Inr (rd2\<lparr>src := s2\<rparr>)" .
    have "src rd2 = s1" using skip_whitespace_src_pos[OF a] src1 by simp
    from o0[rule_format, OF this _ b] a2 show ?thesis by (simp add: swap_pos all_cut_def)
  qed
  have "(if c = CHR ''n'' then parse_null h2 (rd1\<lparr>src := s2\<rparr>)
         else if c = CHR ''t'' then parse_true h2 (rd1\<lparr>src := s2\<rparr>)
         else if c = CHR ''f'' then parse_false h2 (rd1\<lparr>src := s2\<rparr>)
         else if c = CHR 0x22 then parse_string h2 (rd1\<lparr>src := s2\<rparr>)
         else if c = CHR ''['' then parse_array n h2 (rd1\<lparr>src := s2\<rparr>)
         else if c = CHR ''{'' then parse_object n h2 (rd1\<lparr>src := s2\<rparr>)
         else parse_number h2 (rd1\<lparr>src := s2\<rparr>)) = Inr (v, rd'\<lparr>src := s2\<rparr>)"
    using dsp leaf arr obj by (auto split: if_splits)
  with sk2 c2 lt2 show ?thesis by (simp del: parse_array.simps parse_object.simps)
qed

lemma parse_array_loop_cut_end_step:
  assumes rt1: "reads_text h1 s1 (d @ cl)" and rt2: "reads_text h2 s2 d"
    and st: "storage s2 = storage s1" and br: "set cl \<subseteq> {CHR '']'', CHR ''}''}"
    and v0: "\<forall>rd v rd'. src rd = s1 \<longrightarrow> parse_value n h1 rd = Inr (v, rd') \<longrightarrow>
               parse_value n h2 (rd\<lparr>src := s2\<rparr>) = Inr (v, rd'\<lparr>src := s2\<rparr>)"
    and l0: "\<forall>rd arr v rd'. src rd = s1 \<longrightarrow> parse_array_loop n h1 rd arr = Inr (v, rd') \<longrightarrow>
               parse_array_loop n h2 (rd\<lparr>src := s2\<rparr>) arr = Inr (v, rd'\<lparr>src := s2\<rparr>)"
    and src: "src rd = s1" and r: "parse_array_loop (Suc n) h1 rd arr = Inr (w, rd')"
  shows "parse_array_loop (Suc n) h2 (rd\<lparr>src := s2\<rparr>) arr = Inr (w, rd'\<lparr>src := s2\<rparr>)"
proof -
  have rt: "reads_text h1 (src rd) (d @ cl)" using rt1 src by simp
  have rt2': "reads_text h2 (src (rd\<lparr>src := s2\<rparr>)) d" using rt2 by simp
  note a1 = at_pos_text[OF rt, of "\<lambda>c. c \<noteq> CHR '']''"]
  note a2 = at_pos_text[OF rt2', of "\<lambda>c. c \<noteq> CHR '']''"]
  show ?thesis
  proof (cases "at_pos h1 rd (\<lambda>c. c \<noteq> CHR '']'') = Some True")
    case False
    then have e1: "at_pos h1 rd (\<lambda>c. c \<noteq> CHR '']'') = Some False" using a1 by auto
    with r have w: "w = Array arr" "rd' = rd\<lparr>pos := pos rd + 1\<rparr>" by simp_all
    have "at_pos h2 (rd\<lparr>src := s2\<rparr>) (\<lambda>c. c \<noteq> CHR '']'') = Some False"
      using e1 a1 a2 by (auto simp: nth_append)
    then show ?thesis by (simp add: w swap_pos)
  next
    case True
    with r obtain x rd1 rd2 rd3 where
      a: "parse_value n h1 rd = Inr (x, rd1)" and b: "optional_comma h1 rd1 = Some rd2"
      and c: "skip_whitespace h1 rd2 = Inr rd3"
      and e: "parse_array_loop n h1 rd3 (arr @ [x]) = Inr (w, rd')"
      by (auto split: sum.splits option.splits)
    have ind: "pos rd < length d"
    proof (rule ccontr)
      assume n: "\<not> pos rd < length d"
      have "pos rd < length (d @ cl) \<longrightarrow> (d @ cl) ! pos rd \<in> {CHR '']'', CHR ''}''}"
      proof
        assume l: "pos rd < length (d @ cl)"
        have "(d @ cl) ! pos rd = cl ! (pos rd - length d)" using n by (simp add: nth_append)
        moreover have "cl ! (pos rd - length d) \<in> set cl" using n l by (intro nth_mem) simp
        ultimately show "(d @ cl) ! pos rd \<in> {CHR '']'', CHR ''}''}" using br by auto
      qed
      from parse_value_at_closing[OF rt this, of n "(x, rd1)"] a show False by simp
    qed
    have e2: "at_pos h2 (rd\<lparr>src := s2\<rparr>) (\<lambda>c. c \<noteq> CHR '']'') = Some True"
      using True a1 a2 ind by (simp add: nth_append)
    have src1: "src rd1 = s1" using parse_value_progress[OF a] src by simp
    have src2: "src rd2 = s1" using optional_comma_progress[OF b] src1 by simp
    have src3: "src rd3 = s1" using skip_whitespace_src_pos[OF c] src2 by simp
    have pv2: "parse_value n h2 (rd\<lparr>src := s2\<rparr>) = Inr (x, rd1\<lparr>src := s2\<rparr>)"
      using v0 src a by blast
    have "reads_text h1 (src rd1) (d @ cl)" using rt1 src1 by simp
    from optional_comma_cut_end[OF this rt2 br] b
    have oc2: "optional_comma h2 (rd1\<lparr>src := s2\<rparr>) = Some (rd2\<lparr>src := s2\<rparr>)" by simp
    have "reads_text h1 (src rd2) (d @ cl)" using rt1 src2 by simp
    from skip_whitespace_cut_end[OF this rt2 br c]
    have sk2: "skip_whitespace h2 (rd2\<lparr>src := s2\<rparr>) = Inr (rd3\<lparr>src := s2\<rparr>)" .
    have lp2: "parse_array_loop n h2 (rd3\<lparr>src := s2\<rparr>) (arr @ [x]) = Inr (w, rd'\<lparr>src := s2\<rparr>)"
      using l0 src3 e by blast
    show ?thesis using e2 pv2 oc2 sk2 lp2 by simp
  qed
qed

lemma parse_object_loop_cut_end_step:
  assumes rt1: "reads_text h1 s1 (d @ cl)" and rt2: "reads_text h2 s2 d"
    and st: "storage s2 = storage s1" and br: "set cl \<subseteq> {CHR '']'', CHR ''}''}"
    and v0: "\<forall>rd v rd'. src rd = s1 \<longrightarrow> parse_value n h1 rd = Inr (v, rd') \<longrightarrow>
               parse_value n h2 (rd\<lparr>src := s2\<rparr>) = Inr (v, rd'\<lparr>src := s2\<rparr>)"
    and o0: "\<forall>rd obj v rd'. src rd = s1 \<longrightarrow> all_cut s2 (strings_of_entries obj) \<longrightarrow>
               parse_object_loop n h1 rd obj = Inr (v, rd') \<longrightarrow>
               parse_object_loop n h2 (rd\<lparr>src := s2\<rparr>) obj = Inr (v, rd'\<lparr>src := s2\<rparr>)"
    and src: "src rd = s1" and inv: "all_cut s2 (strings_of_entries obj)"
    and r: "parse_object_loop (Suc n) h1 rd obj = Inr (w, rd')"
  shows "parse_object_loop (Suc n) h2 (rd\<lparr>src := s2\<rparr>) obj = Inr (w, rd'\<lparr>src := s2\<rparr>)"
proof -
  have rt: "reads_text h1 (src rd) (d @ cl)" using rt1 src by simp
  have rt2': "reads_text h2 (src (rd\<lparr>src := s2\<rparr>)) d" using rt2 by simp
  note a1 = at_pos_text[OF rt, of "\<lambda>c. c \<noteq> CHR ''}''"]
  note a2 = at_pos_text[OF rt2', of "\<lambda>c. c \<noteq> CHR ''}''"]
  show ?thesis
  proof (cases "at_pos h1 rd (\<lambda>c. c \<noteq> CHR ''}'') = Some True")
    case False
    then have e1: "at_pos h1 rd (\<lambda>c. c \<noteq> CHR ''}'') = Some False" using a1 by auto
    with r have w: "w = Object obj" "rd' = rd\<lparr>pos := pos rd + 1\<rparr>" by simp_all
    have "at_pos h2 (rd\<lparr>src := s2\<rparr>) (\<lambda>c. c \<noteq> CHR ''}'') = Some False"
      using e1 a1 a2 by (auto simp: nth_append)
    then show ?thesis by (simp add: w swap_pos)
  next
    case True
    with r obtain k rd1 x rd2 rd3 rd4 obj' where
      a: "parse_value n h1 rd = Inr (String k, rd1)"
      and col: "at_pos h1 rd1 (\<lambda>c. c = CHR '':'') = Some True"
      and a': "parse_value n h1 (rd1\<lparr>pos := pos rd1 + 1\<rparr>) = Inr (x, rd2)"
      and b: "optional_comma h1 rd2 = Some rd3"
      and c: "skip_whitespace h1 rd3 = Inr rd4"
      and oa: "obj_assign h1 k x obj = Some obj'"
      and e: "parse_object_loop n h1 rd4 obj' = Inr (w, rd')"
      by (auto split: sum.splits option.splits Value.splits bool.splits)
    have ind: "pos rd < length d"
    proof (rule ccontr)
      assume n: "\<not> pos rd < length d"
      have "pos rd < length (d @ cl) \<longrightarrow> (d @ cl) ! pos rd \<in> {CHR '']'', CHR ''}''}"
      proof
        assume l: "pos rd < length (d @ cl)"
        have "(d @ cl) ! pos rd = cl ! (pos rd - length d)" using n by (simp add: nth_append)
        moreover have "cl ! (pos rd - length d) \<in> set cl" using n l by (intro nth_mem) simp
        ultimately show "(d @ cl) ! pos rd \<in> {CHR '']'', CHR ''}''}" using br by auto
      qed
      from parse_value_at_closing[OF rt this, of n "(String k, rd1)"] a show False by simp
    qed
    have e2: "at_pos h2 (rd\<lparr>src := s2\<rparr>) (\<lambda>c. c \<noteq> CHR ''}'') = Some True"
      using True a1 a2 ind by (simp add: nth_append)
    have src1: "src rd1 = s1" using parse_value_progress[OF a] src by simp
    have src1': "src (rd1\<lparr>pos := pos rd1 + 1\<rparr>) = s1" using src1 by simp
    have src2: "src rd2 = s1" using parse_value_progress[OF a'] src1 by simp
    have src3: "src rd3 = s1" using optional_comma_progress[OF b] src2 by simp
    have src4: "src rd4 = s1" using skip_whitespace_src_pos[OF c] src3 by simp
    have pv2: "parse_value n h2 (rd\<lparr>src := s2\<rparr>) = Inr (String k, rd1\<lparr>src := s2\<rparr>)"
      using v0 src a by blast
    have "reads_text h1 (src rd1) (d @ cl)" using rt1 src1 by simp
    moreover have "\<forall>y\<in>set cl. \<not> y = CHR '':''" using br by auto
    ultimately have col2: "at_pos h2 (rd1\<lparr>src := s2\<rparr>) (\<lambda>c. c = CHR '':'') = Some True"
      using at_pos_cut_end[OF _ rt2, of h1 rd1 cl "\<lambda>c. c = CHR '':''"] col by simp
    have pv2': "parse_value n h2 ((rd1\<lparr>pos := pos rd1 + 1\<rparr>)\<lparr>src := s2\<rparr>) = Inr (x, rd2\<lparr>src := s2\<rparr>)"
      using v0 src1' a' by blast
    have "reads_text h1 (src rd2) (d @ cl)" using rt1 src2 by simp
    from optional_comma_cut_end[OF this rt2 br] b
    have oc2: "optional_comma h2 (rd2\<lparr>src := s2\<rparr>) = Some (rd3\<lparr>src := s2\<rparr>)" by simp
    have "reads_text h1 (src rd3) (d @ cl)" using rt1 src3 by simp
    from skip_whitespace_cut_end[OF this rt2 br c]
    have sk2: "skip_whitespace h2 (rd3\<lparr>src := s2\<rparr>) = Inr (rd4\<lparr>src := s2\<rparr>)" .
    have kc: "cut_from s2 k" using parse_value_cut[OF pv2, of k] by simp
    have xc: "all_cut s2 (strings_of x)"
      using parse_value_cut[OF pv2'] by (simp add: all_cut_def)
    have oa2: "obj_assign h2 k x obj = Some obj'"
      using obj_assign_cuts_two[OF rt1 rt2 st kc inv] oa by simp
    have inv': "all_cut s2 (strings_of_entries obj')"
      using oa2 kc xc inv by (rule obj_assign_all_cut)
    have lp2: "parse_object_loop n h2 (rd4\<lparr>src := s2\<rparr>) obj' = Inr (w, rd'\<lparr>src := s2\<rparr>)"
      using o0 src4 inv' e by blast
    show ?thesis using e2 pv2 col2 pv2' oc2 sk2 oa2 lp2 by (simp add: swap_pos)
  qed
qed

lemma cut_end_all:
  assumes rt1: "reads_text h1 s1 (d @ cl)" and rt2: "reads_text h2 s2 d"
    and st: "storage s2 = storage s1" and br: "set cl \<subseteq> {CHR '']'', CHR ''}''}"
  shows "(\<forall>rd v rd'. src rd = s1 \<longrightarrow> parse_value n h1 rd = Inr (v, rd') \<longrightarrow>
               parse_value n h2 (rd\<lparr>src := s2\<rparr>) = Inr (v, rd'\<lparr>src := s2\<rparr>)) \<and>
     (\<forall>rd arr v rd'. src rd = s1 \<longrightarrow> parse_array_loop n h1 rd arr = Inr (v, rd') \<longrightarrow>
               parse_array_loop n h2 (rd\<lparr>src := s2\<rparr>) arr = Inr (v, rd'\<lparr>src := s2\<rparr>)) \<and>
     (\<forall>rd obj v rd'. src rd = s1 \<longrightarrow> all_cut s2 (strings_of_entries obj) \<longrightarrow>
               parse_object_loop n h1 rd obj = Inr (v, rd') \<longrightarrow>
               parse_object_loop n h2 (rd\<lparr>src := s2\<rparr>) obj = Inr (v, rd'\<lparr>src := s2\<rparr>))"
proof (induction n)
  case 0
  show ?case by simp
next
  case (Suc n)
  then have v: "\<forall>rd v rd'. src rd = s1 \<longrightarrow> parse_value n h1 rd = Inr (v, rd') \<longrightarrow>
               parse_value n h2 (rd\<lparr>src := s2\<rparr>) = Inr (v, rd'\<lparr>src := s2\<rparr>)"
    and l: "\<forall>rd arr v rd'. src rd = s1 \<longrightarrow> parse_array_loop n h1 rd arr = Inr (v, rd') \<longrightarrow>
               parse_array_loop n h2 (rd\<lparr>src := s2\<rparr>) arr = Inr (v, rd'\<lparr>src := s2\<rparr>)"
    and o: "\<forall>rd obj v rd'. src rd = s1 \<longrightarrow> all_cut s2 (strings_of_entries obj) \<longrightarrow>
               parse_object_loop n h1 rd obj = Inr (v, rd') \<longrightarrow>
               parse_object_loop n h2 (rd\<lparr>src := s2\<rparr>) obj = Inr (v, rd'\<lparr>src := s2\<rparr>)"
    by simp_all
  show ?case
    using parse_value_cut_end_step[OF rt1 rt2 st br l o]
      parse_array_loop_cut_end_step[OF rt1 rt2 st br v l]
      parse_object_loop_cut_end_step[OF rt1 rt2 st br v o]
    by blast
qed

lemma parse_text_enough_fuel:
  "parse_value (2 * length txt + 1) [txt @ [NUL]]
     \<lparr>src = \<lparr>storage = 0, offset = 0, length' = length txt\<rparr>, pos = 0, row = 1, column = 0\<rparr>
   \<noteq> Inl Out_of_fuel"
proof -
  let ?rd = "\<lparr>src = \<lparr>storage = 0, offset = 0, length' = length txt\<rparr>, pos = 0, row = 1, column = 0\<rparr>"
  from parse_never_out_of_fuel[of "[txt @ [NUL]]" ?rd] show ?thesis
    by (cases "parse_value (2 * length txt + 1) [txt @ [NUL]] ?rd")
       (auto simp: parse_def simp del: parse_value.simps)
qed

lemma parse_text_cut_end:
  assumes br: "set cl \<subseteq> {CHR '']'', CHR ''}''}" and r: "parse_text (d @ cl) = Inr v"
    and len: "length (d @ cl) < npos"
  shows "parse_text d = Inr v"
proof -
  let ?h1 = "[(d @ cl) @ [NUL]]" and ?h2 = "[d @ [NUL]]"
  let ?s1 = "\<lparr>storage = 0, offset = 0, length' = length (d @ cl)\<rparr>"
  let ?s2 = "\<lparr>storage = 0, offset = 0, length' = length d\<rparr>"
  let ?rd = "\<lparr>src = ?s1, pos = 0, row = 1, column = 0\<rparr>"
  let ?rd2 = "\<lparr>src = ?s2, pos = 0, row = 1, column = 0\<rparr>"
  have rt1: "reads_text ?h1 ?s1 (d @ cl)" using len by (rule reads_text_new)
  have rt2: "reads_text ?h2 ?s2 d" using len by (intro reads_text_new) simp
  from r obtain rd' where p1: "parse_value (2 * length (d @ cl) + 1) ?h1 ?rd = Inr (v, rd')"
    unfolding parse_text_unfold
    by (cases "parse_value (2 * length (d @ cl) + 1) ?h1 ?rd") (auto simp del: parse_value.simps)
  have e: "?rd\<lparr>src := ?s2\<rparr> = ?rd2" by simp
  have st: "storage ?s2 = storage ?s1" by simp
  have s: "src ?rd = ?s1" by simp
  from cut_end_all[OF rt1 rt2 st br, THEN conjunct1, rule_format, OF s p1]
  have "parse_value (2 * length (d @ cl) + 1) ?h2 (?rd\<lparr>src := ?s2\<rparr>) = Inr (v, rd'\<lparr>src := ?s2\<rparr>)" .
  then have big: "parse_value (2 * length (d @ cl) + 1) ?h2 ?rd2 = Inr (v, rd'\<lparr>src := ?s2\<rparr>)"
    unfolding e .
  have "parse_value (2 * length (d @ cl) + 1) ?h2 ?rd2 = parse_value (2 * length d + 1) ?h2 ?rd2"
    by (rule parse_value_more_fuel[OF refl parse_text_enough_fuel]) simp
  with big have "parse_value (2 * length d + 1) ?h2 ?rd2 = Inr (v, rd'\<lparr>src := ?s2\<rparr>)" by simp
  then show ?thesis unfolding parse_text_unfold by simp
qed

section \<open>More bytes after the end\<close>

text \<open>
  The shorter text is \<open>d\<close> and the longer one \<open>d @ b\<close>, for any bytes \<open>b\<close>. A call that returns
  on the shorter text with the cursor before the end of \<open>d\<close> has looked at bytes of \<open>d\<close>
  only, and returns the same on the longer text. A string may end with the last byte of \<open>d\<close>.
\<close>

lemma takeWhile_short_inside:
  "length (takeWhile P xs) < length xs \<Longrightarrow> \<exists>y\<in>set xs. \<not> P y"
  by (induction xs) (auto split: if_splits)

lemma at_pos_inside:
  assumes rtS: "reads_text hS (src rd) d" and rtL: "reads_text hL sL (d @ b)"
    and p: "pos rd < length d"
  shows "at_pos hL (rd\<lparr>src := sL\<rparr>) P = at_pos hS rd P"
proof -
  have rtL': "reads_text hL (src (rd\<lparr>src := sL\<rparr>)) (d @ b)" using rtL by simp
  show ?thesis unfolding at_pos_text[OF rtS] at_pos_text[OF rtL'] using p by (simp add: nth_append)
qed

lemma optional_comma_inside:
  assumes rtS: "reads_text hS (src rd) d" and rtL: "reads_text hL sL (d @ b)"
    and p: "pos rd < length d"
  shows "optional_comma hL (rd\<lparr>src := sL\<rparr>) = map_option (\<lambda>r. r\<lparr>src := sL\<rparr>) (optional_comma hS rd)"
  using at_pos_inside[OF rtS rtL p, of "\<lambda>c. c = CHR '',''"]
  by (auto simp: optional_comma_def swap_pos split: option.splits bool.splits)

lemma skip_whitespace_inside:
  assumes rtS: "reads_text hS (src rd) d" and rtL: "reads_text hL sL (d @ b)"
    and r: "skip_whitespace hS rd = Inr rd1" and p: "pos rd1 < length d"
  shows "skip_whitespace hL (rd\<lparr>src := sL\<rparr>) = Inr (rd1\<lparr>src := sL\<rparr>)"
proof -
  from skip_whitespace_text[OF rtS] r
  have "pos rd1 = pos rd + length (takeWhile isspace (drop (pos rd) d))" by auto
  with p have "length (takeWhile isspace (drop (pos rd) d)) < length (drop (pos rd) d)" by simp
  then have "\<exists>y\<in>set (drop (pos rd) d). \<not> isspace y" by (rule takeWhile_short_inside)
  then have "takeWhile isspace (drop (pos rd) (d @ b)) = takeWhile isspace (drop (pos rd) d)"
    by (rule takeWhile_drop_append_inside)
  from skip_whitespace_two[OF rtS rtL this] r show ?thesis by simp
qed

lemma leaf_inside:
  assumes rtS: "reads_text hS (src rd) d" and rtL: "reads_text hL sL (d @ b)"
    and st: "storage sL = storage (src rd)" and p: "pos rd < length d"
  shows "parse_null hS rd = Inr (v, rd') \<Longrightarrow> parse_null hL (rd\<lparr>src := sL\<rparr>) = Inr (v, rd'\<lparr>src := sL\<rparr>)"
    and "parse_true hS rd = Inr (v, rd') \<Longrightarrow> parse_true hL (rd\<lparr>src := sL\<rparr>) = Inr (v, rd'\<lparr>src := sL\<rparr>)"
    and "parse_false hS rd = Inr (v, rd') \<Longrightarrow> parse_false hL (rd\<lparr>src := sL\<rparr>) = Inr (v, rd'\<lparr>src := sL\<rparr>)"
    and "parse_string hS rd = Inr (v, rd') \<Longrightarrow> parse_string hL (rd\<lparr>src := sL\<rparr>) = Inr (v, rd'\<lparr>src := sL\<rparr>)"
    and "parse_number hS rd = Inr (v, rd') \<Longrightarrow> pos rd' < length d \<Longrightarrow>
         parse_number hL (rd\<lparr>src := sL\<rparr>) = Inr (v, rd'\<lparr>src := sL\<rparr>)"
proof -
  have pL: "pos rd < length (d @ b)" using p by simp
  have lit: "take n (drop (pos rd) (d @ b)) = lit"
    if "lit \<in> {''null'', ''true'', ''false''}" "length lit = n" "take n (drop (pos rd) d) = lit"
    for n lit
    using that(3,2) by (rule take_drop_append_fits)
  note l = parse_literals_two[OF rtS rtL p lit]
  show "parse_null hS rd = Inr (v, rd') \<Longrightarrow> parse_null hL (rd\<lparr>src := sL\<rparr>) = Inr (v, rd'\<lparr>src := sL\<rparr>)"
    by (rule l(1))
  show "parse_true hS rd = Inr (v, rd') \<Longrightarrow> parse_true hL (rd\<lparr>src := sL\<rparr>) = Inr (v, rd'\<lparr>src := sL\<rparr>)"
    by (rule l(2))
  show "parse_false hS rd = Inr (v, rd') \<Longrightarrow> parse_false hL (rd\<lparr>src := sL\<rparr>) = Inr (v, rd'\<lparr>src := sL\<rparr>)"
    by (rule l(3))
  {
    assume r: "parse_string hS rd = Inr (v, rd')"
    from parse_string_success[OF rtS p r] have q: "CHR 0x22 \<in> set (drop (pos rd + 1) d)" .
    then have qL: "CHR 0x22 \<in> set (drop (pos rd + 1) (d @ b))" by simp
    from q have "\<exists>y\<in>set (drop (pos rd + 1) d). \<not> y \<noteq> CHR 0x22" by auto
    then have tw: "takeWhile (\<lambda>x. x \<noteq> CHR 0x22) (drop (pos rd + 1) (d @ b))
        = takeWhile (\<lambda>x. x \<noteq> CHR 0x22) (drop (pos rd + 1) d)"
      by (rule takeWhile_drop_append_inside)
    from parse_string_two[OF rtS rtL st p pL qL tw r]
    show "parse_string hL (rd\<lparr>src := sL\<rparr>) = Inr (v, rd'\<lparr>src := sL\<rparr>)" .
  }
  {
    assume r: "parse_number hS rd = Inr (v, rd')" and e: "pos rd' < length d"
    from parse_number_text[OF rtS _ refl] p r
    have "pos rd' = pos rd + length (takeWhile number_char (drop (pos rd) d))"
      by (auto split: option.splits)
    with e have "length (takeWhile number_char (drop (pos rd) d)) < length (drop (pos rd) d)"
      by simp
    then have "\<exists>y\<in>set (drop (pos rd) d). \<not> number_char y" by (rule takeWhile_short_inside)
    then have tw: "takeWhile number_char (drop (pos rd) (d @ b))
        = takeWhile number_char (drop (pos rd) d)"
      by (rule takeWhile_drop_append_inside)
    from parse_number_two[OF rtS rtL _ _ tw r] p
    show "parse_number hL (rd\<lparr>src := sL\<rparr>) = Inr (v, rd'\<lparr>src := sL\<rparr>)" by simp
  }
qed

text \<open>What kind of value each parser returns.\<close>

lemma parse_array_loop_kind:
  "parse_array_loop n h rd arr = Inr (v, rd') \<Longrightarrow> \<exists>xs. v = Array xs"
proof (induction n arbitrary: rd arr)
  case 0
  then show ?case by simp
next
  case (Suc n)
  show ?case
  proof (cases "at_pos h rd (\<lambda>c. c \<noteq> CHR '']'') = Some True")
    case False
    with Suc.prems show ?thesis
      by (cases "at_pos h rd (\<lambda>c. c \<noteq> CHR '']'')") auto
  next
    case True
    with Suc.prems obtain x rd3 where "parse_array_loop n h rd3 (arr @ [x]) = Inr (v, rd')"
      by (auto split: sum.splits option.splits)
    then show ?thesis by (rule Suc.IH)
  qed
qed

lemma parse_object_loop_kind:
  "parse_object_loop n h rd obj = Inr (v, rd') \<Longrightarrow> \<exists>m. v = Object m"
proof (induction n arbitrary: rd obj)
  case 0
  then show ?case by simp
next
  case (Suc n)
  show ?case
  proof (cases "at_pos h rd (\<lambda>c. c \<noteq> CHR ''}'') = Some True")
    case False
    with Suc.prems show ?thesis
      by (cases "at_pos h rd (\<lambda>c. c \<noteq> CHR ''}'')") auto
  next
    case True
    with Suc.prems obtain rd4 obj' where "parse_object_loop n h rd4 obj' = Inr (v, rd')"
      by (auto split: sum.splits option.splits Value.splits bool.splits)
    then show ?thesis by (rule Suc.IH)
  qed
qed

lemma parse_number_kind:
  "parse_number h rd = Inr (v, rd') \<Longrightarrow> (\<exists>i. v = Integer i) \<or> (\<exists>q. v = Float q)"
  by (auto simp: parse_number_def Let_def split: option.splits if_splits)

lemma parse_value_inside_step:
  assumes rtS: "reads_text hS sS d" and rtL: "reads_text hL sL (d @ b)"
    and st: "storage sL = storage sS"
    and l0: "\<forall>rd arr v rd'. src rd = sS \<longrightarrow> parse_array_loop n hS rd arr = Inr (v, rd') \<longrightarrow>
               pos rd' < length d \<longrightarrow>
               parse_array_loop n hL (rd\<lparr>src := sL\<rparr>) arr = Inr (v, rd'\<lparr>src := sL\<rparr>)"
    and o0: "\<forall>rd obj v rd'. src rd = sS \<longrightarrow> all_cut sS (strings_of_entries obj) \<longrightarrow>
               parse_object_loop n hS rd obj = Inr (v, rd') \<longrightarrow> pos rd' < length d \<longrightarrow>
               parse_object_loop n hL (rd\<lparr>src := sL\<rparr>) obj = Inr (v, rd'\<lparr>src := sL\<rparr>)"
    and src: "src rd = sS" and r: "parse_value (Suc n) hS rd = Inr (v, rd')"
    and fin: "pos rd' < length d \<or> (\<exists>s. v = String s)"
  shows "parse_value (Suc n) hL (rd\<lparr>src := sL\<rparr>) = Inr (v, rd'\<lparr>src := sL\<rparr>)"
proof -
  from r obtain rd1 c where s: "skip_whitespace hS rd = Inr rd1"
    and lt: "pos rd1 < length' (src rd1)"
    and c: "char_at hS (src rd1) (pos rd1) = Some c"
    and dsp: "(if c = CHR ''n'' then parse_null hS rd1
             else if c = CHR ''t'' then parse_true hS rd1
             else if c = CHR ''f'' then parse_false hS rd1
             else if c = CHR 0x22 then parse_string hS rd1
             else if c = CHR ''['' then parse_array n hS rd1
             else if c = CHR ''{'' then parse_object n hS rd1
             else parse_number hS rd1) = Inr (v, rd')"
    by (auto split: sum.splits option.splits if_splits)
  have src1: "src rd1 = sS" using skip_whitespace_src_pos[OF s] src by simp
  have rt: "reads_text hS (src rd) d" using rtS src by simp
  have rt1: "reads_text hS (src rd1) d" using rtS src1 by simp
  have st1: "storage sL = storage (src rd1)" using st src1 by simp
  have ind: "pos rd1 < length d" using lt rt1 by (simp add: reads_text_def)
  have cd: "c = d ! pos rd1" using char_at_text_in[OF rt1 ind] c by simp
  have sk2: "skip_whitespace hL (rd\<lparr>src := sL\<rparr>) = Inr (rd1\<lparr>src := sL\<rparr>)"
    using rt rtL s ind by (rule skip_whitespace_inside)
  have c2: "char_at hL sL (pos rd1) = Some c"
    using char_at_text_in[OF rtL, of "pos rd1"] ind cd by (simp add: nth_append)
  have lt2: "pos rd1 < length' sL" using ind rtL by (simp add: reads_text_def)
  note leaf = leaf_inside[OF rt1 rtL st1 ind]
  have arr: "parse_array n hL (rd1\<lparr>src := sL\<rparr>) = Inr (v, rd'\<lparr>src := sL\<rparr>)"
    if "parse_array n hS rd1 = Inr (v, rd')"
  proof -
    from that obtain rd2 where a: "skip_whitespace hS (rd1\<lparr>pos := pos rd1 + 1\<rparr>) = Inr rd2"
      and b: "parse_array_loop n hS rd2 [] = Inr (v, rd')"
      by (auto split: sum.splits)
    from parse_array_loop_kind[OF b] fin have f: "pos rd' < length d" by auto
    have "progress rd2 rd'" using parse_progress_all[of n hS] b by blast
    then have p2: "pos rd2 < length d" using f by (simp add: progress_def)
    have "reads_text hS (src (rd1\<lparr>pos := pos rd1 + 1\<rparr>)) d" using rt1 by simp
    from skip_whitespace_inside[OF this rtL a p2]
    have a2: "skip_whitespace hL ((rd1\<lparr>pos := pos rd1 + 1\<rparr>)\<lparr>src := sL\<rparr>) = Inr (rd2\<lparr>src := sL\<rparr>)" .
    have "src rd2 = sS" using skip_whitespace_src_pos[OF a] src1 by simp
    from l0[rule_format, OF this b f] a2 show ?thesis by (simp add: swap_pos)
  qed
  have obj: "parse_object n hL (rd1\<lparr>src := sL\<rparr>) = Inr (v, rd'\<lparr>src := sL\<rparr>)"
    if "parse_object n hS rd1 = Inr (v, rd')"
  proof -
    from that obtain rd2 where a: "skip_whitespace hS (rd1\<lparr>pos := pos rd1 + 1\<rparr>) = Inr rd2"
      and b: "parse_object_loop n hS rd2 [] = Inr (v, rd')"
      by (auto split: sum.splits)
    from parse_object_loop_kind[OF b] fin have f: "pos rd' < length d" by auto
    have "progress rd2 rd'" using parse_progress_all[of n hS] b by blast
    then have p2: "pos rd2 < length d" using f by (simp add: progress_def)
    have "reads_text hS (src (rd1\<lparr>pos := pos rd1 + 1\<rparr>)) d" using rt1 by simp
    from skip_whitespace_inside[OF this rtL a p2]
    have a2: "skip_whitespace hL ((rd1\<lparr>pos := pos rd1 + 1\<rparr>)\<lparr>src := sL\<rparr>) = Inr (rd2\<lparr>src := sL\<rparr>)" .
    have "src rd2 = sS" using skip_whitespace_src_pos[OF a] src1 by simp
    from o0[rule_format, OF this _ b f] a2 show ?thesis by (simp add: swap_pos all_cut_def)
  qed
  have num: "parse_number hL (rd1\<lparr>src := sL\<rparr>) = Inr (v, rd'\<lparr>src := sL\<rparr>)"
    if "parse_number hS rd1 = Inr (v, rd')"
  proof -
    from parse_number_kind[OF that] fin have "pos rd' < length d" by auto
    with that show ?thesis by (rule leaf(5))
  qed
  have "(if c = CHR ''n'' then parse_null hL (rd1\<lparr>src := sL\<rparr>)
         else if c = CHR ''t'' then parse_true hL (rd1\<lparr>src := sL\<rparr>)
         else if c = CHR ''f'' then parse_false hL (rd1\<lparr>src := sL\<rparr>)
         else if c = CHR 0x22 then parse_string hL (rd1\<lparr>src := sL\<rparr>)
         else if c = CHR ''['' then parse_array n hL (rd1\<lparr>src := sL\<rparr>)
         else if c = CHR ''{'' then parse_object n hL (rd1\<lparr>src := sL\<rparr>)
         else parse_number hL (rd1\<lparr>src := sL\<rparr>)) = Inr (v, rd'\<lparr>src := sL\<rparr>)"
    using dsp leaf(1-4) arr obj num by (auto split: if_splits)
  with sk2 c2 lt2 show ?thesis by (simp del: parse_array.simps parse_object.simps)
qed

lemma parse_array_loop_inside_step:
  assumes rtS: "reads_text hS sS d" and rtL: "reads_text hL sL (d @ b)"
    and st: "storage sL = storage sS"
    and v0: "\<forall>rd v rd'. src rd = sS \<longrightarrow> parse_value n hS rd = Inr (v, rd') \<longrightarrow>
               pos rd' < length d \<or> (\<exists>s. v = String s) \<longrightarrow>
               parse_value n hL (rd\<lparr>src := sL\<rparr>) = Inr (v, rd'\<lparr>src := sL\<rparr>)"
    and l0: "\<forall>rd arr v rd'. src rd = sS \<longrightarrow> parse_array_loop n hS rd arr = Inr (v, rd') \<longrightarrow>
               pos rd' < length d \<longrightarrow>
               parse_array_loop n hL (rd\<lparr>src := sL\<rparr>) arr = Inr (v, rd'\<lparr>src := sL\<rparr>)"
    and src: "src rd = sS" and r: "parse_array_loop (Suc n) hS rd arr = Inr (w, rd')"
    and fin: "pos rd' < length d"
  shows "parse_array_loop (Suc n) hL (rd\<lparr>src := sL\<rparr>) arr = Inr (w, rd'\<lparr>src := sL\<rparr>)"
proof -
  have rt: "reads_text hS (src rd) d" using rtS src by simp
  have "progress rd rd'" using parse_progress_all[of "Suc n" hS] r by blast
  then have ind: "pos rd < length d" using fin by (simp add: progress_def)
  note ap = at_pos_inside[OF rt rtL ind, of "\<lambda>c. c \<noteq> CHR '']''"]
  show ?thesis
  proof (cases "at_pos hS rd (\<lambda>c. c \<noteq> CHR '']'') = Some True")
    case False
    with r have w: "at_pos hS rd (\<lambda>c. c \<noteq> CHR '']'') = Some False" "w = Array arr"
      "rd' = rd\<lparr>pos := pos rd + 1\<rparr>"
      by (cases "at_pos hS rd (\<lambda>c. c \<noteq> CHR '']'')"; auto)+
    with ap show ?thesis by (simp add: swap_pos)
  next
    case True
    with r obtain x rd1 rd2 rd3 where
      a: "parse_value n hS rd = Inr (x, rd1)" and b: "optional_comma hS rd1 = Some rd2"
      and c: "skip_whitespace hS rd2 = Inr rd3"
      and e: "parse_array_loop n hS rd3 (arr @ [x]) = Inr (w, rd')"
      by (auto split: sum.splits option.splits)
    have src1: "src rd1 = sS" using parse_value_progress[OF a] src by simp
    have src2: "src rd2 = sS" using optional_comma_progress[OF b] src1 by simp
    have src3: "src rd3 = sS" using skip_whitespace_src_pos[OF c] src2 by simp
    have "progress rd3 rd'" using parse_progress_all[of n hS] e by blast
    then have p3: "pos rd3 < length d" using fin by (simp add: progress_def)
    have p2: "pos rd2 < length d" using skip_whitespace_src_pos[OF c] p3 by simp
    have p1: "pos rd1 < length d" using optional_comma_progress[OF b] p2 by simp
    have pv2: "parse_value n hL (rd\<lparr>src := sL\<rparr>) = Inr (x, rd1\<lparr>src := sL\<rparr>)"
      using v0 src a p1 by blast
    have "reads_text hS (src rd1) d" using rtS src1 by simp
    from optional_comma_inside[OF this rtL p1] b
    have oc2: "optional_comma hL (rd1\<lparr>src := sL\<rparr>) = Some (rd2\<lparr>src := sL\<rparr>)" by simp
    have "reads_text hS (src rd2) d" using rtS src2 by simp
    from skip_whitespace_inside[OF this rtL c p3]
    have sk2: "skip_whitespace hL (rd2\<lparr>src := sL\<rparr>) = Inr (rd3\<lparr>src := sL\<rparr>)" .
    have lp2: "parse_array_loop n hL (rd3\<lparr>src := sL\<rparr>) (arr @ [x]) = Inr (w, rd'\<lparr>src := sL\<rparr>)"
      using l0 src3 e fin by blast
    show ?thesis using True ap pv2 oc2 sk2 lp2 by simp
  qed
qed

lemma parse_object_loop_inside_step:
  assumes rtS: "reads_text hS sS d" and rtL: "reads_text hL sL (d @ b)"
    and st: "storage sL = storage sS"
    and v0: "\<forall>rd v rd'. src rd = sS \<longrightarrow> parse_value n hS rd = Inr (v, rd') \<longrightarrow>
               pos rd' < length d \<or> (\<exists>s. v = String s) \<longrightarrow>
               parse_value n hL (rd\<lparr>src := sL\<rparr>) = Inr (v, rd'\<lparr>src := sL\<rparr>)"
    and o0: "\<forall>rd obj v rd'. src rd = sS \<longrightarrow> all_cut sS (strings_of_entries obj) \<longrightarrow>
               parse_object_loop n hS rd obj = Inr (v, rd') \<longrightarrow> pos rd' < length d \<longrightarrow>
               parse_object_loop n hL (rd\<lparr>src := sL\<rparr>) obj = Inr (v, rd'\<lparr>src := sL\<rparr>)"
    and src: "src rd = sS" and inv: "all_cut sS (strings_of_entries obj)"
    and r: "parse_object_loop (Suc n) hS rd obj = Inr (w, rd')"
    and fin: "pos rd' < length d"
  shows "parse_object_loop (Suc n) hL (rd\<lparr>src := sL\<rparr>) obj = Inr (w, rd'\<lparr>src := sL\<rparr>)"
proof -
  have rt: "reads_text hS (src rd) d" using rtS src by simp
  have "progress rd rd'" using parse_progress_all[of "Suc n" hS] r by blast
  then have ind: "pos rd < length d" using fin by (simp add: progress_def)
  note ap = at_pos_inside[OF rt rtL ind, of "\<lambda>c. c \<noteq> CHR ''}''"]
  show ?thesis
  proof (cases "at_pos hS rd (\<lambda>c. c \<noteq> CHR ''}'') = Some True")
    case False
    with r have w: "at_pos hS rd (\<lambda>c. c \<noteq> CHR ''}'') = Some False" "w = Object obj"
      "rd' = rd\<lparr>pos := pos rd + 1\<rparr>"
      by (cases "at_pos hS rd (\<lambda>c. c \<noteq> CHR ''}'')"; auto)+
    with ap show ?thesis by (simp add: swap_pos)
  next
    case True
    with r obtain k rd1 x rd2 rd3 rd4 obj' where
      a: "parse_value n hS rd = Inr (String k, rd1)"
      and col: "at_pos hS rd1 (\<lambda>c. c = CHR '':'') = Some True"
      and a': "parse_value n hS (rd1\<lparr>pos := pos rd1 + 1\<rparr>) = Inr (x, rd2)"
      and b: "optional_comma hS rd2 = Some rd3"
      and c: "skip_whitespace hS rd3 = Inr rd4"
      and oa: "obj_assign hS k x obj = Some obj'"
      and e: "parse_object_loop n hS rd4 obj' = Inr (w, rd')"
      by (auto split: sum.splits option.splits Value.splits bool.splits)
    have src1: "src rd1 = sS" using parse_value_progress[OF a] src by simp
    have src1': "src (rd1\<lparr>pos := pos rd1 + 1\<rparr>) = sS" using src1 by simp
    have src2: "src rd2 = sS" using parse_value_progress[OF a'] src1 by simp
    have src3: "src rd3 = sS" using optional_comma_progress[OF b] src2 by simp
    have src4: "src rd4 = sS" using skip_whitespace_src_pos[OF c] src3 by simp
    have "progress rd4 rd'" using parse_progress_all[of n hS] e by blast
    then have p4: "pos rd4 < length d" using fin by (simp add: progress_def)
    have p3: "pos rd3 < length d" using skip_whitespace_src_pos[OF c] p4 by simp
    have p2: "pos rd2 < length d" using optional_comma_progress[OF b] p3 by simp
    have p1: "pos rd1 < length d" using parse_value_progress[OF a'] p2 by simp
    have pv2: "parse_value n hL (rd\<lparr>src := sL\<rparr>) = Inr (String k, rd1\<lparr>src := sL\<rparr>)"
      using v0 src a p1 by blast
    have rt1: "reads_text hS (src rd1) d" using rtS src1 by simp
    have col2: "at_pos hL (rd1\<lparr>src := sL\<rparr>) (\<lambda>c. c = CHR '':'') = Some True"
      using at_pos_inside[OF rt1 rtL p1, of "\<lambda>c. c = CHR '':''"] col by simp
    have pv2': "parse_value n hL ((rd1\<lparr>pos := pos rd1 + 1\<rparr>)\<lparr>src := sL\<rparr>) = Inr (x, rd2\<lparr>src := sL\<rparr>)"
      using v0 src1' a' p2 by blast
    have "reads_text hS (src rd2) d" using rtS src2 by simp
    from optional_comma_inside[OF this rtL p2] b
    have oc2: "optional_comma hL (rd2\<lparr>src := sL\<rparr>) = Some (rd3\<lparr>src := sL\<rparr>)" by simp
    have "reads_text hS (src rd3) d" using rtS src3 by simp
    from skip_whitespace_inside[OF this rtL c p4]
    have sk2: "skip_whitespace hL (rd3\<lparr>src := sL\<rparr>) = Inr (rd4\<lparr>src := sL\<rparr>)" .
    have kc: "cut_from sS k" using parse_value_cut[OF a, of k] src by simp
    have xc: "all_cut sS (strings_of x)"
      using parse_value_cut[OF a'] src1 by (simp add: all_cut_def)
    have oa2: "obj_assign hL k x obj = Some obj'"
      using obj_assign_cuts_two[OF rtL rtS st[symmetric] kc inv] oa by simp
    have inv': "all_cut sS (strings_of_entries obj')"
      using oa kc xc inv by (rule obj_assign_all_cut)
    have lp2: "parse_object_loop n hL (rd4\<lparr>src := sL\<rparr>) obj' = Inr (w, rd'\<lparr>src := sL\<rparr>)"
      using o0 src4 inv' e fin by blast
    show ?thesis using True ap pv2 col2 pv2' oc2 sk2 oa2 lp2 by (simp add: swap_pos)
  qed
qed

lemma inside_all:
  assumes rtS: "reads_text hS sS d" and rtL: "reads_text hL sL (d @ b)"
    and st: "storage sL = storage sS"
  shows "(\<forall>rd v rd'. src rd = sS \<longrightarrow> parse_value n hS rd = Inr (v, rd') \<longrightarrow>
               pos rd' < length d \<or> (\<exists>s. v = String s) \<longrightarrow>
               parse_value n hL (rd\<lparr>src := sL\<rparr>) = Inr (v, rd'\<lparr>src := sL\<rparr>)) \<and>
     (\<forall>rd arr v rd'. src rd = sS \<longrightarrow> parse_array_loop n hS rd arr = Inr (v, rd') \<longrightarrow>
               pos rd' < length d \<longrightarrow>
               parse_array_loop n hL (rd\<lparr>src := sL\<rparr>) arr = Inr (v, rd'\<lparr>src := sL\<rparr>)) \<and>
     (\<forall>rd obj v rd'. src rd = sS \<longrightarrow> all_cut sS (strings_of_entries obj) \<longrightarrow>
               parse_object_loop n hS rd obj = Inr (v, rd') \<longrightarrow> pos rd' < length d \<longrightarrow>
               parse_object_loop n hL (rd\<lparr>src := sL\<rparr>) obj = Inr (v, rd'\<lparr>src := sL\<rparr>))"
proof (induction n)
  case 0
  show ?case by simp
next
  case (Suc n)
  then have v: "\<forall>rd v rd'. src rd = sS \<longrightarrow> parse_value n hS rd = Inr (v, rd') \<longrightarrow>
               pos rd' < length d \<or> (\<exists>s. v = String s) \<longrightarrow>
               parse_value n hL (rd\<lparr>src := sL\<rparr>) = Inr (v, rd'\<lparr>src := sL\<rparr>)"
    and l: "\<forall>rd arr v rd'. src rd = sS \<longrightarrow> parse_array_loop n hS rd arr = Inr (v, rd') \<longrightarrow>
               pos rd' < length d \<longrightarrow>
               parse_array_loop n hL (rd\<lparr>src := sL\<rparr>) arr = Inr (v, rd'\<lparr>src := sL\<rparr>)"
    and o: "\<forall>rd obj v rd'. src rd = sS \<longrightarrow> all_cut sS (strings_of_entries obj) \<longrightarrow>
               parse_object_loop n hS rd obj = Inr (v, rd') \<longrightarrow> pos rd' < length d \<longrightarrow>
               parse_object_loop n hL (rd\<lparr>src := sL\<rparr>) obj = Inr (v, rd'\<lparr>src := sL\<rparr>)"
    by simp_all
  show ?case
    using parse_value_inside_step[OF rtS rtL st l o]
      parse_array_loop_inside_step[OF rtS rtL st v l]
      parse_object_loop_inside_step[OF rtS rtL st v o]
    by blast
qed

section \<open>A key at the end of the shorter text\<close>

text \<open>
  When the reader over \<open>d\<close> stops at the end of \<open>d\<close> because it wants a colon there, it has
  read a key that ends with the last byte of \<open>d\<close>. Over \<open>d @ b\<close> it reads the same key and
  wants the colon at the same place; it stops there when \<open>b\<close> starts with another byte.
\<close>

lemma leaf_no_colon_error:
  "parse_null h rd \<noteq> Inl (Expected_colon p c)"
  "parse_true h rd \<noteq> Inl (Expected_colon p c)"
  "parse_false h rd \<noteq> Inl (Expected_colon p c)"
  "parse_string h rd \<noteq> Inl (Expected_colon p c)"
  "parse_number h rd \<noteq> Inl (Expected_colon p c)"
  by (auto simp: parse_null_def parse_true_def parse_false_def parse_string_def parse_number_def
      illegal_token_def invalid_token_def Let_def split: option.splits bool.splits if_splits)

lemma loop_error_inside:
  "parse_array_loop n h rd arr = Inl (Expected_colon p c) \<Longrightarrow> pos rd < length' (src rd)"
  "parse_object_loop n h rd obj = Inl (Expected_colon p c) \<Longrightarrow> pos rd < length' (src rd)"
proof -
  assume r: "parse_array_loop n h rd arr = Inl (Expected_colon p c)"
  then obtain m where n: "n = Suc m" by (cases n) auto
  from r have "at_pos h rd (\<lambda>c. c \<noteq> CHR '']'') = Some True"
    unfolding n by (cases "at_pos h rd (\<lambda>c. c \<noteq> CHR '']'')") (auto split: bool.splits)
  then show "pos rd < length' (src rd)" by (rule at_pos_True)
next
  assume r: "parse_object_loop n h rd obj = Inl (Expected_colon p c)"
  then obtain m where n: "n = Suc m" by (cases n) auto
  from r have "at_pos h rd (\<lambda>c. c \<noteq> CHR ''}'') = Some True"
    unfolding n by (cases "at_pos h rd (\<lambda>c. c \<noteq> CHR ''}'')") (auto split: bool.splits)
  then show "pos rd < length' (src rd)" by (rule at_pos_True)
qed

lemma parse_value_colon_step:
  assumes rtS: "reads_text hS sS d" and rtL: "reads_text hL sL (d @ b)"
    and st: "storage sL = storage sS"
    and l0: "\<forall>rd arr c. src rd = sS \<longrightarrow>
               parse_array_loop n hS rd arr = Inl (Expected_colon (length d) c) \<longrightarrow>
               parse_array_loop n hL (rd\<lparr>src := sL\<rparr>) arr = Inl (Expected_colon (length d) (hd b))"
    and o0: "\<forall>rd obj c. src rd = sS \<longrightarrow> all_cut sS (strings_of_entries obj) \<longrightarrow>
               parse_object_loop n hS rd obj = Inl (Expected_colon (length d) c) \<longrightarrow>
               parse_object_loop n hL (rd\<lparr>src := sL\<rparr>) obj = Inl (Expected_colon (length d) (hd b))"
    and src: "src rd = sS" and r: "parse_value (Suc n) hS rd = Inl (Expected_colon (length d) c)"
  shows "parse_value (Suc n) hL (rd\<lparr>src := sL\<rparr>) = Inl (Expected_colon (length d) (hd b))"
proof -
  have rt: "reads_text hS (src rd) d" using rtS src by simp
  have len: "length' sS = length d" using rtS by (simp add: reads_text_def)
  from skip_whitespace_text[OF rt] obtain rd1 where s: "skip_whitespace hS rd = Inr rd1"
    and src1: "src rd1 = sS" using src by auto
  from r s obtain c0 where lt: "pos rd1 < length' (src rd1)"
    and c: "char_at hS (src rd1) (pos rd1) = Some c0"
    and dsp: "(if c0 = CHR ''n'' then parse_null hS rd1
             else if c0 = CHR ''t'' then parse_true hS rd1
             else if c0 = CHR ''f'' then parse_false hS rd1
             else if c0 = CHR 0x22 then parse_string hS rd1
             else if c0 = CHR ''['' then parse_array n hS rd1
             else if c0 = CHR ''{'' then parse_object n hS rd1
             else parse_number hS rd1) = Inl (Expected_colon (length d) c)"
    by (auto split: option.splits if_splits)
  have rt1: "reads_text hS (src rd1) d" using rtS src1 by simp
  have ind: "pos rd1 < length d" using lt src1 len by simp
  have cd: "c0 = d ! pos rd1" using char_at_text_in[OF rt1 ind] c by simp
  have sk2: "skip_whitespace hL (rd\<lparr>src := sL\<rparr>) = Inr (rd1\<lparr>src := sL\<rparr>)"
    using rt rtL s ind by (rule skip_whitespace_inside)
  have c2: "char_at hL sL (pos rd1) = Some c0"
    using char_at_text_in[OF rtL, of "pos rd1"] ind cd by (simp add: nth_append)
  have lt2: "pos rd1 < length' sL" using ind rtL by (simp add: reads_text_def)
  let ?rd1 = "rd1\<lparr>pos := pos rd1 + 1\<rparr>"
  have rt1': "reads_text hS (src ?rd1) d" using rt1 by simp
  from skip_whitespace_text[OF rt1'] obtain rd2 where a: "skip_whitespace hS ?rd1 = Inr rd2"
    and src2: "src rd2 = sS" using src1 by auto
  have arr: "parse_array n hL (rd1\<lparr>src := sL\<rparr>) = Inl (Expected_colon (length d) (hd b))"
    if "parse_array n hS rd1 = Inl (Expected_colon (length d) c)"
  proof -
    from that a have e: "parse_array_loop n hS rd2 [] = Inl (Expected_colon (length d) c)" by simp
    from loop_error_inside(1)[OF e] have p2: "pos rd2 < length d" using src2 len by simp
    from skip_whitespace_inside[OF rt1' rtL a p2]
    have a2: "skip_whitespace hL (?rd1\<lparr>src := sL\<rparr>) = Inr (rd2\<lparr>src := sL\<rparr>)" .
    from l0[rule_format, OF src2 e] a2 show ?thesis by (simp add: swap_pos)
  qed
  have obj: "parse_object n hL (rd1\<lparr>src := sL\<rparr>) = Inl (Expected_colon (length d) (hd b))"
    if "parse_object n hS rd1 = Inl (Expected_colon (length d) c)"
  proof -
    from that a have e: "parse_object_loop n hS rd2 [] = Inl (Expected_colon (length d) c)" by simp
    from loop_error_inside(2)[OF e] have p2: "pos rd2 < length d" using src2 len by simp
    from skip_whitespace_inside[OF rt1' rtL a p2]
    have a2: "skip_whitespace hL (?rd1\<lparr>src := sL\<rparr>) = Inr (rd2\<lparr>src := sL\<rparr>)" .
    from o0[rule_format, OF src2 _ e] a2 show ?thesis by (simp add: swap_pos all_cut_def)
  qed
  have "(if c0 = CHR ''n'' then parse_null hL (rd1\<lparr>src := sL\<rparr>)
         else if c0 = CHR ''t'' then parse_true hL (rd1\<lparr>src := sL\<rparr>)
         else if c0 = CHR ''f'' then parse_false hL (rd1\<lparr>src := sL\<rparr>)
         else if c0 = CHR 0x22 then parse_string hL (rd1\<lparr>src := sL\<rparr>)
         else if c0 = CHR ''['' then parse_array n hL (rd1\<lparr>src := sL\<rparr>)
         else if c0 = CHR ''{'' then parse_object n hL (rd1\<lparr>src := sL\<rparr>)
         else parse_number hL (rd1\<lparr>src := sL\<rparr>)) = Inl (Expected_colon (length d) (hd b))"
    using dsp arr obj leaf_no_colon_error[of hS rd1 "length d" c] by (auto split: if_splits)
  with sk2 c2 lt2 show ?thesis by (simp del: parse_array.simps parse_object.simps)
qed

lemma parse_array_loop_colon_step:
  assumes rtS: "reads_text hS sS d" and rtL: "reads_text hL sL (d @ b)"
    and st: "storage sL = storage sS"
    and vk: "\<forall>rd v rd'. src rd = sS \<longrightarrow> parse_value n hS rd = Inr (v, rd') \<longrightarrow>
               pos rd' < length d \<or> (\<exists>s. v = String s) \<longrightarrow>
               parse_value n hL (rd\<lparr>src := sL\<rparr>) = Inr (v, rd'\<lparr>src := sL\<rparr>)"
    and v0: "\<forall>rd c. src rd = sS \<longrightarrow>
               parse_value n hS rd = Inl (Expected_colon (length d) c) \<longrightarrow>
               parse_value n hL (rd\<lparr>src := sL\<rparr>) = Inl (Expected_colon (length d) (hd b))"
    and l0: "\<forall>rd arr c. src rd = sS \<longrightarrow>
               parse_array_loop n hS rd arr = Inl (Expected_colon (length d) c) \<longrightarrow>
               parse_array_loop n hL (rd\<lparr>src := sL\<rparr>) arr = Inl (Expected_colon (length d) (hd b))"
    and src: "src rd = sS"
    and r: "parse_array_loop (Suc n) hS rd arr = Inl (Expected_colon (length d) c)"
  shows "parse_array_loop (Suc n) hL (rd\<lparr>src := sL\<rparr>) arr = Inl (Expected_colon (length d) (hd b))"
proof -
  have rt: "reads_text hS (src rd) d" using rtS src by simp
  have len: "length' sS = length d" using rtS by (simp add: reads_text_def)
  have ind: "pos rd < length d" using loop_error_inside(1)[OF r] src len by simp
  from r have t: "at_pos hS rd (\<lambda>c. c \<noteq> CHR '']'') = Some True"
    by (cases "at_pos hS rd (\<lambda>c. c \<noteq> CHR '']'')") (auto split: bool.splits)
  with at_pos_inside[OF rt rtL ind, of "\<lambda>c. c \<noteq> CHR '']''"]
  have t2: "at_pos hL (rd\<lparr>src := sL\<rparr>) (\<lambda>c. c \<noteq> CHR '']'') = Some True" by simp
  show ?thesis
  proof (cases "parse_value n hS rd")
    case (Inl e)
    with r t have "e = Expected_colon (length d) c" by simp
    with Inl v0 src have "parse_value n hL (rd\<lparr>src := sL\<rparr>) = Inl (Expected_colon (length d) (hd b))"
      by blast
    with t2 show ?thesis by simp
  next
    case (Inr q)
    obtain x rd1 where q: "q = (x, rd1)" by (cases q)
    note a = Inr[unfolded q]
    from r t a obtain rd2 where b: "optional_comma hS rd1 = Some rd2"
      by (auto split: option.splits)
    have src1: "src rd1 = sS" using parse_value_progress[OF a] src by simp
    have src2: "src rd2 = sS" using optional_comma_progress[OF b] src1 by simp
    have "reads_text hS (src rd2) d" using rtS src2 by simp
    from skip_whitespace_text[OF this] obtain rd3 where c: "skip_whitespace hS rd2 = Inr rd3"
      by auto
    from r t a b c
    have e: "parse_array_loop n hS rd3 (arr @ [x]) = Inl (Expected_colon (length d) c)" by simp
    have src3: "src rd3 = sS" using skip_whitespace_src_pos[OF c] src2 by simp
    have p3: "pos rd3 < length d" using loop_error_inside(1)[OF e] src3 len by simp
    have p2: "pos rd2 < length d" using skip_whitespace_src_pos[OF c] p3 by simp
    have p1: "pos rd1 < length d" using optional_comma_progress[OF b] p2 by simp
    have pv2: "parse_value n hL (rd\<lparr>src := sL\<rparr>) = Inr (x, rd1\<lparr>src := sL\<rparr>)"
      using vk src a p1 by blast
    have "reads_text hS (src rd1) d" using rtS src1 by simp
    from optional_comma_inside[OF this rtL p1] b
    have oc2: "optional_comma hL (rd1\<lparr>src := sL\<rparr>) = Some (rd2\<lparr>src := sL\<rparr>)" by simp
    have "reads_text hS (src rd2) d" using rtS src2 by simp
    from skip_whitespace_inside[OF this rtL c p3]
    have sk2: "skip_whitespace hL (rd2\<lparr>src := sL\<rparr>) = Inr (rd3\<lparr>src := sL\<rparr>)" .
    have lp2: "parse_array_loop n hL (rd3\<lparr>src := sL\<rparr>) (arr @ [x])
        = Inl (Expected_colon (length d) (hd b))"
      using l0 src3 e by blast
    show ?thesis using t2 pv2 oc2 sk2 lp2 by simp
  qed
qed

lemma parse_object_loop_colon_step:
  assumes rtS: "reads_text hS sS d" and rtL: "reads_text hL sL (d @ b)"
    and st: "storage sL = storage sS" and bne: "b \<noteq> []" and hb: "hd b \<noteq> CHR '':''"
    and vk: "\<forall>rd v rd'. src rd = sS \<longrightarrow> parse_value n hS rd = Inr (v, rd') \<longrightarrow>
               pos rd' < length d \<or> (\<exists>s. v = String s) \<longrightarrow>
               parse_value n hL (rd\<lparr>src := sL\<rparr>) = Inr (v, rd'\<lparr>src := sL\<rparr>)"
    and v0: "\<forall>rd c. src rd = sS \<longrightarrow>
               parse_value n hS rd = Inl (Expected_colon (length d) c) \<longrightarrow>
               parse_value n hL (rd\<lparr>src := sL\<rparr>) = Inl (Expected_colon (length d) (hd b))"
    and o0: "\<forall>rd obj c. src rd = sS \<longrightarrow> all_cut sS (strings_of_entries obj) \<longrightarrow>
               parse_object_loop n hS rd obj = Inl (Expected_colon (length d) c) \<longrightarrow>
               parse_object_loop n hL (rd\<lparr>src := sL\<rparr>) obj = Inl (Expected_colon (length d) (hd b))"
    and src: "src rd = sS" and inv: "all_cut sS (strings_of_entries obj)"
    and r: "parse_object_loop (Suc n) hS rd obj = Inl (Expected_colon (length d) c)"
  shows "parse_object_loop (Suc n) hL (rd\<lparr>src := sL\<rparr>) obj = Inl (Expected_colon (length d) (hd b))"
proof -
  have rt: "reads_text hS (src rd) d" using rtS src by simp
  have len: "length' sS = length d" using rtS by (simp add: reads_text_def)
  have ind: "pos rd < length d" using loop_error_inside(2)[OF r] src len by simp
  from r have t: "at_pos hS rd (\<lambda>c. c \<noteq> CHR ''}'') = Some True"
    by (cases "at_pos hS rd (\<lambda>c. c \<noteq> CHR ''}'')") (auto split: bool.splits)
  with at_pos_inside[OF rt rtL ind, of "\<lambda>c. c \<noteq> CHR ''}''"]
  have t2: "at_pos hL (rd\<lparr>src := sL\<rparr>) (\<lambda>c. c \<noteq> CHR ''}'') = Some True" by simp
  show ?thesis
  proof (cases "parse_value n hS rd")
    case (Inl e)
    with r t have "e = Expected_colon (length d) c" by simp
    with Inl v0 src have "parse_value n hL (rd\<lparr>src := sL\<rparr>) = Inl (Expected_colon (length d) (hd b))"
      by blast
    with t2 show ?thesis by simp
  next
    case (Inr q)
    obtain kv rd1 where q: "q = (kv, rd1)" by (cases q)
    from r t Inr q obtain k where kv: "kv = String k" by (cases kv) auto
    note a = Inr[unfolded q kv]
    have src1: "src rd1 = sS" using parse_value_progress[OF a] src by simp
    have rt1: "reads_text hS (src rd1) d" using rtS src1 by simp
    have rtL1: "reads_text hL (src (rd1\<lparr>src := sL\<rparr>)) (d @ b)" using rtL by simp
    have pv2: "parse_value n hL (rd\<lparr>src := sL\<rparr>) = Inr (String k, rd1\<lparr>src := sL\<rparr>)"
      using vk src a by blast
    have kc: "cut_from sS k" using parse_value_cut[OF a, of k] src by simp
    show ?thesis
    proof (cases "pos rd1 < length d \<and> d ! pos rd1 = CHR '':''")
      case False
      then have col: "at_pos hS rd1 (\<lambda>c. c = CHR '':'') = Some False"
        using at_pos_text[OF rt1, of "\<lambda>c. c = CHR '':''"] by simp
      with r t a have "expected_colon hS rd1 = Expected_colon (length d) c" by simp
      then have p1: "pos rd1 = length d"
        by (auto simp: expected_colon_def split: option.splits)
      have c1: "(d @ b) ! length d = hd b" using bne by (cases b) (simp_all add: nth_append)
      have col2: "at_pos hL (rd1\<lparr>src := sL\<rparr>) (\<lambda>c. c = CHR '':'') = Some False"
        using at_pos_text[OF rtL1, of "\<lambda>c. c = CHR '':''"] p1 c1 hb by simp
      have "char_at hL sL (length d) = Some (hd b)"
        using char_at_text_in[OF rtL, of "length d"] bne c1 by simp
      then have "expected_colon hL (rd1\<lparr>src := sL\<rparr>) = Expected_colon (length d) (hd b)"
        by (simp add: expected_colon_def p1)
      with t2 pv2 col2 show ?thesis by simp
    next
      case True
      then have p1: "pos rd1 < length d" by simp
      from True have col: "at_pos hS rd1 (\<lambda>c. c = CHR '':'') = Some True"
        using at_pos_text[OF rt1, of "\<lambda>c. c = CHR '':''"] by simp
      with at_pos_inside[OF rt1 rtL p1, of "\<lambda>c. c = CHR '':''"]
      have col2: "at_pos hL (rd1\<lparr>src := sL\<rparr>) (\<lambda>c. c = CHR '':'') = Some True" by simp
      let ?rd1 = "rd1\<lparr>pos := pos rd1 + 1\<rparr>"
      have src1': "src ?rd1 = sS" using src1 by simp
      show ?thesis
      proof (cases "parse_value n hS ?rd1")
        case (Inl e)
        with r t a col have "e = Expected_colon (length d) c" by simp
        with Inl v0 src1' have "parse_value n hL (?rd1\<lparr>src := sL\<rparr>)
            = Inl (Expected_colon (length d) (hd b))" by blast
        with t2 pv2 col2 show ?thesis by (simp add: swap_pos)
      next
        case (Inr q')
        obtain x rd2 where q': "q' = (x, rd2)" by (cases q')
        note a' = Inr[unfolded q']
        from r t a col a' obtain rd3 where b: "optional_comma hS rd2 = Some rd3"
          by (auto split: option.splits)
        have src2: "src rd2 = sS" using parse_value_progress[OF a'] src1 by simp
        have src3: "src rd3 = sS" using optional_comma_progress[OF b] src2 by simp
        have "reads_text hS (src rd3) d" using rtS src3 by simp
        from skip_whitespace_text[OF this] obtain rd4 where c: "skip_whitespace hS rd3 = Inr rd4"
          by auto
        from r t a col a' b c obtain obj' where oa: "obj_assign hS k x obj = Some obj'"
          and e: "parse_object_loop n hS rd4 obj' = Inl (Expected_colon (length d) c)"
          by (auto split: option.splits)
        have src4: "src rd4 = sS" using skip_whitespace_src_pos[OF c] src3 by simp
        have p4: "pos rd4 < length d" using loop_error_inside(2)[OF e] src4 len by simp
        have p3: "pos rd3 < length d" using skip_whitespace_src_pos[OF c] p4 by simp
        have p2: "pos rd2 < length d" using optional_comma_progress[OF b] p3 by simp
        have pv2': "parse_value n hL (?rd1\<lparr>src := sL\<rparr>) = Inr (x, rd2\<lparr>src := sL\<rparr>)"
          using vk src1' a' p2 by blast
        have "reads_text hS (src rd2) d" using rtS src2 by simp
        from optional_comma_inside[OF this rtL p2] b
        have oc2: "optional_comma hL (rd2\<lparr>src := sL\<rparr>) = Some (rd3\<lparr>src := sL\<rparr>)" by simp
        have "reads_text hS (src rd3) d" using rtS src3 by simp
        from skip_whitespace_inside[OF this rtL c p4]
        have sk2: "skip_whitespace hL (rd3\<lparr>src := sL\<rparr>) = Inr (rd4\<lparr>src := sL\<rparr>)" .
        have xc: "all_cut sS (strings_of x)"
          using parse_value_cut[OF a'] src1 by (simp add: all_cut_def)
        have oa2: "obj_assign hL k x obj = Some obj'"
          using obj_assign_cuts_two[OF rtL rtS st[symmetric] kc inv] oa by simp
        have inv': "all_cut sS (strings_of_entries obj')"
          using oa kc xc inv by (rule obj_assign_all_cut)
        have lp2: "parse_object_loop n hL (rd4\<lparr>src := sL\<rparr>) obj'
            = Inl (Expected_colon (length d) (hd b))"
          using o0 src4 inv' e by blast
        show ?thesis using t2 pv2 col2 pv2' oc2 sk2 oa2 lp2 by (simp add: swap_pos)
      qed
    qed
  qed
qed

lemma colon_all:
  assumes rtS: "reads_text hS sS d" and rtL: "reads_text hL sL (d @ b)"
    and st: "storage sL = storage sS" and bne: "b \<noteq> []" and hb: "hd b \<noteq> CHR '':''"
  shows "(\<forall>rd c. src rd = sS \<longrightarrow>
               parse_value n hS rd = Inl (Expected_colon (length d) c) \<longrightarrow>
               parse_value n hL (rd\<lparr>src := sL\<rparr>) = Inl (Expected_colon (length d) (hd b))) \<and>
     (\<forall>rd arr c. src rd = sS \<longrightarrow>
               parse_array_loop n hS rd arr = Inl (Expected_colon (length d) c) \<longrightarrow>
               parse_array_loop n hL (rd\<lparr>src := sL\<rparr>) arr = Inl (Expected_colon (length d) (hd b))) \<and>
     (\<forall>rd obj c. src rd = sS \<longrightarrow> all_cut sS (strings_of_entries obj) \<longrightarrow>
               parse_object_loop n hS rd obj = Inl (Expected_colon (length d) c) \<longrightarrow>
               parse_object_loop n hL (rd\<lparr>src := sL\<rparr>) obj = Inl (Expected_colon (length d) (hd b)))"
proof (induction n)
  case 0
  show ?case by simp
next
  case (Suc n)
  then have v: "\<forall>rd c. src rd = sS \<longrightarrow>
               parse_value n hS rd = Inl (Expected_colon (length d) c) \<longrightarrow>
               parse_value n hL (rd\<lparr>src := sL\<rparr>) = Inl (Expected_colon (length d) (hd b))"
    and l: "\<forall>rd arr c. src rd = sS \<longrightarrow>
               parse_array_loop n hS rd arr = Inl (Expected_colon (length d) c) \<longrightarrow>
               parse_array_loop n hL (rd\<lparr>src := sL\<rparr>) arr = Inl (Expected_colon (length d) (hd b))"
    and o: "\<forall>rd obj c. src rd = sS \<longrightarrow> all_cut sS (strings_of_entries obj) \<longrightarrow>
               parse_object_loop n hS rd obj = Inl (Expected_colon (length d) c) \<longrightarrow>
               parse_object_loop n hL (rd\<lparr>src := sL\<rparr>) obj = Inl (Expected_colon (length d) (hd b))"
    by simp_all
  note vk = inside_all[OF rtS rtL st, of n, THEN conjunct1]
  show ?case
    using parse_value_colon_step[OF rtS rtL st l o]
      parse_array_loop_colon_step[OF rtS rtL st vk v l]
      parse_object_loop_colon_step[OF rtS rtL st bne hb vk v o]
    by blast
qed

lemma parse_text_colon_wanted:
  assumes r: "parse_text a = Inl (Expected_colon (length a) c)"
    and bne: "b \<noteq> []" and hb: "hd b \<noteq> CHR '':''" and len: "length (a @ b) < npos"
  shows "parse_text (a @ b) = Inl (Expected_colon (length a) (hd b))"
proof -
  let ?hL = "[(a @ b) @ [NUL]]" and ?hS = "[a @ [NUL]]"
  let ?sL = "\<lparr>storage = 0, offset = 0, length' = length (a @ b)\<rparr>"
  let ?sS = "\<lparr>storage = 0, offset = 0, length' = length a\<rparr>"
  let ?rdS = "\<lparr>src = ?sS, pos = 0, row = 1, column = 0\<rparr>"
  let ?rdL = "\<lparr>src = ?sL, pos = 0, row = 1, column = 0\<rparr>"
  have rtL: "reads_text ?hL ?sL (a @ b)" using len by (rule reads_text_new)
  have rtS: "reads_text ?hS ?sS a" using len by (intro reads_text_new) simp
  from r have p1: "parse_value (2 * length a + 1) ?hS ?rdS = Inl (Expected_colon (length a) c)"
    unfolding parse_text_unfold
    by (cases "parse_value (2 * length a + 1) ?hS ?rdS") (auto simp del: parse_value.simps)
  have e: "?rdS\<lparr>src := ?sL\<rparr> = ?rdL" by simp
  have st: "storage ?sL = storage ?sS" by simp
  have s: "src ?rdS = ?sS" by simp
  from colon_all[OF rtS rtL st bne hb, THEN conjunct1, rule_format, OF s p1]
  have "parse_value (2 * length a + 1) ?hL (?rdS\<lparr>src := ?sL\<rparr>)
      = Inl (Expected_colon (length a) (hd b))" .
  then have small: "parse_value (2 * length a + 1) ?hL ?rdL = Inl (Expected_colon (length a) (hd b))"
    unfolding e .
  have "parse_value (2 * length (a @ b) + 1) ?hL ?rdL = Inl (Expected_colon (length a) (hd b))"
    by (rule parse_value_more_fuel[OF small]) simp_all
  then show ?thesis unfolding parse_text_unfold by simp
qed

section \<open>The entries of an object text, in any order\<close>

lemma fold_ins_sorted:
  "sorted_wrt bytes_less (map fst m) \<Longrightarrow>
   sorted_wrt bytes_less (map fst (fold (\<lambda>e. ins (fst e) (snd e)) es m))"
  by (induction es arbitrary: m) (simp_all add: ins_sorted)

lemma fold_ins_map_of:
  "sorted_wrt bytes_less (map fst m) \<Longrightarrow>
   map_of (fold (\<lambda>e. ins (fst e) (snd e)) es m) = map_of (rev es @ m)"
proof (induction es arbitrary: m)
  case Nil
  show ?case by simp
next
  case (Cons e es)
  obtain k v where e: "e = (k, v)" by (cases e)
  have "map_of (fold (\<lambda>e. ins (fst e) (snd e)) es (ins k v m)) = map_of (rev es @ ins k v m)"
    using Cons.prems by (intro Cons.IH ins_sorted)
  also have "\<dots> = map_of (ins k v m) ++ map_of (rev es)" by (rule map_of_append)
  also have "map_of (ins k v m) = map_of ((k, v) # m)"
    using Cons.prems by (simp add: ins_map_of)
  also have "map_of ((k, v) # m) ++ map_of (rev es) = map_of (rev es @ (k, v) # m)"
    by (rule map_of_append[symmetric])
  finally show ?case by (simp add: e)
qed

lemma obj_assign_shown:
  "shown_entries h m = Some sm \<Longrightarrow> string_view h k = Some kb \<Longrightarrow> shown h v = Some jv \<Longrightarrow>
   \<exists>m'. obj_assign h k v m = Some m' \<and> shown_entries h m' = Some (ins kb jv sm)"
proof (induction m arbitrary: sm)
  case Nil
  then show ?case by simp
next
  case (Cons e m)
  obtain k' v' where e: "e = (k', v')" by (cases e)
  from Cons.prems(1) e obtain kb' jv' sm' where
    k': "string_view h k' = Some kb'" and v': "shown h v' = Some jv'"
    and m: "shown_entries h m = Some sm'" and sm: "sm = (kb', jv') # sm'"
    by (auto split: option.splits)
  from Cons.IH[OF m Cons.prems(2,3)] obtain m' where
    m': "obj_assign h k v m = Some m'" "shown_entries h m' = Some (ins kb jv sm')" by blast
  show ?case
    using k' v' m m' Cons.prems(2,3)
    by (cases "bytes_less kb kb'"; cases "bytes_less kb' kb")
       (simp_all add: e sm cow_less_view[OF Cons.prems(2) k'] cow_less_view[OF k' Cons.prems(2)])
qed

text \<open>
  The loop of \<open>parse_object\<close> over the text of a sequence of entries, whatever the order of
  the keys and however often a key occurs: every entry is assigned to the object in turn.
\<close>

lemma read_entries_any:
  assumes "plain_entries h kvs"
  shows "\<exists>t skvs. write_object fmt h kvs = Some t \<and> shown_entries h kvs = Some skvs \<and>
     (\<forall>h' rd doc pre post n acc sacc.
        reads_text h' (src rd) doc \<and> doc = pre @ t @ CHR ''}'' # post \<and> pos rd = length pre \<and>
        2 * length t + 2 \<le> n \<and> shown_entries h' acc = Some sacc \<longrightarrow>
        (\<exists>m. parse_object_loop n h' rd acc
                 = Inr (Object m, rd\<lparr>pos := length pre + length t + 1\<rparr>) \<and>
             shown_entries h' m = Some (fold (\<lambda>e. ins (fst e) (snd e)) skvs sacc)))"
  using assms
proof (induction kvs)
  case Nil
  have base: "\<exists>m. parse_object_loop n h' rd acc = Inr (Object m, rd\<lparr>pos := length pre + 0 + 1\<rparr>)
            \<and> shown_entries h' m = Some sacc"
    if rt: "reads_text h' (src rd) doc" and t: "doc = pre @ CHR ''}'' # post"
      and p: "pos rd = length pre" and f: "2 \<le> n" and sa: "shown_entries h' acc = Some sacc"
    for h' rd doc pre post n acc sacc
  proof -
    obtain n' where n: "n = Suc n'" using f by (cases n) auto
    have "at_pos h' rd (\<lambda>c. c \<noteq> CHR ''}'') = Some False"
      using at_pos_text[OF rt, of "\<lambda>c. c \<noteq> CHR ''}''"] by (simp add: t p)
    then show ?thesis using sa by (simp add: n p)
  qed
  show ?case
  proof (rule exI[of _ "[]"], rule exI[of _ "[]"], intro conjI allI impI)
    show "write_object fmt h [] = Some []" by simp
    show "shown_entries h [] = Some []" by simp
    fix h' and rd :: json_reader and doc pre post n acc
      and sacc :: "(char list \<times> json) list"
    assume "reads_text h' (src rd) doc \<and> doc = pre @ [] @ CHR ''}'' # post \<and>
       pos rd = length pre \<and> 2 * length ([] :: char list) + 2 \<le> n \<and>
       shown_entries h' acc = Some sacc"
    then show "\<exists>m. parse_object_loop n h' rd acc
          = Inr (Object m, rd\<lparr>pos := length pre + length ([] :: char list) + 1\<rparr>) \<and>
          shown_entries h' m = Some (fold (\<lambda>e. ins (fst e) (snd e)) [] sacc)"
      using base[of h' rd doc pre post n acc sacc] by auto
  qed
next
  case (Cons e kvs)
  obtain k v where e: "e = (k, v)" by (cases e)
  from Cons.prems e have pv: "plain h v" and pk: "plain_key h k"
    and pxs: "plain_entries h kvs"
    by simp_all
  from pk obtain kb where vk: "string_view h k = Some kb" and q: "CHR 0x22 \<notin> set kb"
    by (auto simp: plain_key_def split: option.splits)
  from reads_backD[OF all_reads_back pv, of fmt] obtain tv where
    wv: "write_node fmt h v = Some tv" and sv0: "shown h v \<noteq> None"
    and rv: "\<And>h' rd txt pre post n.
           reads_text h' (src rd) txt \<Longrightarrow> txt = pre @ tv @ post \<Longrightarrow> pos rd = length pre \<Longrightarrow>
           post = [] \<or> \<not> number_char (hd post) \<Longrightarrow> 2 * length tv + 1 \<le> n \<Longrightarrow>
           \<exists>v'. parse_value n h' rd = Inr (v', rd\<lparr>pos := length pre + length tv\<rparr>) \<and>
                 shown h' v' = shown h v"
    by blast
  from sv0 obtain jv where jv: "shown h v = Some jv" by auto
  from Cons.IH[OF pxs] obtain ts skvs where
    ws: "write_object fmt h kvs = Some ts" and ss: "shown_entries h kvs = Some skvs"
    and rs: "\<And>h' rd txt pre post n acc sacc.
        reads_text h' (src rd) txt \<Longrightarrow> txt = pre @ ts @ CHR ''}'' # post \<Longrightarrow> pos rd = length pre \<Longrightarrow>
        2 * length ts + 2 \<le> n \<Longrightarrow> shown_entries h' acc = Some sacc \<Longrightarrow>
        \<exists>m. parse_object_loop n h' rd acc
                 = Inr (Object m, rd\<lparr>pos := length pre + length ts + 1\<rparr>) \<and>
             shown_entries h' m = Some (fold (\<lambda>e. ins (fst e) (snd e)) skvs sacc)"
    by blast
  let ?sep = "if kvs = [] then [] else '',''"
  let ?key = "CHR 0x22 # kb @ [CHR 0x22]"
  let ?t = "?key @ CHR '':'' # tv @ ?sep @ ts"
  have w: "write_object fmt h (e # kvs) = Some ?t" using vk wv ws by (simp add: e)
  have sh: "shown_entries h (e # kvs) = Some ((kb, jv) # skvs)"
    using vk jv ss by (simp add: e)
  have tsne: "kvs \<noteq> [] \<Longrightarrow> ts \<noteq> [] \<and> hd ts = CHR 0x22"
    using write_object_starts[OF ws] by simp
  have tsnil: "kvs = [] \<Longrightarrow> ts = []" using ws by simp
  have step: "\<exists>m. parse_object_loop n h' rd acc
                 = Inr (Object m, rd\<lparr>pos := length pre + length ?t + 1\<rparr>) \<and>
             shown_entries h' m = Some (fold (\<lambda>e. ins (fst e) (snd e)) ((kb, jv) # skvs) sacc)"
    if rt: "reads_text h' (src rd) doc" and t: "doc = pre @ ?t @ CHR ''}'' # post"
      and p: "pos rd = length pre" and f: "2 * length ?t + 2 \<le> n"
      and sa: "shown_entries h' acc = Some sacc"
    for h' rd doc pre post n acc sacc
  proof -
    obtain n'' where n: "n = Suc (Suc n'')" using f by (cases n; cases "n - 1") auto
    let ?postv = "?sep @ ts @ CHR ''}'' # post"
    let ?postk = "CHR '':'' # tv @ ?postv"
    have tk: "doc = pre @ ?key @ ?postk" using t by simp
    have a: "at_pos h' rd (\<lambda>c. c \<noteq> CHR ''}'') = Some True"
      using at_pos_text[OF rt, of "\<lambda>c. c \<noteq> CHR ''}''"] by (simp add: tk p nth_append)
    from read_string[OF rt tk p q, of n''] obtain s where
      key: "parse_value (Suc n'') h' rd = Inr (String s, rd\<lparr>pos := length pre + (length kb + 2)\<rparr>)"
      and vs: "string_view h' s = Some kb" by blast
    let ?rd1 = "rd\<lparr>pos := length pre + (length kb + 2)\<rparr>"
    have rt1: "reads_text h' (src ?rd1) doc" using rt by simp
    let ?prek = "pre @ ?key"
    have "doc ! length ?prek = hd ?postk"
      by (subst tk, subst append_assoc[symmetric]) (rule nth_length_append, simp)
    then have c1: "doc ! (length pre + (length kb + 2)) = CHR '':''" by simp
    have lt1: "length pre + (length kb + 2) < length doc" by (simp add: tk)
    have colon: "at_pos h' ?rd1 (\<lambda>c. c = CHR '':'') = Some True"
      using at_pos_text[OF rt1, of "\<lambda>c. c = CHR '':''"] c1 lt1 by simp
    let ?prev = "pre @ ?key @ [CHR '':'']"
    let ?rd1' = "rd\<lparr>pos := length ?prev\<rparr>"
    have rt1': "reads_text h' (src ?rd1') doc" using rt by simp
    have tv: "doc = ?prev @ tv @ ?postv" using t by simp
    have hp: "?postv = [] \<or> \<not> number_char (hd ?postv)"
      using tsnil by (cases "kvs = []") (simp_all add: not_number_char_structural)
    have fv: "2 * length tv + 1 \<le> Suc n''" using f n by simp
    from rv[OF rt1' tv _ hp fv] obtain v' where
      val: "parse_value (Suc n'') h' ?rd1' = Inr (v', ?rd1'\<lparr>pos := length ?prev + length tv\<rparr>)"
      and sv: "shown h' v' = shown h v" by auto
    let ?rd2 = "rd\<lparr>pos := length ?prev + length tv\<rparr>"
    let ?rd3 = "rd\<lparr>pos := length ?prev + length tv + length ?sep\<rparr>"
    have rt2: "reads_text h' (src ?rd2) doc" using rt by simp
    have "doc ! length (?prev @ tv) = hd ?postv"
      by (subst tv, subst append_assoc[symmetric]) (rule nth_length_append, simp)
    then have c2: "doc ! (length ?prev + length tv) = hd ?postv" by (simp add: add.assoc)
    have lt2: "length ?prev + length tv < length doc" by (simp add: tk)
    have oc: "optional_comma h' ?rd2 = Some ?rd3"
      using at_pos_text[OF rt2, of "\<lambda>c. c = CHR '',''"] c2 lt2 tsnil
      by (cases "kvs = []") (simp_all add: optional_comma_def)
    have rt3: "reads_text h' (src ?rd3) doc" using rt by simp
    let ?pre3 = "?prev @ tv @ ?sep"
    have t3: "doc = ?pre3 @ ts @ CHR ''}'' # post" using t by simp
    have lp3: "length ?pre3 = length ?prev + length tv + length ?sep" by simp
    have p3: "pos ?rd3 = length ?pre3" by simp
    have "doc ! length ?pre3 = hd (ts @ CHR ''}'' # post)"
      by (subst t3) (rule nth_length_append, simp)
    then have c3: "doc ! pos ?rd3 = hd (ts @ CHR ''}'' # post)"
      unfolding lp3 by simp
    have ns: "\<not> isspace (doc ! pos ?rd3)"
    proof (cases "kvs = []")
      case True
      with c3 tsnil show ?thesis by (simp add: open_bracket_not_space)
    next
      case False
      with tsne have "ts \<noteq> []" "hd ts = CHR 0x22" by simp_all
      with c3 show ?thesis by (simp add: open_bracket_not_space)
    qed
    have sk: "skip_whitespace h' ?rd3 = Inr ?rd3"
      using rt3 ns by (intro skip_whitespace_stay) auto
    have sv': "shown h' v' = Some jv" using sv jv by simp
    from obj_assign_shown[OF sa vs sv'] obtain acc1 where
      assign: "obj_assign h' s v' acc = Some acc1"
      and sa1: "shown_entries h' acc1 = Some (ins kb jv sacc)" by blast
    have fs: "2 * length ts + 2 \<le> Suc n''" using f n by simp
    from rs[OF rt3 t3 p3 fs sa1] obtain m where
      l: "parse_object_loop (Suc n'') h' ?rd3 acc1 =
            Inr (Object m, ?rd3\<lparr>pos := length ?pre3 + length ts + 1\<rparr>)"
      and sl: "shown_entries h' m = Some (fold (\<lambda>e. ins (fst e) (snd e)) skvs (ins kb jv sacc))"
      by blast
    have "parse_object_loop n h' rd acc
        = Inr (Object m, rd\<lparr>pos := length pre + length ?t + 1\<rparr>)"
      using a key colon val oc sk assign l
      by (simp add: n del: parse_value.simps parse_array_loop.simps
          parse_object_loop.simps(1))
    with sl show ?thesis by simp
  qed
  from w sh step show ?case by blast
qed

section \<open>The same tree over two heaps\<close>

lemma shown_two_all:
  "(\<forall>s\<in>set (strings_of v). string_view h1 s = string_view h2 s) \<longrightarrow> shown h1 v = shown h2 v"
  "(\<forall>s\<in>set (strings_of_list xs). string_view h1 s = string_view h2 s) \<longrightarrow>
     shown_list h1 xs = shown_list h2 xs"
  "(\<forall>s\<in>set (strings_of_entries kvs). string_view h1 s = string_view h2 s) \<longrightarrow>
     shown_entries h1 kvs = shown_entries h2 kvs"
  by (induction h1 v and h1 xs and h1 kvs rule: shown_shown_list_shown_entries.induct) auto

lemma parse_text_cut:
  assumes "parse_text d = Inr v" and "s \<in> set (strings_of v)"
  shows "cut_from \<lparr>storage = 0, offset = 0, length' = length d\<rparr> s"
proof -
  have "parse [d @ [NUL]] \<lparr>src = \<lparr>storage = 0, offset = 0, length' = length d\<rparr>, pos = 0, row = 1, column = 0\<rparr>
      = Inr v"
    using assms(1) by (simp add: parse_text_def json_reader_new_def cow_string_new_def)
  from parse_cut[OF this assms(2)] show ?thesis by simp
qed

section \<open>The loop of \<open>parse_object\<close> and the entries it reads\<close>

lemma obj_assign_all_views:
  "entry_views h es = Some ees \<Longrightarrow> entry_views h m = Some em \<Longrightarrow>
   sorted_wrt bytes_less (map fst em) \<Longrightarrow>
   \<exists>m' em'. obj_assign_all h es m = Some m' \<and> entry_views h m' = Some em' \<and>
     sorted_wrt bytes_less (map fst em') \<and> map_of em' = map_of (rev ees @ em)"
proof (induction es arbitrary: m em ees)
  case Nil
  then show ?case by simp
next
  case (Cons e es)
  obtain k v where e: "e = (k, v)" by (cases e)
  from Cons.prems(1) e obtain kb ees' where
    kb: "string_view h k = Some kb" and es: "entry_views h es = Some ees'"
    and ees: "ees = (kb, v) # ees'"
    by (auto split: option.splits)
  from obj_assign_ins[OF Cons.prems(2) kb, of v] obtain m1 where
    m1: "obj_assign h k v m = Some m1" "entry_views h m1 = Some (ins kb v em)" by blast
  have s1: "sorted_wrt bytes_less (map fst (ins kb v em))"
    using Cons.prems(3) by (rule ins_sorted)
  from Cons.IH[OF es m1(2) s1] obtain m' em' where
    r: "obj_assign_all h es m1 = Some m'" "entry_views h m' = Some em'"
       "sorted_wrt bytes_less (map fst em')" "map_of em' = map_of (rev ees' @ ins kb v em)"
    by blast
  have "map_of (rev ees' @ ins kb v em) = map_of (rev ees @ em)"
    by (simp add: ees ins_map_of[OF Cons.prems(3)])
  with r m1 show ?case by (simp add: e)
qed

lemma loop_assigns_entries_read:
  "parse_object_loop n h rd acc = Inr (w, rd') \<Longrightarrow>
   \<exists>es m. entries_read n h rd = Inr (es, rd') \<and> obj_assign_all h es acc = Some m \<and> w = Object m"
proof (induction n arbitrary: rd acc)
  case 0
  then show ?case by simp
next
  case (Suc n)
  show ?case
  proof (cases "at_pos h rd (\<lambda>c. c \<noteq> CHR ''}'')")
    case None
    with Suc.prems show ?thesis by simp
  next
    case (Some b)
    show ?thesis
    proof (cases b)
      case False
      with Some Suc.prems show ?thesis by auto
    next
      case True
      with Some have a: "at_pos h rd (\<lambda>c. c \<noteq> CHR ''}'') = Some True" by simp
      from Suc.prems a obtain key rd1 v rd2 rd3 rd4 obj' where
        k: "parse_value n h rd = Inr (String key, rd1)"
        and c: "at_pos h rd1 (\<lambda>c. c = CHR '':'') = Some True"
        and v: "parse_value n h (rd1\<lparr>pos := pos rd1 + 1\<rparr>) = Inr (v, rd2)"
        and oc: "optional_comma h rd2 = Some rd3"
        and sk: "skip_whitespace h rd3 = Inr rd4"
        and oa: "obj_assign h key v acc = Some obj'"
        and l: "parse_object_loop n h rd4 obj' = Inr (w, rd')"
        by (auto split: sum.splits prod.splits Value.splits option.splits bool.splits)
      from Suc.IH[OF l] obtain es m where
        r: "entries_read n h rd4 = Inr (es, rd')" "obj_assign_all h es obj' = Some m" "w = Object m"
        by blast
      have "entries_read (Suc n) h rd = Inr ((key, v) # es, rd')"
        using a k c v oc sk r(1) by simp
      moreover have "obj_assign_all h ((key, v) # es) acc = Some m" using oa r(2) by simp
      ultimately show ?thesis using r(3) by blast
    qed
  qed
qed

lemma cut_from_view:
  assumes "reads_text h s txt" and "cut_from s t"
  shows "\<exists>w. string_view h t = Some w"
proof -
  from assms(2) obtain p n where pn: "p + n \<le> length' s" "t = substr s p n"
    by (auto simp: cut_from_def)
  from assms(1) have "length' s = length txt" by (simp add: reads_text_def)
  with pn substr_view(1)[OF assms(1), of p n] show ?thesis by simp
qed

lemma entries_read_views:
  "reads_text h (src rd) txt \<Longrightarrow> entries_read n h rd = Inr (es, rd') \<Longrightarrow>
   \<exists>ees. entry_views h es = Some ees"
proof (induction n arbitrary: rd es)
  case 0
  then show ?case by simp
next
  case (Suc n)
  show ?case
  proof (cases "at_pos h rd (\<lambda>c. c \<noteq> CHR ''}'')")
    case None
    with Suc.prems show ?thesis by simp
  next
    case (Some b)
    show ?thesis
    proof (cases b)
      case False
      with Some Suc.prems show ?thesis by auto
    next
      case True
      with Some have a: "at_pos h rd (\<lambda>c. c \<noteq> CHR ''}'') = Some True" by simp
      from Suc.prems(2) a obtain key rd1 v rd2 rd3 rd4 es' where
        k: "parse_value n h rd = Inr (String key, rd1)"
        and v: "parse_value n h (rd1\<lparr>pos := pos rd1 + 1\<rparr>) = Inr (v, rd2)"
        and oc: "optional_comma h rd2 = Some rd3"
        and sk: "skip_whitespace h rd3 = Inr rd4"
        and l: "entries_read n h rd4 = Inr (es', rd')"
        and es: "es = (key, v) # es'"
        by (auto split: sum.splits prod.splits Value.splits option.splits bool.splits)
      have s4: "src rd4 = src rd"
        using parse_value_progress[OF k] parse_value_progress[OF v]
          optional_comma_progress[OF oc] skip_whitespace_src_pos[OF sk] by simp
      from Suc.IH[OF _ l] Suc.prems(1) s4 obtain ees' where e': "entry_views h es' = Some ees'"
        by auto
      from parse_value_cut[OF k, of key] have "cut_from (src rd) key" by simp
      from cut_from_view[OF Suc.prems(1) this] obtain kb where "string_view h key = Some kb" ..
      with e' es show ?thesis by simp
    qed
  qed
qed

lemma loop_last_write:
  assumes "reads_text h (src rd) txt" and "parse_object_loop n h rd [] = Inr (w, rd')"
  shows "\<exists>es ees m em. entries_read n h rd = Inr (es, rd') \<and> entry_views h es = Some ees \<and>
           w = Object m \<and> entry_views h m = Some em \<and>
           sorted_wrt bytes_less (map fst em) \<and> distinct (map fst em) \<and>
           map_of em = map_of (rev ees)"
proof -
  from loop_assigns_entries_read[OF assms(2)] obtain es m where
    r: "entries_read n h rd = Inr (es, rd')" "obj_assign_all h es [] = Some m" "w = Object m"
    by blast
  from entries_read_views[OF assms(1) r(1)] obtain ees where e: "entry_views h es = Some ees" ..
  from obj_assign_all_views[OF e, of "[]" "[]"] r(2) obtain em where
    "entry_views h m = Some em" "sorted_wrt bytes_less (map fst em)" "map_of em = map_of (rev ees)"
    by auto
  with r e sorted_distinct show ?thesis by blast
qed

lemma entries_read_unfold:
  "0 < n \<Longrightarrow> entries_read n h rd =
     (case at_pos h rd (\<lambda>c. c \<noteq> CHR ''}'') of
        None \<Rightarrow> Inl Undefined_behaviour
      | Some False \<Rightarrow> Inr ([], rd\<lparr>pos := pos rd + 1\<rparr>)
      | Some True \<Rightarrow>
          (case parse_value (n - 1) h rd of
             Inl e \<Rightarrow> Inl e
           | Inr (String key, rd1) \<Rightarrow>
               (case at_pos h rd1 (\<lambda>c. c = CHR '':'') of
                  None \<Rightarrow> Inl Undefined_behaviour
                | Some False \<Rightarrow> Inl (expected_colon h rd1)
                | Some True \<Rightarrow>
                    (case parse_value (n - 1) h (rd1\<lparr>pos := pos rd1 + 1\<rparr>) of
                       Inl e \<Rightarrow> Inl e
                     | Inr (v, rd2) \<Rightarrow>
                         (case optional_comma h rd2 of
                            None \<Rightarrow> Inl Undefined_behaviour
                          | Some rd3 \<Rightarrow>
                              (case skip_whitespace h rd3 of
                                 Inl e \<Rightarrow> Inl e
                               | Inr rd4 \<Rightarrow>
                                   (case entries_read (n - 1) h rd4 of
                                      Inl e \<Rightarrow> Inl e
                                    | Inr (es, rd') \<Rightarrow> Inr ((key, v) # es, rd'))))))
           | Inr (_, rd1) \<Rightarrow> Inl (Key_must_be_string (pos rd1))))"
  by (cases n)
     (simp_all cong: option.case_cong sum.case_cong if_cong prod.case_cong
        Value.case_cong bool.case_cong)

lemma parse_object_last_write:
  assumes "reads_text h (src rd) txt" and "parse_object n h rd = Inr (w, rd')"
  shows "\<exists>rd1 es ees m em.
           skip_whitespace h (rd\<lparr>pos := pos rd + 1\<rparr>) = Inr rd1 \<and>
           entries_read n h rd1 = Inr (es, rd') \<and> entry_views h es = Some ees \<and>
           w = Object m \<and> entry_views h m = Some em \<and>
           sorted_wrt bytes_less (map fst em) \<and> distinct (map fst em) \<and>
           map_of em = map_of (rev ees)"
proof -
  from assms(2) obtain rd1 where
    s: "skip_whitespace h (rd\<lparr>pos := pos rd + 1\<rparr>) = Inr rd1"
    and l: "parse_object_loop n h rd1 [] = Inr (w, rd')"
    by (auto split: sum.splits)
  from skip_whitespace_src_pos[OF s] assms(1) have "reads_text h (src rd1) txt" by simp
  from loop_last_write[OF this l] s show ?thesis by blast
qed

lemma object_text_last_write:
  assumes "plain_entries h kvs" and "write_object fmt h kvs = Some t"
    and "shown_entries h kvs = Some es" and "length t + 2 < npos"
  shows "\<exists>m em. parse_text (CHR ''{'' # t @ ''}'') = Inr (Object m)
           \<and> shown_entries (heap_of_text (CHR ''{'' # t @ ''}'')) m = Some em
           \<and> sorted_wrt bytes_less (map fst em) \<and> distinct (map fst em)
           \<and> map_of em = map_of (rev es)"
proof -
  let ?doc = "CHR ''{'' # t @ ''}''"
  let ?h = "[?doc @ [NUL]]"
  let ?s = "\<lparr>storage = 0, offset = 0, length' = length ?doc\<rparr>"
  let ?rd = "\<lparr>src = ?s, pos = 0, row = 1, column = 0\<rparr>"
  have len: "length ?doc < npos" using assms(4) by simp
  have rt: "reads_text ?h (src ?rd) ?doc" using reads_text_new[OF len] by simp
  from read_entries_any[OF assms(1), of fmt] assms(2,3) have
    re: "\<And>h' rd doc pre post n acc sacc.
        reads_text h' (src rd) doc \<Longrightarrow> doc = pre @ t @ CHR ''}'' # post \<Longrightarrow> pos rd = length pre \<Longrightarrow>
        2 * length t + 2 \<le> n \<Longrightarrow> shown_entries h' acc = Some sacc \<Longrightarrow>
        \<exists>m. parse_object_loop n h' rd acc
                 = Inr (Object m, rd\<lparr>pos := length pre + length t + 1\<rparr>) \<and>
             shown_entries h' m = Some (fold (\<lambda>e. ins (fst e) (snd e)) es sacc)"
    by auto
  have lt: "pos ?rd < length ?doc" and c: "?doc ! pos ?rd = CHR ''{''" by simp_all
  obtain n where n: "2 * length ?doc + 1 = Suc n" and f: "2 * length t + 2 \<le> n" by simp
  have d: "parse_value (Suc n) ?h ?rd = parse_object n ?h ?rd"
    using parse_value_dispatch[OF rt lt, of n] c
    by (simp add: open_bracket_not_space Let_def del: parse_value.simps parse_object.simps)
  let ?rd1 = "?rd\<lparr>pos := pos ?rd + 1\<rparr>"
  have rt1: "reads_text ?h (src ?rd1) ?doc" using rt by simp
  have t1: "?doc = ''{'' @ t @ CHR ''}'' # []" by simp
  have p1: "pos ?rd1 = length ''{''" by simp
  have "?doc ! pos ?rd1 = hd (t @ ''}'')" by (cases t) simp_all
  moreover have "t \<noteq> [] \<Longrightarrow> hd t = CHR 0x22"
    using write_object_starts[OF assms(2)] assms(2) by (cases kvs) auto
  ultimately have ns: "\<not> isspace (?doc ! pos ?rd1)"
    by (cases "t = []") (simp_all add: open_bracket_not_space)
  have sk: "skip_whitespace ?h ?rd1 = Inr ?rd1"
    using rt1 ns by (intro skip_whitespace_stay) auto
  have "shown_entries ?h [] = Some []" by simp
  from re[OF rt1 t1 p1 f this] obtain m where
    l: "parse_object_loop n ?h ?rd1 [] = Inr (Object m, ?rd1\<lparr>pos := length ''{'' + length t + 1\<rparr>)"
    and sm: "shown_entries ?h m = Some (fold (\<lambda>e. ins (fst e) (snd e)) es [])" by blast
  let ?em = "fold (\<lambda>e. ins (fst e) (snd e)) es []"
  have "parse_value (2 * length ?doc + 1) ?h ?rd
      = Inr (Object m, ?rd1\<lparr>pos := length ''{'' + length t + 1\<rparr>)"
    unfolding n d using sk l by (simp del: parse_object_loop.simps)
  then have p: "parse_text ?doc = Inr (Object m)" unfolding parse_text_unfold by simp
  have hh: "heap_of_text ?doc = ?h"
    by (simp add: heap_of_text_def json_reader_new_def cow_string_new_def)
  have so: "sorted_wrt bytes_less (map fst ?em)" by (rule fold_ins_sorted) simp
  have "map_of ?em = map_of (rev es @ [])" by (rule fold_ins_map_of) simp
  with p sm so sorted_distinct[OF so]
  show ?thesis
    unfolding hh by auto
qed


section \<open>A colon is wanted after a closing quote\<close>

lemma token_kinds:
  "parse_null h rd = Inr (v, rd') \<Longrightarrow> v = Null"
  "parse_true h rd = Inr (v, rd') \<Longrightarrow> v = Bool True"
  "parse_false h rd = Inr (v, rd') \<Longrightarrow> v = Bool False"
  by (auto simp: parse_null_def parse_true_def parse_false_def split: option.splits bool.splits)

lemma parse_string_ends_with_quote:
  assumes rt: "reads_text h (src rd) txt" and p: "pos rd < length txt"
    and r: "parse_string h rd = Inr (v, rd')"
  shows "0 < pos rd' \<and> pos rd' \<le> length txt \<and> txt ! (pos rd' - 1) = CHR 0x22"
proof -
  let ?r = "drop (pos rd + 1) txt"
  let ?n = "length (takeWhile (\<lambda>x. x \<noteq> CHR 0x22) ?r)"
  have q: "CHR 0x22 \<in> set ?r" using rt p r by (rule parse_string_success)
  from parse_string_text[OF rt p q] r have e: "pos rd' = pos rd + 1 + ?n + 1" by auto
  have l: "?n < length ?r" using q by (rule length_takeWhile_less_mem)
  have "?r ! ?n = CHR 0x22" using q by (rule nth_length_takeWhile_mem)
  moreover have "?r ! ?n = txt ! (pos rd + 1 + ?n)" using l by simp
  ultimately have "txt ! (pos rd + 1 + ?n) = CHR 0x22" by simp
  with e l show ?thesis by simp
qed

lemma parse_value_string_ends:
  assumes rt: "reads_text h (src rd) txt" and r: "parse_value n h rd = Inr (String k, rd')"
  shows "0 < pos rd' \<and> pos rd' \<le> length txt \<and> txt ! (pos rd' - 1) = CHR 0x22"
proof -
  from r obtain m where n: "n = Suc m" by (cases n) auto
  from r obtain rd1 c where s: "skip_whitespace h rd = Inr rd1"
    and lt: "pos rd1 < length' (src rd1)"
    and d: "(if c = CHR ''n'' then parse_null h rd1
             else if c = CHR ''t'' then parse_true h rd1
             else if c = CHR ''f'' then parse_false h rd1
             else if c = CHR 0x22 then parse_string h rd1
             else if c = CHR ''['' then parse_array m h rd1
             else if c = CHR ''{'' then parse_object m h rd1
             else parse_number h rd1) = Inr (String k, rd')"
    unfolding n by (auto split: sum.splits option.splits if_splits)
  have a: "parse_array m h rd1 \<noteq> Inr (String k, rd')"
    using parse_array_loop_kind[of m h _ "[]" "String k" rd'] by (auto split: sum.splits)
  have o: "parse_object m h rd1 \<noteq> Inr (String k, rd')"
    using parse_object_loop_kind[of m h _ "[]" "String k" rd'] by (auto split: sum.splits)
  have ps: "parse_string h rd1 = Inr (String k, rd')"
    using d a o token_kinds[of h rd1 "String k" rd'] parse_number_kind[of h rd1 "String k" rd']
    by (auto split: if_splits)
  from skip_whitespace_src_pos[OF s] rt have rt1: "reads_text h (src rd1) txt" by simp
  from lt rt1 have "pos rd1 < length txt" by (simp add: reads_text_def)
  from parse_string_ends_with_quote[OF rt1 this ps] show ?thesis .
qed

lemma parse_value_quote_step:
  assumes l0: "\<forall>rd arr p c. reads_text h (src rd) txt \<longrightarrow>
               parse_array_loop n h rd arr = Inl (Expected_colon p c) \<longrightarrow>
               0 < p \<and> p \<le> length txt \<and> txt ! (p - 1) = CHR 0x22"
    and o0: "\<forall>rd obj p c. reads_text h (src rd) txt \<longrightarrow>
               parse_object_loop n h rd obj = Inl (Expected_colon p c) \<longrightarrow>
               0 < p \<and> p \<le> length txt \<and> txt ! (p - 1) = CHR 0x22"
    and rt: "reads_text h (src rd) txt"
    and r: "parse_value (Suc n) h rd = Inl (Expected_colon p c)"
  shows "0 < p \<and> p \<le> length txt \<and> txt ! (p - 1) = CHR 0x22"
proof -
  from skip_whitespace_text[OF rt] obtain rd1 where s: "skip_whitespace h rd = Inr rd1"
    and src1: "src rd1 = src rd" by auto
  from r s obtain c0 where
    dsp: "(if c0 = CHR ''n'' then parse_null h rd1
             else if c0 = CHR ''t'' then parse_true h rd1
             else if c0 = CHR ''f'' then parse_false h rd1
             else if c0 = CHR 0x22 then parse_string h rd1
             else if c0 = CHR ''['' then parse_array n h rd1
             else if c0 = CHR ''{'' then parse_object n h rd1
             else parse_number h rd1) = Inl (Expected_colon p c)"
    by (auto split: option.splits if_splits)
  let ?rd1 = "rd1\<lparr>pos := pos rd1 + 1\<rparr>"
  have rt1': "reads_text h (src ?rd1) txt" using rt src1 by simp
  from skip_whitespace_text[OF rt1'] obtain rd2 where a: "skip_whitespace h ?rd1 = Inr rd2"
    and src2: "src rd2 = src rd" using src1 by auto
  have rt2: "reads_text h (src rd2) txt" using rt src2 by simp
  have arr: "0 < p \<and> p \<le> length txt \<and> txt ! (p - 1) = CHR 0x22"
    if "parse_array n h rd1 = Inl (Expected_colon p c)"
  proof -
    from that a have "parse_array_loop n h rd2 [] = Inl (Expected_colon p c)" by simp
    from l0[rule_format, OF rt2 this] show ?thesis .
  qed
  have obj: "0 < p \<and> p \<le> length txt \<and> txt ! (p - 1) = CHR 0x22"
    if "parse_object n h rd1 = Inl (Expected_colon p c)"
  proof -
    from that a have "parse_object_loop n h rd2 [] = Inl (Expected_colon p c)" by simp
    from o0[rule_format, OF rt2 this] show ?thesis .
  qed
  show ?thesis
    using dsp arr obj leaf_no_colon_error[of h rd1 p c] by (auto split: if_splits)
qed

lemma parse_array_loop_quote_step:
  assumes v0: "\<forall>rd p c. reads_text h (src rd) txt \<longrightarrow>
               parse_value n h rd = Inl (Expected_colon p c) \<longrightarrow>
               0 < p \<and> p \<le> length txt \<and> txt ! (p - 1) = CHR 0x22"
    and l0: "\<forall>rd arr p c. reads_text h (src rd) txt \<longrightarrow>
               parse_array_loop n h rd arr = Inl (Expected_colon p c) \<longrightarrow>
               0 < p \<and> p \<le> length txt \<and> txt ! (p - 1) = CHR 0x22"
    and rt: "reads_text h (src rd) txt"
    and r: "parse_array_loop (Suc n) h rd arr = Inl (Expected_colon p c)"
  shows "0 < p \<and> p \<le> length txt \<and> txt ! (p - 1) = CHR 0x22"
proof -
  from r have a: "at_pos h rd (\<lambda>c. c \<noteq> CHR '']'') = Some True"
    by (cases "at_pos h rd (\<lambda>c. c \<noteq> CHR '']'')") (auto split: bool.splits)
  show ?thesis
  proof (cases "parse_value n h rd")
    case (Inl e)
    with r a have "parse_value n h rd = Inl (Expected_colon p c)" by simp
    from v0[rule_format, OF rt this] show ?thesis .
  next
    case (Inr x)
    obtain v rd1 where x: "x = (v, rd1)" by (cases x)
    from parse_value_progress[OF Inr[unfolded x]] rt have rt1: "reads_text h (src rd1) txt" by simp
    from r a Inr x obtain rd2 where oc: "optional_comma h rd1 = Some rd2"
      by (auto split: option.splits)
    from optional_comma_progress[OF oc] rt1 have rt2: "reads_text h (src rd2) txt" by simp
    from skip_whitespace_text[OF rt2] obtain rd3 where sk: "skip_whitespace h rd2 = Inr rd3"
      and s3: "src rd3 = src rd2" by auto
    from rt2 s3 have rt3: "reads_text h (src rd3) txt" by simp
    from r a Inr x oc sk have "parse_array_loop n h rd3 (arr @ [v]) = Inl (Expected_colon p c)"
      by simp
    from l0[rule_format, OF rt3 this] show ?thesis .
  qed
qed

lemma expected_colon_pos: "expected_colon h rd = Expected_colon p c \<Longrightarrow> p = pos rd"
  by (auto simp: expected_colon_def split: option.splits)

lemma parse_object_loop_quote_step:
  assumes v0: "\<forall>rd p c. reads_text h (src rd) txt \<longrightarrow>
               parse_value n h rd = Inl (Expected_colon p c) \<longrightarrow>
               0 < p \<and> p \<le> length txt \<and> txt ! (p - 1) = CHR 0x22"
    and o0: "\<forall>rd obj p c. reads_text h (src rd) txt \<longrightarrow>
               parse_object_loop n h rd obj = Inl (Expected_colon p c) \<longrightarrow>
               0 < p \<and> p \<le> length txt \<and> txt ! (p - 1) = CHR 0x22"
    and rt: "reads_text h (src rd) txt"
    and r: "parse_object_loop (Suc n) h rd obj = Inl (Expected_colon p c)"
  shows "0 < p \<and> p \<le> length txt \<and> txt ! (p - 1) = CHR 0x22"
proof -
  from r have a: "at_pos h rd (\<lambda>c. c \<noteq> CHR ''}'') = Some True"
    by (cases "at_pos h rd (\<lambda>c. c \<noteq> CHR ''}'')") (auto split: bool.splits)
  show ?thesis
  proof (cases "parse_value n h rd")
    case (Inl e)
    with r a have "parse_value n h rd = Inl (Expected_colon p c)" by simp
    from v0[rule_format, OF rt this] show ?thesis .
  next
    case (Inr x)
    obtain kv rd1 where x: "x = (kv, rd1)" by (cases x)
    from r a Inr x obtain key where kv: "kv = String key"
      by (cases kv) auto
    note k = Inr[unfolded x kv]
    from parse_value_progress[OF k] rt have rt1: "reads_text h (src rd1) txt" by simp
    show ?thesis
    proof (cases "at_pos h rd1 (\<lambda>c. c = CHR '':'') = Some True")
      case False
      with r a k have "expected_colon h rd1 = Expected_colon p c"
        by (cases "at_pos h rd1 (\<lambda>c. c = CHR '':'')") (auto split: bool.splits)
      from expected_colon_pos[OF this] parse_value_string_ends[OF rt k] show ?thesis by simp
    next
      case True
      let ?rd1 = "rd1\<lparr>pos := pos rd1 + 1\<rparr>"
      have rt1': "reads_text h (src ?rd1) txt" using rt1 by simp
      show ?thesis
      proof (cases "parse_value n h ?rd1")
        case (Inl e)
        with r a k True have "parse_value n h ?rd1 = Inl (Expected_colon p c)" by simp
        from v0[rule_format, OF rt1' this] show ?thesis .
      next
        case (Inr y)
        obtain v rd2 where y: "y = (v, rd2)" by (cases y)
        note vv = Inr[unfolded y]
        from parse_value_progress[OF vv] rt1' have rt2: "reads_text h (src rd2) txt" by simp
        from r a k True vv obtain rd3 where oc: "optional_comma h rd2 = Some rd3"
          by (auto split: option.splits)
        from optional_comma_progress[OF oc] rt2 have rt3: "reads_text h (src rd3) txt" by simp
        from skip_whitespace_text[OF rt3] obtain rd4 where sk: "skip_whitespace h rd3 = Inr rd4"
          and s4: "src rd4 = src rd3" by auto
        from rt3 s4 have rt4: "reads_text h (src rd4) txt" by simp
        from r a k True vv oc sk obtain obj' where
          "parse_object_loop n h rd4 obj' = Inl (Expected_colon p c)"
          by (auto split: option.splits)
        from o0[rule_format, OF rt4 this] show ?thesis .
      qed
    qed
  qed
qed

lemma colon_after_quote_all:
  "(\<forall>rd p c. reads_text h (src rd) txt \<longrightarrow>
       parse_value n h rd = Inl (Expected_colon p c) \<longrightarrow>
       0 < p \<and> p \<le> length txt \<and> txt ! (p - 1) = CHR 0x22) \<and>
   (\<forall>rd arr p c. reads_text h (src rd) txt \<longrightarrow>
       parse_array_loop n h rd arr = Inl (Expected_colon p c) \<longrightarrow>
       0 < p \<and> p \<le> length txt \<and> txt ! (p - 1) = CHR 0x22) \<and>
   (\<forall>rd obj p c. reads_text h (src rd) txt \<longrightarrow>
       parse_object_loop n h rd obj = Inl (Expected_colon p c) \<longrightarrow>
       0 < p \<and> p \<le> length txt \<and> txt ! (p - 1) = CHR 0x22)"
proof (induction n)
  case 0
  show ?case by simp
next
  case (Suc n)
  then have v: "\<forall>rd p c. reads_text h (src rd) txt \<longrightarrow>
       parse_value n h rd = Inl (Expected_colon p c) \<longrightarrow>
       0 < p \<and> p \<le> length txt \<and> txt ! (p - 1) = CHR 0x22"
    and l: "\<forall>rd arr p c. reads_text h (src rd) txt \<longrightarrow>
       parse_array_loop n h rd arr = Inl (Expected_colon p c) \<longrightarrow>
       0 < p \<and> p \<le> length txt \<and> txt ! (p - 1) = CHR 0x22"
    and o: "\<forall>rd obj p c. reads_text h (src rd) txt \<longrightarrow>
       parse_object_loop n h rd obj = Inl (Expected_colon p c) \<longrightarrow>
       0 < p \<and> p \<le> length txt \<and> txt ! (p - 1) = CHR 0x22"
    by simp_all
  show ?case
    using parse_value_quote_step[OF l o] parse_array_loop_quote_step[OF v l]
      parse_object_loop_quote_step[OF v o]
    by blast
qed

lemma parse_text_colon_after_quote:
  assumes r: "parse_text a = Inl (Expected_colon p c)" and len: "length a < npos"
  shows "0 < p \<and> p \<le> length a \<and> a ! (p - 1) = CHR 0x22"
proof -
  let ?h = "[a @ [NUL]]"
  let ?s = "\<lparr>storage = 0, offset = 0, length' = length a\<rparr>"
  let ?rd = "\<lparr>src = ?s, pos = 0, row = 1, column = 0\<rparr>"
  have rt: "reads_text ?h (src ?rd) a" using reads_text_new[OF len] by simp
  from r have p1: "parse_value (2 * length a + 1) ?h ?rd = Inl (Expected_colon p c)"
    unfolding parse_text_unfold
    by (cases "parse_value (2 * length a + 1) ?h ?rd") (auto simp del: parse_value.simps)
  from colon_after_quote_all[of ?h a "2 * length a + 1", THEN conjunct1, rule_format, OF rt p1]
  show ?thesis .
qed

section \<open>The claims about the reader\<close>

text \<open>
  C3 (sample 1). Parsing \<open>sample1\<close> succeeds. The result is the object below, whose keys are
  slices of the source; read through their views, the keys are \<open>a\<close>, \<open>b\<close>, \<open>c\<close>, \<open>f\<close> in this
  order, with \<open>a\<close> mapped to Integer 1, \<open>b\<close> to the array of 1, 2, 3, \<open>c\<close> to the object of
  \<open>d\<close>: true and \<open>e\<close>: null, and \<open>f\<close> to Float 2.5.
\<close>

theorem sample_1_parses:
  "parse_text sample1 =
     Inr (Object
       [(\<lparr>storage = 0, offset = 2, length' = 1\<rparr>, Integer 1),
        (\<lparr>storage = 0, offset = 8, length' = 1\<rparr>, Array [Integer 1, Integer 2, Integer 3]),
        (\<lparr>storage = 0, offset = 20, length' = 1\<rparr>,
         Object [(\<lparr>storage = 0, offset = 25, length' = 1\<rparr>, Bool True),
                 (\<lparr>storage = 0, offset = 34, length' = 1\<rparr>, Null)]),
        (\<lparr>storage = 0, offset = 44, length' = 1\<rparr>, Float (5 / 2))])
   \<and> shown (heap_of_text sample1)
       (Object
         [(\<lparr>storage = 0, offset = 2, length' = 1\<rparr>, Integer 1),
          (\<lparr>storage = 0, offset = 8, length' = 1\<rparr>, Array [Integer 1, Integer 2, Integer 3]),
          (\<lparr>storage = 0, offset = 20, length' = 1\<rparr>,
           Object [(\<lparr>storage = 0, offset = 25, length' = 1\<rparr>, Bool True),
                   (\<lparr>storage = 0, offset = 34, length' = 1\<rparr>, Null)]),
          (\<lparr>storage = 0, offset = 44, length' = 1\<rparr>, Float (5 / 2))])
     = Some (JObject
         [(''a'', JInteger 1), (''b'', JArray [JInteger 1, JInteger 2, JInteger 3]),
          (''c'', JObject [(''d'', JBool True), (''e'', JNull)]), (''f'', JFloat (5 / 2))])"
proof
  show "parse_text sample1 =
     Inr (Object
       [(\<lparr>storage = 0, offset = 2, length' = 1\<rparr>, Integer 1),
        (\<lparr>storage = 0, offset = 8, length' = 1\<rparr>, Array [Integer 1, Integer 2, Integer 3]),
        (\<lparr>storage = 0, offset = 20, length' = 1\<rparr>,
         Object [(\<lparr>storage = 0, offset = 25, length' = 1\<rparr>, Bool True),
                 (\<lparr>storage = 0, offset = 34, length' = 1\<rparr>, Null)]),
        (\<lparr>storage = 0, offset = 44, length' = 1\<rparr>, Float (5 / 2))])"
    by (simp add: sample1_def run_simps)
  show "shown (heap_of_text sample1)
       (Object
         [(\<lparr>storage = 0, offset = 2, length' = 1\<rparr>, Integer 1),
          (\<lparr>storage = 0, offset = 8, length' = 1\<rparr>, Array [Integer 1, Integer 2, Integer 3]),
          (\<lparr>storage = 0, offset = 20, length' = 1\<rparr>,
           Object [(\<lparr>storage = 0, offset = 25, length' = 1\<rparr>, Bool True),
                   (\<lparr>storage = 0, offset = 34, length' = 1\<rparr>, Null)]),
          (\<lparr>storage = 0, offset = 44, length' = 1\<rparr>, Float (5 / 2))])
     = Some (JObject
         [(''a'', JInteger 1), (''b'', JArray [JInteger 1, JInteger 2, JInteger 3]),
          (''c'', JObject [(''d'', JBool True), (''e'', JNull)]), (''f'', JFloat (5 / 2))])"
    by (simp add: sample1_def heap_of_text_def json_reader_new_def cow_string_new_def
        string_view_def window_def block_of_def)
qed

text \<open>
  C8 (sample 3). Parsing \<open>sample3\<close> returns no node: after the colon the reader finds \<open>}\<close>,
  takes it for the start of a number, scans an empty token, and the conversion fails, which
  throws the \<open>json_exception\<close> "Invalid token } at row 1, column 0.".
\<close>

theorem sample_3_fails:
  "parse_text sample3 = Inl (Invalid_token CHR ''}'' 1 0)
   \<and> is_json_exception (Invalid_token CHR ''}'' 1 0)"
  by (simp add: sample3_def run_simps)

text \<open>
  C6 (duplicate keys). Every call of \<open>parse_object\<close> that returns, on any source and at any
  depth, returns an object built from the entries the loop has read (\<open>entries_read\<close>): its
  keys, read through their views, are in strictly ascending order, so every key is there
  once, and each key is mapped to the value of its last occurrence among the entries read
  (the first one in the reversed sequence). What the loop reads is spelled out for the texts
  of objects: take any sequence of entries, with the keys in any order and any key as often
  as one likes, the values plain trees, and the text of an object with these entries in this
  order, \<open>"key":value\<close> joined by commas as \<open>write_object\<close> lays them out. Parsing this
  text returns an object with every key once, in ascending order, mapped to the value of its
  last occurrence in the text. Parsing \<open>sample5\<close> gives the one key \<open>a\<close> with the value 2.
\<close>

theorem last_write_wins:
  "(\<forall>n h rd txt w rd'.
      reads_text h (src rd) txt \<and> parse_object n h rd = Inr (w, rd') \<longrightarrow>
      (\<exists>rd1 es ees m em.
         skip_whitespace h (rd\<lparr>pos := pos rd + 1\<rparr>) = Inr rd1 \<and>
         entries_read n h rd1 = Inr (es, rd') \<and> entry_views h es = Some ees \<and>
         w = Object m \<and> entry_views h m = Some em \<and>
         sorted_wrt bytes_less (map fst em) \<and> distinct (map fst em) \<and>
         map_of em = map_of (rev ees)))
   \<and> (\<forall>fmt h kvs t es.
        plain_entries h kvs \<and> write_object fmt h kvs = Some t \<and>
        shown_entries h kvs = Some es \<and> length t + 2 < npos \<longrightarrow>
        (\<exists>m em. parse_text (CHR ''{'' # t @ ''}'') = Inr (Object m)
           \<and> shown_entries (heap_of_text (CHR ''{'' # t @ ''}'')) m = Some em
           \<and> sorted_wrt bytes_less (map fst em) \<and> distinct (map fst em)
           \<and> map_of em = map_of (rev es)))
   \<and> parse_text sample5 = Inr (Object [(\<lparr>storage = 0, offset = 2, length' = 1\<rparr>, Integer 2)])
   \<and> shown (heap_of_text sample5) (Object [(\<lparr>storage = 0, offset = 2, length' = 1\<rparr>, Integer 2)])
       = Some (JObject [(''a'', JInteger 2)])"
proof (intro conjI allI impI)
  fix n h rd doc w rd'
  assume "reads_text h (src rd) doc \<and> parse_object n h rd = Inr (w, rd')"
  then show "\<exists>rd1 es ees m em.
         skip_whitespace h (rd\<lparr>pos := pos rd + 1\<rparr>) = Inr rd1 \<and>
         entries_read n h rd1 = Inr (es, rd') \<and> entry_views h es = Some ees \<and>
         w = Object m \<and> entry_views h m = Some em \<and>
         sorted_wrt bytes_less (map fst em) \<and> distinct (map fst em) \<and>
         map_of em = map_of (rev ees)"
    using parse_object_last_write[of h rd doc n w rd'] by blast
next
  fix fmt h kvs t es
  assume "plain_entries h kvs \<and> write_object fmt h kvs = Some t \<and>
        shown_entries h kvs = Some es \<and> length t + 2 < npos"
  then show "\<exists>m em. parse_text (CHR ''{'' # t @ ''}'') = Inr (Object m)
           \<and> shown_entries (heap_of_text (CHR ''{'' # t @ ''}'')) m = Some em
           \<and> sorted_wrt bytes_less (map fst em) \<and> distinct (map fst em)
           \<and> map_of em = map_of (rev es)"
    using object_text_last_write[of h kvs fmt t es] by blast
next
  show "parse_text sample5 = Inr (Object [(\<lparr>storage = 0, offset = 2, length' = 1\<rparr>, Integer 2)])"
    by (simp add: sample5_def run_simps)
next
  show "shown (heap_of_text sample5) (Object [(\<lparr>storage = 0, offset = 2, length' = 1\<rparr>, Integer 2)])
       = Some (JObject [(''a'', JInteger 2)])"
    by (simp add: sample5_def heap_of_text_def json_reader_new_def cow_string_new_def
        string_view_def window_def block_of_def)
qed

text \<open>
  The witness: the text \<open>mixed_text\<close> with the keys \<open>b\<close>, \<open>ab\<close>, \<open>b\<close> and the values 1,
  2, 3. The loop reads the three entries; the object has \<open>ab\<close> before \<open>b\<close>, the slice of the
  key \<open>b\<close> is that of its first occurrence and its value that of the last. And the object
  inside the array of \<open>nested_twice\<close>, with the key \<open>a\<close> twice.
\<close>

theorem last_write_wins_witness:
  "reads_text (heap_of_text mixed_text) (src (reader_of mixed_text)) mixed_text
   \<and> entries_read 40 (heap_of_text mixed_text) ((reader_of mixed_text)\<lparr>pos := 1\<rparr>)
       = Inr ([(\<lparr>storage = 0, offset = 2, length' = 1\<rparr>, Integer 1),
               (\<lparr>storage = 0, offset = 8, length' = 2\<rparr>, Integer 2),
               (\<lparr>storage = 0, offset = 15, length' = 1\<rparr>, Integer 3)],
              (reader_of mixed_text)\<lparr>pos := 20\<rparr>)
   \<and> (\<exists>m em. parse_object 40 (heap_of_text mixed_text) (reader_of mixed_text)
                 = Inr (Object m, (reader_of mixed_text)\<lparr>pos := 20\<rparr>)
         \<and> entry_views (heap_of_text mixed_text) m = Some em
         \<and> distinct (map fst em)
         \<and> map_of em ''b'' = Some (Integer 3) \<and> map_of em ''ab'' = Some (Integer 2))
   \<and> parse_text nested_twice
       = Inr (Array [Object [(\<lparr>storage = 0, offset = 3, length' = 1\<rparr>, Integer 2)]])
   \<and> (\<exists>m em. parse_object 28 (heap_of_text nested_twice) ((reader_of nested_twice)\<lparr>pos := 1\<rparr>)
                 = Inr (Object m, (reader_of nested_twice)\<lparr>pos := 14\<rparr>)
         \<and> entry_views (heap_of_text nested_twice) m = Some em
         \<and> distinct (map fst em) \<and> map_of em ''a'' = Some (Integer 2))
   \<and> plain_entries mixed_heap mixed_entries
   \<and> write_object (\<lambda>q. []) mixed_heap mixed_entries = Some (mixed_body)
   \<and> shown_entries mixed_heap mixed_entries
       = Some [(''b'', JInteger 1), (''ab'', JInteger 2), (''b'', JInteger 3)]
   \<and> parse_text mixed_text
       = Inr (Object [(\<lparr>storage = 0, offset = 8, length' = 2\<rparr>, Integer 2),
                      (\<lparr>storage = 0, offset = 2, length' = 1\<rparr>, Integer 3)])
   \<and> (\<exists>m em. parse_text mixed_text = Inr (Object m)
         \<and> shown_entries (heap_of_text mixed_text) m = Some em
         \<and> distinct (map fst em)
         \<and> map_of em ''b'' = Some (JInteger 3) \<and> map_of em ''ab'' = Some (JInteger 2))"
proof -
  let ?h = "heap_of_text mixed_text"
  let ?rd = "reader_of mixed_text"
  have rt: "reads_text ?h (src ?rd) mixed_text"
    by (simp add: reads_text_def heap_of_text_def reader_of_def json_reader_new_def
        cow_string_new_def mixed_text_def mixed_body_def npos_def)
  have po: "parse_object 40 ?h ?rd
       = Inr (Object [(\<lparr>storage = 0, offset = 8, length' = 2\<rparr>, Integer 2),
                      (\<lparr>storage = 0, offset = 2, length' = 1\<rparr>, Integer 3)], ?rd\<lparr>pos := 20\<rparr>)"
    by (simp add: heap_of_text_def reader_of_def mixed_text_def mixed_body_def run_simps)
  have sk: "skip_whitespace ?h (?rd\<lparr>pos := pos ?rd + 1\<rparr>) = Inr (?rd\<lparr>pos := 1\<rparr>)"
    by (simp add: heap_of_text_def reader_of_def mixed_text_def mixed_body_def run_simps)
  have er: "entries_read 40 ?h (?rd\<lparr>pos := 1\<rparr>)
       = Inr ([(\<lparr>storage = 0, offset = 2, length' = 1\<rparr>, Integer 1),
               (\<lparr>storage = 0, offset = 8, length' = 2\<rparr>, Integer 2),
               (\<lparr>storage = 0, offset = 15, length' = 1\<rparr>, Integer 3)], ?rd\<lparr>pos := 20\<rparr>)"
    by (simp add: heap_of_text_def reader_of_def mixed_text_def mixed_body_def run_simps
        entries_read_unfold)
  have ev: "entry_views ?h [(\<lparr>storage = 0, offset = 2, length' = 1\<rparr>, Integer 1),
               (\<lparr>storage = 0, offset = 8, length' = 2\<rparr>, Integer 2),
               (\<lparr>storage = 0, offset = 15, length' = 1\<rparr>, Integer 3)]
       = Some [(''b'', Integer 1), (''ab'', Integer 2), (''b'', Integer 3)]"
    by (simp add: heap_of_text_def mixed_text_def mixed_body_def json_reader_new_def
        cow_string_new_def string_view_def window_def block_of_def)
  from last_write_wins[THEN conjunct1, rule_format, of ?h ?rd mixed_text 40, OF conjI, OF rt po]
  obtain rd1 es ees m em where
    r: "skip_whitespace ?h (?rd\<lparr>pos := pos ?rd + 1\<rparr>) = Inr rd1"
       "entries_read 40 ?h rd1 = Inr (es, ?rd\<lparr>pos := 20\<rparr>)" "entry_views ?h es = Some ees"
       "Object [(\<lparr>storage = 0, offset = 8, length' = 2\<rparr>, Integer 2),
                (\<lparr>storage = 0, offset = 2, length' = 1\<rparr>, Integer 3)] = Object m"
       "entry_views ?h m = Some em" "distinct (map fst em)" "map_of em = map_of (rev ees)"
    by blast
  from r(1) sk have "rd1 = ?rd\<lparr>pos := 1\<rparr>" by simp
  with r(2) er have "es = [(\<lparr>storage = 0, offset = 2, length' = 1\<rparr>, Integer 1),
               (\<lparr>storage = 0, offset = 8, length' = 2\<rparr>, Integer 2),
               (\<lparr>storage = 0, offset = 15, length' = 1\<rparr>, Integer 3)]" by simp
  with r(3) ev have "ees = [(''b'', Integer 1), (''ab'', Integer 2), (''b'', Integer 3)]" by simp
  with r(7) have "map_of em ''b'' = Some (Integer 3)" "map_of em ''ab'' = Some (Integer 2)"
    by simp_all
  with po r(4,5,6) have b: "\<exists>m em. parse_object 40 ?h ?rd = Inr (Object m, ?rd\<lparr>pos := 20\<rparr>)
         \<and> entry_views ?h m = Some em
         \<and> distinct (map fst em)
         \<and> map_of em ''b'' = Some (Integer 3) \<and> map_of em ''ab'' = Some (Integer 2)"
    by blast
  let ?g = "heap_of_text nested_twice"
  let ?rn = "(reader_of nested_twice)\<lparr>pos := 1\<rparr>"
  have rtn: "reads_text ?g (src ?rn) nested_twice"
    by (simp add: reads_text_def heap_of_text_def reader_of_def json_reader_new_def
        cow_string_new_def nested_twice_def npos_def)
  have ptn: "parse_text nested_twice
       = Inr (Array [Object [(\<lparr>storage = 0, offset = 3, length' = 1\<rparr>, Integer 2)]])"
    by (simp add: nested_twice_def run_simps)
  have pon: "parse_object 28 ?g ?rn
       = Inr (Object [(\<lparr>storage = 0, offset = 3, length' = 1\<rparr>, Integer 2)],
              (reader_of nested_twice)\<lparr>pos := 14\<rparr>)"
    by (simp add: heap_of_text_def reader_of_def nested_twice_def run_simps)
  have skn: "skip_whitespace ?g (?rn\<lparr>pos := pos ?rn + 1\<rparr>)
       = Inr ((reader_of nested_twice)\<lparr>pos := 2\<rparr>)"
    by (simp add: heap_of_text_def reader_of_def nested_twice_def run_simps)
  have ern: "entries_read 28 ?g ((reader_of nested_twice)\<lparr>pos := 2\<rparr>)
       = Inr ([(\<lparr>storage = 0, offset = 3, length' = 1\<rparr>, Integer 1),
               (\<lparr>storage = 0, offset = 9, length' = 1\<rparr>, Integer 2)],
              (reader_of nested_twice)\<lparr>pos := 14\<rparr>)"
    by (simp add: heap_of_text_def reader_of_def nested_twice_def run_simps entries_read_unfold)
  have evn: "entry_views ?g [(\<lparr>storage = 0, offset = 3, length' = 1\<rparr>, Integer 1),
               (\<lparr>storage = 0, offset = 9, length' = 1\<rparr>, Integer 2)]
       = Some [(''a'', Integer 1), (''a'', Integer 2)]"
    by (simp add: heap_of_text_def nested_twice_def json_reader_new_def
        cow_string_new_def string_view_def window_def block_of_def)
  from last_write_wins[THEN conjunct1, rule_format, of ?g ?rn nested_twice 28, OF conjI, OF rtn pon]
  obtain rd1 es ees m em where
    rn: "skip_whitespace ?g (?rn\<lparr>pos := pos ?rn + 1\<rparr>) = Inr rd1"
       "entries_read 28 ?g rd1 = Inr (es, (reader_of nested_twice)\<lparr>pos := 14\<rparr>)"
       "entry_views ?g es = Some ees"
       "Object [(\<lparr>storage = 0, offset = 3, length' = 1\<rparr>, Integer 2)] = Object m"
       "entry_views ?g m = Some em" "distinct (map fst em)" "map_of em = map_of (rev ees)"
    by blast
  from rn(1) skn have "rd1 = (reader_of nested_twice)\<lparr>pos := 2\<rparr>" by simp
  with rn(2) ern have "es = [(\<lparr>storage = 0, offset = 3, length' = 1\<rparr>, Integer 1),
               (\<lparr>storage = 0, offset = 9, length' = 1\<rparr>, Integer 2)]" by simp
  with rn(3) evn have "ees = [(''a'', Integer 1), (''a'', Integer 2)]" by simp
  with rn(7) have "map_of em ''a'' = Some (Integer 2)" by simp
  with pon rn(4,5,6) have bn: "\<exists>m em. parse_object 28 ?g ?rn
                 = Inr (Object m, (reader_of nested_twice)\<lparr>pos := 14\<rparr>)
         \<and> entry_views ?g m = Some em
         \<and> distinct (map fst em) \<and> map_of em ''a'' = Some (Integer 2)"
    by blast
  have p: "plain_entries mixed_heap mixed_entries"
    by (simp add: mixed_heap_def mixed_entries_def plain_key_def string_view_def window_def
        block_of_def NUL_def)
  have w: "write_object (\<lambda>q. []) mixed_heap mixed_entries = Some (mixed_body)"
    by (simp add: mixed_heap_def mixed_entries_def mixed_body_def show_int_def
        digits.simps[of "Suc 0"] digits.simps[of 2] digits.simps[of 3] digit_char_def
        string_view_def window_def block_of_def NUL_def)
  have s: "shown_entries mixed_heap mixed_entries
       = Some [(''b'', JInteger 1), (''ab'', JInteger 2), (''b'', JInteger 3)]"
    by (simp add: mixed_heap_def mixed_entries_def string_view_def window_def block_of_def NUL_def)
  have e: "CHR ''{'' # mixed_body @ ''}'' = mixed_text" by (simp add: mixed_text_def)
  have l: "length mixed_body + 2 < npos" by (simp add: mixed_body_def npos_def)
  have pt: "parse_text mixed_text
       = Inr (Object [(\<lparr>storage = 0, offset = 8, length' = 2\<rparr>, Integer 2),
                      (\<lparr>storage = 0, offset = 2, length' = 1\<rparr>, Integer 3)])"
    by (simp add: mixed_text_def mixed_body_def run_simps)
  from last_write_wins[THEN conjunct2, THEN conjunct1, rule_format,
      of mixed_heap mixed_entries "\<lambda>q. []" mixed_body, OF conjI, OF p conjI, OF w conjI, OF s l]
  obtain m em where
    "parse_text mixed_text = Inr (Object m)"
    "shown_entries (heap_of_text mixed_text) m = Some em" "distinct (map fst em)"
    "map_of em = map_of (rev [(''b'', JInteger 1), (''ab'', JInteger 2), (''b'', JInteger 3)])"
    unfolding e by blast
  then have "\<exists>m em. parse_text mixed_text = Inr (Object m)
         \<and> shown_entries (heap_of_text mixed_text) m = Some em
         \<and> distinct (map fst em)
         \<and> map_of em ''b'' = Some (JInteger 3) \<and> map_of em ''ab'' = Some (JInteger 2)"
    by auto
  with rt er b ptn bn p w s pt show ?thesis by simp
qed

text \<open>
  C10 (no whitespace before the colon), as amended. Let \<open>a\<close> be a text on which the reader
  stops at the very end because it wants a colon there. Then \<open>a\<close> ends with a quote, the
  closing quote of a key, in an object at any depth, and all that comes before the key has
  been read without an error. Every text that continues \<open>a\<close> with a whitespace byte is
  rejected, whatever follows: the reader throws "Expected ':' after key at position ..., but
  found ..." with the position after the closing quote and the whitespace byte.
\<close>

theorem whitespace_before_colon_rejected:
  assumes "parse_text a = Inl (Expected_colon (length a) c)" and "isspace w"
    and "length (a @ w # rest) < npos"
  shows "a \<noteq> [] \<and> last a = CHR 0x22
       \<and> parse_text (a @ w # rest) = Inl (Expected_colon (length a) w)
       \<and> is_json_exception (Expected_colon (length a) w)"
proof -
  have "length a < npos" using assms(3) by simp
  from parse_text_colon_after_quote[OF assms(1) this]
  have q: "a \<noteq> [] \<and> last a = CHR 0x22" by (auto simp: last_conv_nth)
  have "hd (w # rest) \<noteq> CHR '':''" using assms(2) by (auto simp: isspace_def)
  from parse_text_colon_wanted[OF assms(1) _ this assms(3)] q show ?thesis by simp
qed

text \<open>
  The witness: the first key of an object, and the second key of an object inside an array.
\<close>

theorem whitespace_before_colon_witness:
  "parse_text bare_key = Inl (Expected_colon 4 NUL)
   \<and> isspace CHR '' ''
   \<and> parse_text spaced_key = Inl (Expected_colon 4 CHR '' '')
   \<and> parse_text second_key = Inl (Expected_colon 11 NUL)
   \<and> parse_text (second_key @ CHR '' '' # '':2}]'') = Inl (Expected_colon 11 CHR '' '')"
proof -
  have a: "parse_text bare_key = Inl (Expected_colon (length bare_key) NUL)"
    by (simp add: bare_key_def run_simps)
  have b: "parse_text second_key = Inl (Expected_colon (length second_key) NUL)"
    by (simp add: second_key_def run_simps)
  have w: "isspace CHR '' ''" by (simp add: isspace_def)
  have e: "spaced_key = bare_key @ CHR '' '' # '': 1}''" by (simp add: spaced_key_def bare_key_def)
  from whitespace_before_colon_rejected[OF a w, of "'': 1}''"]
  have a': "parse_text spaced_key = Inl (Expected_colon 4 CHR '' '')"
    by (simp add: e[symmetric]) (simp add: spaced_key_def bare_key_def npos_def)
  from whitespace_before_colon_rejected[OF b w, of "'':2}]''"]
  have b': "parse_text (second_key @ CHR '' '' # '':2}]'') = Inl (Expected_colon 11 CHR '' '')"
    by (simp add: second_key_def npos_def)
  from a b w a' b' show ?thesis by (simp add: bare_key_def second_key_def)
qed

text \<open>
  Whitespace between a value and the closing bracket is skipped: the loops of \<open>parse_array\<close>
  and \<open>parse_object\<close> call \<open>skip_whitespace\<close> after the optional comma of each value.
\<close>

theorem whitespace_after_value_counterexample:
  "parse_text spaced_array = Inr (Array [Integer 1])
   \<and> parse_text spaced_object = Inr (Object [(\<lparr>storage = 0, offset = 2, length' = 1\<rparr>, Integer 1)])"
  by (simp add: spaced_array_def spaced_object_def run_simps)



text \<open>
  C9 (end of input inside a container), as amended. Let \<open>d @ cl\<close> be a text that the reader
  accepts, where \<open>cl\<close> holds closing brackets only. Then the reader accepts \<open>d\<close>, the text
  without these brackets, and returns the same tree, which shows the same: every array and
  object that is still open where \<open>d\<close> ends is returned with the elements or entries read so
  far, at any depth, and no error is raised.
\<close>

theorem lenient_at_end_of_input:
  assumes "set cl \<subseteq> {CHR '']'', CHR ''}''}" and "parse_text (d @ cl) = Inr v"
    and "length (d @ cl) < npos"
  shows "parse_text d = Inr v \<and> shown (heap_of_text d) v = shown (heap_of_text (d @ cl)) v"
proof
  show p: "parse_text d = Inr v" using assms by (rule parse_text_cut_end)
  let ?h1 = "[(d @ cl) @ [NUL]]" and ?h2 = "[d @ [NUL]]"
  let ?s1 = "\<lparr>storage = 0, offset = 0, length' = length (d @ cl)\<rparr>"
  let ?s2 = "\<lparr>storage = 0, offset = 0, length' = length d\<rparr>"
  have rt1: "reads_text ?h1 ?s1 (d @ cl)" using assms(3) by (rule reads_text_new)
  have rt2: "reads_text ?h2 ?s2 d" using assms(3) by (intro reads_text_new) simp
  have st: "storage ?s2 = storage ?s1" by simp
  have "\<forall>s\<in>set (strings_of v). string_view ?h2 s = string_view ?h1 s"
  proof
    fix s assume "s \<in> set (strings_of v)"
    with p have "cut_from ?s2 s" by (rule parse_text_cut)
    from cut_view_two[OF rt1 rt2 st this] show "string_view ?h2 s = string_view ?h1 s" by auto
  qed
  with shown_two_all(1)[of v ?h2 ?h1] have "shown ?h2 v = shown ?h1 v" by blast
  then show "shown (heap_of_text d) v = shown (heap_of_text (d @ cl)) v"
    by (simp add: heap_of_text_def json_reader_new_def cow_string_new_def)
qed

text \<open>
  The witness: an array that ends after its second element, an object that ends after its
  first entry, and a text that ends inside an object in an array in an object in an array.
\<close>

theorem lenient_at_end_of_input_witness:
  "set '']'' \<subseteq> {CHR '']'', CHR ''}''}
   \<and> parse_text (open_array @ '']'') = Inr (Array [Integer 1, Integer 2])
   \<and> parse_text open_array = Inr (Array [Integer 1, Integer 2])
   \<and> parse_text (open_object @ ''}'') = Inr (Object [(\<lparr>storage = 0, offset = 2, length' = 1\<rparr>, Integer 1)])
   \<and> parse_text open_object = Inr (Object [(\<lparr>storage = 0, offset = 2, length' = 1\<rparr>, Integer 1)])
   \<and> parse_text (open_nested @ ''}]}]'')
       = Inr (Array [Object [(\<lparr>storage = 0, offset = 3, length' = 1\<rparr>,
                Array [Integer 1, Object [(\<lparr>storage = 0, offset = 11, length' = 1\<rparr>, Integer 2)]])]])
   \<and> parse_text open_nested
       = Inr (Array [Object [(\<lparr>storage = 0, offset = 3, length' = 1\<rparr>,
                Array [Integer 1, Object [(\<lparr>storage = 0, offset = 11, length' = 1\<rparr>, Integer 2)]])]])
   \<and> shown (heap_of_text open_nested)
        (Array [Object [(\<lparr>storage = 0, offset = 3, length' = 1\<rparr>,
                Array [Integer 1, Object [(\<lparr>storage = 0, offset = 11, length' = 1\<rparr>, Integer 2)]])]])
       = Some (JArray [JObject [(''a'', JArray [JInteger 1, JObject [(''b'', JInteger 2)]])]])"
proof -
  have a: "parse_text (open_array @ '']'') = Inr (Array [Integer 1, Integer 2])"
    by (simp add: open_array_def run_simps)
  have b: "parse_text (open_object @ ''}'')
      = Inr (Object [(\<lparr>storage = 0, offset = 2, length' = 1\<rparr>, Integer 1)])"
    by (simp add: open_object_def run_simps)
  have c: "parse_text (open_nested @ ''}]}]'')
       = Inr (Array [Object [(\<lparr>storage = 0, offset = 3, length' = 1\<rparr>,
                Array [Integer 1, Object [(\<lparr>storage = 0, offset = 11, length' = 1\<rparr>, Integer 2)]])]])"
    by (simp add: open_nested_def run_simps)
  have s: "shown (heap_of_text (open_nested @ ''}]}]''))
        (Array [Object [(\<lparr>storage = 0, offset = 3, length' = 1\<rparr>,
                Array [Integer 1, Object [(\<lparr>storage = 0, offset = 11, length' = 1\<rparr>, Integer 2)]])]])
       = Some (JArray [JObject [(''a'', JArray [JInteger 1, JObject [(''b'', JInteger 2)]])]])"
    by (simp add: open_nested_def heap_of_text_def json_reader_new_def cow_string_new_def
        string_view_def window_def block_of_def)
  from lenient_at_end_of_input[OF _ a] have a': "parse_text open_array = Inr (Array [Integer 1, Integer 2])"
    by (simp add: open_array_def npos_def)
  from lenient_at_end_of_input[OF _ b]
  have b': "parse_text open_object = Inr (Object [(\<lparr>storage = 0, offset = 2, length' = 1\<rparr>, Integer 1)])"
    by (simp add: open_object_def npos_def)
  from lenient_at_end_of_input[OF _ c] s
  have c': "parse_text open_nested
       = Inr (Array [Object [(\<lparr>storage = 0, offset = 3, length' = 1\<rparr>,
                Array [Integer 1, Object [(\<lparr>storage = 0, offset = 11, length' = 1\<rparr>, Integer 2)]])]])
   \<and> shown (heap_of_text open_nested)
        (Array [Object [(\<lparr>storage = 0, offset = 3, length' = 1\<rparr>,
                Array [Integer 1, Object [(\<lparr>storage = 0, offset = 11, length' = 1\<rparr>, Integer 2)]])]])
       = Some (JArray [JObject [(''a'', JArray [JInteger 1, JObject [(''b'', JInteger 2)]])]])"
    by (simp add: open_nested_def npos_def)
  from a a' b b' c c' show ?thesis by simp
qed

text \<open>
  A text that ends after the colon of an entry is not accepted: \<open>parse_value\<close> checks for the
  end of the input before it reads a value, and throws "Unexpected end of input.".
\<close>

theorem open_entry_counterexample:
  "parse_text open_entry = Inl Unexpected_end"
  by (simp add: open_entry_def run_simps)

text \<open>
  C5 (zero-copy slicing). \<open>substr\<close> on a live string leaves the heap as it is and adds one
  string that owns the block of the original, whatever the reference count of the block.
  The \<open>String\<close> that \<open>parse_string\<close> returns owns the block of the source, and so does
  every slice in a tree that \<open>parse\<close> returns; the reader has no way to change the heap.
\<close>

theorem zero_copy_slicing:
  "blocks (substr_obj st i off count) = blocks st
   \<and> objs (substr_obj st i off count) = objs st @ [substr (objs st ! i) off count]
   \<and> storage (substr (objs st ! i) off count) = storage (objs st ! i)
   \<and> (\<forall>v rd'. parse_string h rd = Inr (v, rd') \<longrightarrow>
         (\<exists>s. v = String s \<and> storage s = storage (src rd)))
   \<and> (\<forall>v s. parse h rd = Inr v \<longrightarrow> s \<in> set (strings_of v) \<longrightarrow> storage s = storage (src rd))"
proof (intro conjI allI impI)
  fix v rd' assume "parse_string h rd = Inr (v, rd')"
  from parse_string_cut[OF this] show "\<exists>s. v = String s \<and> storage s = storage (src rd)"
    by (auto dest: cut_from_storage)
next
  fix v s assume "parse h rd = Inr v" and "s \<in> set (strings_of v)"
  then show "storage s = storage (src rd)" by (auto dest: parse_cut cut_from_storage)
qed (simp_all add: substr_obj_def substr_def)

theorem zero_copy_slicing_witness:
  "use_count hello_shared 0 = 2
   \<and> blocks (substr_obj hello_shared 1 7 5) = blocks hello_shared
   \<and> view_obj (substr_obj hello_shared 1 7 5) 2 = Some ''World''
   \<and> use_count (substr_obj hello_shared 1 7 5) 0 = 3
   \<and> parse_string (heap_of_text sample5) ((reader_of sample5)\<lparr>pos := 1\<rparr>)
       = Inr (String \<lparr>storage = 0, offset = 2, length' = 1\<rparr>, (reader_of sample5)\<lparr>pos := 4\<rparr>)
   \<and> parse (heap_of_text sample5) (reader_of sample5)
       = Inr (Object [(\<lparr>storage = 0, offset = 2, length' = 1\<rparr>, Integer 2)])
   \<and> storage \<lparr>storage = 0, offset = 2, length' = 1\<rparr> = storage (src (reader_of sample5))"
proof -
  have e: "hello_shared = \<lparr>blocks = [''Hello, World!'' @ [NUL]],
      objs = [\<lparr>storage = 0, offset = 0, length' = 13\<rparr>, \<lparr>storage = 0, offset = 0, length' = 13\<rparr>]\<rparr>"
    by (simp add: hello_shared_def copy_construct_def construct_def cow_string_new_def)
  have a: "use_count hello_shared 0 = 2" by (simp add: e use_count_def)
  from zero_copy_slicing[of hello_shared 1 7 5]
  have b: "blocks (substr_obj hello_shared 1 7 5) = blocks hello_shared"
    and o: "objs (substr_obj hello_shared 1 7 5) = objs hello_shared @ [substr (objs hello_shared ! 1) 7 5]"
    by simp_all
  have c: "view_obj (substr_obj hello_shared 1 7 5) 2 = Some ''World''"
    unfolding view_obj_def b o
    by (simp add: e substr_def size_t_def string_view_def window_def block_of_def)
  have d: "use_count (substr_obj hello_shared 1 7 5) 0 = 3"
    unfolding use_count_def o by (simp add: e substr_def)
  have ps: "parse_string (heap_of_text sample5) ((reader_of sample5)\<lparr>pos := 1\<rparr>)
       = Inr (String \<lparr>storage = 0, offset = 2, length' = 1\<rparr>, (reader_of sample5)\<lparr>pos := 4\<rparr>)"
    by (simp add: heap_of_text_def reader_of_def sample5_def run_simps)
  have p: "parse (heap_of_text sample5) (reader_of sample5)
       = Inr (Object [(\<lparr>storage = 0, offset = 2, length' = 1\<rparr>, Integer 2)])"
    by (simp add: heap_of_text_def reader_of_def sample5_def run_simps)
  from zero_copy_slicing[of _ _ _ _ "heap_of_text sample5" "reader_of sample5"] p
  have "storage \<lparr>storage = 0, offset = 2, length' = 1\<rparr> = storage (src (reader_of sample5))"
    by simp
  with a b c d ps p show ?thesis by simp
qed

text \<open>
  C4 (the slice invariant). The reader breaks it. \<open>parse_null\<close>, \<open>parse_true\<close> and
  \<open>parse_false\<close> take \<open>src.substr(pos, 4)\<close> or \<open>src.substr(pos, 5)\<close> without looking at what is
  left of the input, while every other read of the reader is guarded by \<open>pos < src.size()\<close>.
  On the text \<open>n\<close> the source is inside its block of two bytes, the slice of the lookahead
  has offset 0 and length 4, and the comparison reads through it, beyond the block.
\<close>

theorem literal_lookahead_leaves_block:
  "slice_inv (heap_of_text cut_literal) (src (reader_of cut_literal))
   \<and> offset (lookahead (reader_of cut_literal) 4) + length' (lookahead (reader_of cut_literal) 4) = 4
   \<and> length (block_of (heap_of_text cut_literal) (lookahead (reader_of cut_literal) 4)) = 2
   \<and> \<not> slice_inv (heap_of_text cut_literal) (lookahead (reader_of cut_literal) 4)
   \<and> parse_null (heap_of_text cut_literal) (reader_of cut_literal) = Inl Undefined_behaviour
   \<and> parse_text cut_literal = Inl Undefined_behaviour"
  by (simp add: cut_literal_def heap_of_text_def reader_of_def slice_inv_def run_simps)

text \<open>
  The other operations keep a slice inside its block. The constructor and the private
  \<open>copy()\<close> return such a slice. \<open>substr\<close> keeps a slice inside its block when offset and
  count lie within the length of the slice; it checks nothing itself. A state whose live
  strings are all inside their blocks stays so under construction, copy, such a \<open>substr\<close> and
  an indexed write. With a source inside its block, every slice of a parsed tree and the
  token of \<open>parse_number\<close> are inside the block.
\<close>

theorem slice_invariant_elsewhere:
  "slice_inv (fst (cow_string_new h v)) (snd (cow_string_new h v))
   \<and> (\<forall>h' s'. copy h s = Some (h', s') \<longrightarrow> slice_inv h' s')
   \<and> (slice_inv h s \<and> off + count \<le> length' s \<longrightarrow> slice_inv h (substr s off count))
   \<and> (state_inv st \<longrightarrow>
        state_inv (construct st v)
        \<and> (i < length (objs st) \<longrightarrow> state_inv (copy_construct st i))
        \<and> (i < length (objs st) \<and> off + count \<le> length' (objs st ! i)
             \<longrightarrow> state_inv (substr_obj st i off count))
        \<and> (\<forall>st'. char_proxy_assign st i index c = Some st' \<longrightarrow> state_inv st'))
   \<and> (slice_inv h (src rd) \<longrightarrow>
        (\<forall>w t. parse h rd = Inr w \<longrightarrow> t \<in> set (strings_of w) \<longrightarrow> slice_inv h t)
        \<and> (\<forall>e. pos rd \<le> length' (src rd) \<longrightarrow> scan_number h (src rd) (pos rd) = Some e
             \<longrightarrow> slice_inv h (substr (src rd) (pos rd) (e - pos rd))))"
proof (intro conjI allI impI)
  show "slice_inv (fst (cow_string_new h v)) (snd (cow_string_new h v))" by (rule new_inv)
next
  fix h' s' assume "copy h s = Some (h', s')"
  then show "slice_inv h' s'" by (rule copy_inv)
next
  assume "slice_inv h s \<and> off + count \<le> length' s"
  then show "slice_inv h (substr s off count)" by (auto intro: substr_inv)
next
  assume "state_inv st"
  then show "state_inv (construct st v)" by (rule construct_inv)
next
  assume "state_inv st" and "i < length (objs st)"
  then show "state_inv (copy_construct st i)" by (rule copy_construct_inv)
next
  assume "state_inv st" and "i < length (objs st) \<and> off + count \<le> length' (objs st ! i)"
  then show "state_inv (substr_obj st i off count)" by (auto intro: substr_obj_inv)
next
  fix st' assume "state_inv st" and "char_proxy_assign st i index c = Some st'"
  then show "state_inv st'" by (rule char_proxy_assign_inv)
next
  fix w t assume "slice_inv h (src rd)" and "parse h rd = Inr w" and "t \<in> set (strings_of w)"
  then show "slice_inv h t" by (auto dest: parse_cut intro: cut_from_inv)
next
  fix e assume i: "slice_inv h (src rd)" and p: "pos rd \<le> length' (src rd)"
    and s: "scan_number h (src rd) (pos rd) = Some e"
  from scan_number_le[OF s] scan_number_le_length[OF s p]
  have "pos rd + (e - pos rd) \<le> length' (src rd)" by simp
  with i show "slice_inv h (substr (src rd) (pos rd) (e - pos rd))" by (rule substr_inv)
qed

theorem slice_invariant_elsewhere_witness:
  "slice_inv (heap_of_text sample5) (src (reader_of sample5))
   \<and> 2 + 1 \<le> length' (src (reader_of sample5))
   \<and> slice_inv (heap_of_text sample5) (substr (src (reader_of sample5)) 2 1)
   \<and> state_inv hello_shared
   \<and> (\<exists>st'. char_proxy_assign hello_shared 1 7 CHR ''C'' = Some st' \<and> state_inv st')
   \<and> parse (heap_of_text sample5) (reader_of sample5)
       = Inr (Object [(\<lparr>storage = 0, offset = 2, length' = 1\<rparr>, Integer 2)])
   \<and> slice_inv (heap_of_text sample5) \<lparr>storage = 0, offset = 2, length' = 1\<rparr>"
proof -
  let ?h = "heap_of_text sample5" and ?rd = "reader_of sample5"
  have h: "?h = [sample5 @ [NUL]]"
    by (simp add: heap_of_text_def json_reader_new_def cow_string_new_def)
  have rd: "?rd = \<lparr>src = \<lparr>storage = 0, offset = 0, length' = 13\<rparr>, pos = 0, row = 1, column = 0\<rparr>"
    by (simp add: reader_of_def json_reader_new_def cow_string_new_def sample5_def)
  have i: "slice_inv ?h (src ?rd)" unfolding h rd by (simp add: slice_inv_def sample5_def)
  have l: "2 + 1 \<le> length' (src ?rd)" unfolding rd by simp
  have e: "hello_shared = \<lparr>blocks = [''Hello, World!'' @ [NUL]],
      objs = [\<lparr>storage = 0, offset = 0, length' = 13\<rparr>, \<lparr>storage = 0, offset = 0, length' = 13\<rparr>]\<rparr>"
    by (simp add: hello_shared_def copy_construct_def construct_def cow_string_new_def)
  have si: "state_inv hello_shared" by (simp add: e state_inv_def slice_inv_def)
  obtain st' where w: "char_proxy_assign hello_shared 1 7 CHR ''C'' = Some st'"
    by (simp add: e char_proxy_assign_def use_count_def copy_obj_def copy_def string_view_def
        window_def block_of_def size_t_def Let_def)
  have p: "parse ?h ?rd = Inr (Object [(\<lparr>storage = 0, offset = 2, length' = 1\<rparr>, Integer 2)])"
    by (simp add: heap_of_text_def reader_of_def sample5_def run_simps)
  note t = slice_invariant_elsewhere[of ?h "''x''" "src ?rd" 2 1 hello_shared 1 7 "CHR ''C''" ?rd]
  from t i l have a: "slice_inv ?h (substr (src ?rd) 2 1)" by blast
  from t si w have b: "state_inv st'" by blast
  from t i p have c: "slice_inv ?h \<lparr>storage = 0, offset = 2, length' = 1\<rparr>" by simp
  from i l a si w b p c show ?thesis by blast
qed


section \<open>The claim about the round trip\<close>

text \<open>
  C2 (round-trip shape), as amended. A tree is \<open>plain\<close> when its integers are between 0 and
  \<open>2^63 - 1\<close>, its strings and keys hold neither a quote nor a NUL byte and lie inside their
  blocks, it holds no Float, and the entries of each object are in the strictly ascending
  byte-wise order of their keys (as \<open>std::map\<close> keeps them). For every plain tree the writer
  returns a text, and when the text is shorter than \<open>npos\<close> the reader returns, from that
  text alone, a tree that shows the same scalars, the same nesting and the same entries in
  the same sorted order.
\<close>

theorem round_trip_plain:
  assumes "plain h v"
  shows "\<exists>t. write_node fmt h v = Some t \<and> shown h v \<noteq> None \<and>
           (length t < npos \<longrightarrow>
              (\<exists>v'. parse_text t = Inr v' \<and> shown (heap_of_text t) v' = shown h v))"
proof -
  from reads_backD[OF all_reads_back assms, of fmt] obtain t where
    w: "write_node fmt h v = Some t" and s: "shown h v \<noteq> None"
    and r: "\<And>h' rd doc pre post n.
           reads_text h' (src rd) doc \<Longrightarrow> doc = pre @ t @ post \<Longrightarrow> pos rd = length pre \<Longrightarrow>
           post = [] \<or> \<not> number_char (hd post) \<Longrightarrow> 2 * length t + 1 \<le> n \<Longrightarrow>
           \<exists>v'. parse_value n h' rd = Inr (v', rd\<lparr>pos := length pre + length t\<rparr>) \<and>
                 shown h' v' = shown h v"
    by blast
  have "\<exists>v'. parse_text t = Inr v' \<and> shown (heap_of_text t) v' = shown h v" if l: "length t < npos"
  proof -
    let ?rd = "\<lparr>src = \<lparr>storage = 0, offset = 0, length' = length t\<rparr>, pos = 0, row = 1, column = 0\<rparr>"
    have rt: "reads_text [t @ [NUL]] (src ?rd) t" using reads_text_new[OF l] by simp
    from r[OF rt, of "[]" "[]" "2 * length t + 1"] obtain v' where
      p: "parse_value (2 * length t + 1) [t @ [NUL]] ?rd = Inr (v', ?rd\<lparr>pos := length t\<rparr>)"
      and sh: "shown [t @ [NUL]] v' = shown h v" by auto
    have "parse_text t = Inr v'" unfolding parse_text_unfold p by simp
    moreover have "heap_of_text t = [t @ [NUL]]"
      by (simp add: heap_of_text_def json_reader_new_def cow_string_new_def)
    ultimately show ?thesis using sh by simp
  qed
  with w s show ?thesis by blast
qed

text \<open>
  The witness: an object with one key mapped to an array of an integer, a string, null and
  true; the string is a slice at offset 1, so \<open>c_str()\<close> takes its private copy.
\<close>

theorem round_trip_plain_witness:
  "plain small_heap small_tree
   \<and> write_node (\<lambda>q. []) small_heap small_tree
       = Some [CHR ''{'', CHR 0x22, CHR ''a'', CHR 0x22, CHR '':'', CHR ''['', CHR ''1'', CHR ''0'',
               CHR '','', CHR 0x22, CHR ''b'', CHR 0x22, CHR '','', CHR ''n'', CHR ''u'', CHR ''l'',
               CHR ''l'', CHR '','', CHR ''t'', CHR ''r'', CHR ''u'', CHR ''e'', CHR '']'', CHR ''}'']
   \<and> shown small_heap small_tree
       = Some (JObject [(''a'', JArray [JInteger 10, JString ''b'', JNull, JBool True])])
   \<and> (\<exists>v'. parse_text [CHR ''{'', CHR 0x22, CHR ''a'', CHR 0x22, CHR '':'', CHR ''['', CHR ''1'',
               CHR ''0'', CHR '','', CHR 0x22, CHR ''b'', CHR 0x22, CHR '','', CHR ''n'', CHR ''u'',
               CHR ''l'', CHR ''l'', CHR '','', CHR ''t'', CHR ''r'', CHR ''u'', CHR ''e'', CHR '']'',
               CHR ''}''] = Inr v'
          \<and> shown (heap_of_text [CHR ''{'', CHR 0x22, CHR ''a'', CHR 0x22, CHR '':'', CHR ''['',
               CHR ''1'', CHR ''0'', CHR '','', CHR 0x22, CHR ''b'', CHR 0x22, CHR '','', CHR ''n'',
               CHR ''u'', CHR ''l'', CHR ''l'', CHR '','', CHR ''t'', CHR ''r'', CHR ''u'', CHR ''e'',
               CHR '']'', CHR ''}'']) v'
             = Some (JObject [(''a'', JArray [JInteger 10, JString ''b'', JNull, JBool True])]))"
proof -
  have p: "plain small_heap small_tree"
    by (simp add: small_heap_def small_tree_def plain_string_def plain_key_def sorted_keys_def
        string_view_def window_def block_of_def NUL_def)
  have w: "write_node (\<lambda>q. []) small_heap small_tree
       = Some [CHR ''{'', CHR 0x22, CHR ''a'', CHR 0x22, CHR '':'', CHR ''['', CHR ''1'', CHR ''0'',
               CHR '','', CHR 0x22, CHR ''b'', CHR 0x22, CHR '','', CHR ''n'', CHR ''u'', CHR ''l'',
               CHR ''l'', CHR '','', CHR ''t'', CHR ''r'', CHR ''u'', CHR ''e'', CHR '']'', CHR ''}'']"
    by (simp add: small_heap_def small_tree_def show_int_def digits_10 c_str_def copy_def run_simps)
  have s: "shown small_heap small_tree
       = Some (JObject [(''a'', JArray [JInteger 10, JString ''b'', JNull, JBool True])])"
    by (simp add: small_heap_def small_tree_def run_simps NUL_def)
  from round_trip_plain[OF p, of "\<lambda>q. []"] w s p show ?thesis
    by (simp add: npos_def)
qed

text \<open>
  Not every tree is read back. The writer prints a negative integer with its
  sign, and the reader has no sign in its number grammar: the text of \<open>Integer (-1)\<close> is
  rejected with the exception \<open>Invalid token\<close>.
\<close>

theorem round_trip_counterexample:
  "plain [] (Integer 1)
   \<and> \<not> plain [] (Integer (- 1))
   \<and> write_node (\<lambda>q. []) [] (Integer (- 1)) = Some ''-1''
   \<and> parse_text ''-1'' = Inl (Invalid_token CHR ''-'' 1 0)"
  by (simp add: show_int_def digits.simps[of "Suc 0"] digit_char_def run_simps)

end
